(* ===== verification/Prelude.thy ===== *)
theory Prelude
  imports Main "HOL-Library.Word"
begin

text \<open>
  Shared vocabulary of the development: the machine integer types of the C++ sources, the
  error values that stand for C++ exceptions, contract violations and undefined behaviour, the
  state-and-error operations in which stateful code is written, and the generic lemmas on words,
  lists and loops that several components use.
\<close>

unbundle bit_operations_syntax

named_theorems bit_defs \<open>definitions of the bit-level accessors\<close>
named_theorems op_defs \<open>definitions of the sequencing operations\<close>
named_theorems frame_simps \<open>fields an operation does not write\<close>

section \<open>Machine integers\<close>

type_synonym u8 = "8 word"
type_synonym u16 = "16 word"
type_synonym u32 = "32 word"
type_synonym u64 = "64 word"

section \<open>Errors\<close>

text \<open>
  \<open>Bad_alloc\<close> and \<open>Runtime_error\<close> are the C++ exceptions the sources throw, and
  \<open>Expects_failed\<close> the exception of a violated \<open>expects\<close> or a checked index
  (the build sets \<open>GSL_THROW_ON_CONTRACT_VIOLATION\<close>).  \<open>Out_of_bounds\<close> is an
  unchecked access outside an array, \<open>Null_deref\<close> a dereferenced null pointer; no handler
  catches these two.  \<open>Out_of_fuel\<close> is no behaviour of the code: it marks a bounded
  recursion of the model that was cut short, and is proved never to occur where a result is claimed.
\<close>

datatype error =
    Bad_alloc
  | Runtime_error
  | Expects_failed
  | Out_of_bounds
  | Null_deref
  | Out_of_fuel

section \<open>Operations on a state that may fail\<close>

text \<open>
  An operation takes the state and returns an error or a value together with the state it leaves
  behind: as in C++, the writes made before an exception stay.
\<close>

type_synonym ('s, 'a) op = "'s \<Rightarrow> (error + 'a) \<times> 's"

definition returnE :: "'a \<Rightarrow> ('s, 'a) op" where
  "returnE a = (\<lambda>s. (Inr a, s))"

definition throwE :: "error \<Rightarrow> ('s, 'a) op" where
  "throwE e = (\<lambda>s. (Inl e, s))"

definition bindE :: "('s, 'a) op \<Rightarrow> ('a \<Rightarrow> ('s, 'b) op) \<Rightarrow> ('s, 'b) op" where
  "bindE m f = (\<lambda>s. case m s of (Inl e, s') \<Rightarrow> (Inl e, s') | (Inr a, s') \<Rightarrow> f a s')"

definition seqE :: "('s, 'a) op \<Rightarrow> ('s, 'b) op \<Rightarrow> ('s, 'b) op" where
  "seqE m n = bindE m (\<lambda>_. n)"

definition getE :: "('s \<Rightarrow> 'a) \<Rightarrow> ('s, 'a) op" where
  "getE f = (\<lambda>s. (Inr (f s), s))"

definition modifyE :: "('s \<Rightarrow> 's) \<Rightarrow> ('s, unit) op" where
  "modifyE f = (\<lambda>s. (Inr (), f s))"

definition expectsE :: "bool \<Rightarrow> ('s, unit) op" where
  "expectsE b = (if b then returnE () else throwE Expects_failed)"

primrec forE :: "'a list \<Rightarrow> ('a \<Rightarrow> ('s, unit) op) \<Rightarrow> ('s, unit) op" where
  "forE [] f = returnE ()"
| "forE (x # xs) f = seqE (f x) (forE xs f)"

text \<open>Catching exceptions, and clean-up code that runs when one passes.\<close>

definition catchable :: "error \<Rightarrow> bool" where
  "catchable e \<longleftrightarrow> e = Bad_alloc \<or> e = Runtime_error \<or> e = Expects_failed"

definition tryE :: "('s, 'a) op \<Rightarrow> ('s, 'a) op \<Rightarrow> ('s, 'a) op" where
  "tryE m h = (\<lambda>s. case m s of
     (Inl e, s') \<Rightarrow> if catchable e then h s' else (Inl e, s')
   | (Inr a, s') \<Rightarrow> (Inr a, s'))"

definition on_failureE :: "('s \<Rightarrow> 's) \<Rightarrow> ('s, 'a) op \<Rightarrow> ('s, 'a) op" where
  "on_failureE f m = (\<lambda>s. case m s of
     (Inl e, s') \<Rightarrow> if catchable e then (Inl e, f s') else (Inl e, s')
   | (Inr a, s') \<Rightarrow> (Inr a, s'))"

lemma returnE_apply [simp]: "returnE a s = (Inr a, s)"
  by (simp add: returnE_def)

lemma throwE_apply [simp]: "throwE e s = (Inl e, s)"
  by (simp add: throwE_def)

lemma getE_apply [simp]: "getE f s = (Inr (f s), s)"
  by (simp add: getE_def)

lemma modifyE_apply [simp]: "modifyE f s = (Inr (), f s)"
  by (simp add: modifyE_def)

lemma bindE_Inr: "m s = (Inr a, s') \<Longrightarrow> bindE m f s = f a s'"
  by (simp add: bindE_def)

lemma bindE_Inl: "m s = (Inl e, s') \<Longrightarrow> bindE m f s = (Inl e, s')"
  by (simp add: bindE_def)

lemma seqE_Inr: "m s = (Inr a, s') \<Longrightarrow> seqE m n s = n s'"
  by (simp add: seqE_def bindE_Inr)

lemma seqE_Inl: "m s = (Inl e, s') \<Longrightarrow> seqE m n s = (Inl e, s')"
  by (simp add: seqE_def bindE_Inl)

lemma bindE_simps [simp]:
  "bindE (returnE a) f = f a"
  "bindE (throwE e) g = throwE e"
  "bindE (getE h) k s = k (h s) s"
  "bindE (modifyE u) v s = v () (u s)"
  by (simp_all add: bindE_def fun_eq_iff)

lemma seqE_simps [simp]:
  "seqE (returnE a) n = n"
  "seqE (throwE e) n' = throwE e"
  "seqE (modifyE u) v s = v (u s)"
  by (simp_all add: seqE_def)

lemma seqE_returnE: "seqE m (returnE ()) = (m :: ('s, unit) op)"
  by (auto simp: seqE_def bindE_def fun_eq_iff split: prod.splits sum.splits)

lemma Pair_op_simps [simp]:
  "bindE (Pair (Inr a)) f = f a"
  "bindE (Pair (Inl e)) g = Pair (Inl e)"
  "seqE (Pair (Inr a)) n = n"
  "seqE (Pair (Inl e)) n' = Pair (Inl e)"
  by (simp_all add: seqE_def bindE_def fun_eq_iff)

lemma expectsE_simps [simp]:
  "expectsE True = returnE ()"
  "expectsE False = throwE Expects_failed"
  by (simp_all add: expectsE_def)

lemma bindE_InrE:
  assumes "bindE m f s = (Inr b, t)"
  obtains a s' where "m s = (Inr a, s')" and "f a s' = (Inr b, t)"
proof (cases "m s")
  case (Pair r s')
  with assms show ?thesis
    by (cases r) (auto simp: bindE_def intro: that)
qed

lemma seqE_InrE:
  assumes "seqE m n s = (Inr b, t)"
  obtains a s' where "m s = (Inr a, s')" and "n s' = (Inr b, t)"
  using assms by (auto simp: seqE_def elim: bindE_InrE)

lemma tryE_Inr [simp]: "m s = (Inr a, s') \<Longrightarrow> tryE m h s = (Inr a, s')"
  by (simp add: tryE_def)

lemma tryE_Inl: "m s = (Inl e, s') \<Longrightarrow> tryE m h s = (if catchable e then h s' else (Inl e, s'))"
  by (simp add: tryE_def)

lemma on_failureE_Inr [simp]: "m s = (Inr a, s') \<Longrightarrow> on_failureE f m s = (Inr a, s')"
  by (simp add: on_failureE_def)

text \<open>What an operation leaves behind, success or not.\<close>

lemma bindE_cases:
  assumes "bindE m f s = (r, t)"
  obtains (fail) e where "m s = (Inl e, t)" "r = Inl e"
    | (ok) a s' where "m s = (Inr a, s')" "f a s' = (r, t)"
proof (cases "m s")
  case (Pair x s')
  with assms show ?thesis by (cases x) (auto simp: bindE_def intro: fail ok)
qed

lemma seqE_cases:
  assumes "seqE m n s = (r, t)"
  obtains (fail) e where "m s = (Inl e, t)" "r = Inl e"
    | (ok) a s' where "m s = (Inr a, s')" "n s' = (r, t)"
  using assms unfolding seqE_def by (rule bindE_cases) (auto intro: fail ok)

lemma forE_Cons_Inr: "f x s = (Inr (), s') \<Longrightarrow> forE (x # xs) f s = forE xs f s'"
  by (simp add: seqE_def bindE_def)

lemma forE_map: "forE (map h xs) f = forE xs (\<lambda>x. f (h x))"
  by (induction xs) simp_all

lemma forE_append: "forE (xs @ ys) f = seqE (forE xs f) (forE ys f)"
proof (induction xs)
  case (Cons x xs)
  then show ?case
    by (auto simp: seqE_def bindE_def fun_eq_iff split: prod.splits sum.splits)
qed simp

text \<open>The loop rule: an invariant kept by every iteration, indexed by the work already done.\<close>

lemma forE_inv:
  assumes "I [] s"
    and "\<And>ys y zs t. xs = ys @ y # zs \<Longrightarrow> I ys t \<Longrightarrow>
           \<exists>t'. f y t = (Inr (), t') \<and> I (ys @ [y]) t'"
  shows "\<exists>t. forE xs f s = (Inr (), t) \<and> I xs t"
  using assms
proof (induction xs arbitrary: I s)
  case Nil
  then show ?case by simp
next
  case (Cons x xs)
  from Cons.prems(2)[of "[]" x xs s] Cons.prems(1)
  obtain s1 where s1: "f x s = (Inr (), s1)" "I [x] s1" by auto
  have "\<exists>t. forE xs f s1 = (Inr (), t) \<and> I (x # xs) t"
  proof (rule Cons.IH[of "\<lambda>ys. I (x # ys)"])
    show "I [x] s1" by (rule s1(2))
  next
    fix ys y zs t
    assume "xs = ys @ y # zs" and "I (x # ys) t"
    then show "\<exists>t'. f y t = (Inr (), t') \<and> I (x # ys @ [y]) t'"
      using Cons.prems(2)[of "x # ys" y zs t] by simp
  qed
  with s1(1) show ?case by (simp add: seqE_Inr)
qed

lemma forE_keeps:
  assumes "I s" "\<And>x s r s'. x \<in> set xs \<Longrightarrow> I s \<Longrightarrow> f x s = (r, s') \<Longrightarrow> I s'" "forE xs f s = (r, s')"
  shows "I s'"
  using assms
proof (induction xs arbitrary: s)
  case (Cons x xs)
  from Cons.prems(3)[unfolded forE.simps] show ?case
  proof (cases rule: seqE_cases)
    case (fail e)
    then show ?thesis using Cons.prems(2)[of x s "Inl e" s'] Cons.prems(1) by simp
  next
    case (ok u s1)
    then have "I s1" using Cons.prems(2)[of x s "Inr u" s1] Cons.prems(1) by simp
    then show ?thesis by (rule Cons.IH) (use Cons.prems(2) ok(2) in auto)
  qed
qed simp

section \<open>Sets and lists\<close>

lemma Un_eq_parts:
  "A \<subseteq> X \<Longrightarrow> B \<subseteq> Y \<Longrightarrow> X \<inter> Y = {} \<Longrightarrow> A \<union> B = X \<union> Y \<longleftrightarrow> A = X \<and> B = Y"
  by blast

section \<open>Words\<close>

lemma unat_of_nat_u64: "n < 2 ^ 64 \<Longrightarrow> unat (of_nat n :: u64) = n"
  by (simp add: unat_of_nat take_bit_nat_eq_self)

lemma of_nat_u64_inject:
  "m < 2 ^ 64 \<Longrightarrow> n < 2 ^ 64 \<Longrightarrow> (of_nat m :: u64) = of_nat n \<longleftrightarrow> m = n"
  by (metis unat_of_nat_u64)

lemma of_nat_u64_less:
  "m < 2 ^ 64 \<Longrightarrow> n < 2 ^ 64 \<Longrightarrow> (of_nat m :: u64) < of_nat n \<longleftrightarrow> m < n"
  by (simp add: word_less_nat_alt unat_of_nat_u64)

lemma unat_u64_less: "unat (x :: u64) < 2 ^ 64"
  using unsigned_less[where w = x] by simp

lemma bit_u64_ge [simp]: "64 \<le> n \<Longrightarrow> \<not> bit (x :: u64) n"
  using bit_imp_le_length[of x n] by auto

lemma take_bit_unat_less: "take_bit n (x :: u64) = x \<Longrightarrow> unat x < 2 ^ n"
  by (metis take_bit_nat_less_exp unsigned_take_bit_eq)

lemma u64_eqI: "(\<And>n. n < 64 \<Longrightarrow> bit (x :: u64) n = bit y n) \<Longrightarrow> x = y"
  by (rule bit_word_eqI) simp

end
