(* ===== verification/Bit_Manip.thy ===== *)
theory Bit_Manip
  imports Prelude
begin

text \<open>
  Bit manipulation on 64-bit values: the integer overloads of
  \<open>src/bareflank/bfsdk/include/bfbitmanip.h\<close> and of \<open>bfupperlower.h\<close>.  A shift
  count is a natural number below 64 wherever the sources use these functions (a larger count is
  undefined behaviour in C++; here the shifted value is then 0).
\<close>

definition set_bit_u64 :: "u64 \<Rightarrow> nat \<Rightarrow> u64" where
  "set_bit_u64 t b = t OR push_bit b 1"

definition clear_bit_u64 :: "u64 \<Rightarrow> nat \<Rightarrow> u64" where
  "clear_bit_u64 t b = t AND NOT (push_bit b 1)"

definition get_bit_u64 :: "u64 \<Rightarrow> nat \<Rightarrow> u64" where
  "get_bit_u64 t b = drop_bit b (t AND push_bit b 1)"

definition is_bit_set :: "u64 \<Rightarrow> nat \<Rightarrow> bool" where
  "is_bit_set t b \<longleftrightarrow> get_bit_u64 t b \<noteq> 0"

definition is_bit_cleared :: "u64 \<Rightarrow> nat \<Rightarrow> bool" where
  "is_bit_cleared t b \<longleftrightarrow> get_bit_u64 t b = 0"

definition num_bits_set :: "u64 \<Rightarrow> nat" where
  "num_bits_set t = length (filter (bit t) [0..<64])"

definition get_bits :: "u64 \<Rightarrow> u64 \<Rightarrow> u64" where
  "get_bits t m = t AND m"

definition set_bits :: "u64 \<Rightarrow> u64 \<Rightarrow> u64 \<Rightarrow> u64" where
  "set_bits t m v = (t AND NOT m) OR (v AND m)"

definition lower :: "u64 \<Rightarrow> u64" where
  "lower val = val AND 0xFFF"

definition lower_from :: "u64 \<Rightarrow> nat \<Rightarrow> u64" where
  "lower_from val frm = val AND (push_bit frm 1 - 1)"

definition upper :: "u64 \<Rightarrow> u64" where
  "upper val = val AND NOT 0xFFF"

definition upper_from :: "u64 \<Rightarrow> nat \<Rightarrow> u64" where
  "upper_from val frm = val AND NOT (push_bit frm 1 - 1)"

section \<open>What each bit of the result is\<close>

lemma bit_exp_u64 [simp]: "bit (2 ^ b :: u64) n \<longleftrightarrow> n = b \<and> n < 64"
  by (auto simp: bit_exp_iff)

lemma bit_set_bit_u64 [simp]:
  "bit (set_bit_u64 t b) n \<longleftrightarrow> (bit t n \<or> n = b) \<and> n < 64"
  by (auto simp: set_bit_u64_def bit_or_iff dest: bit_imp_le_length)

lemma bit_clear_bit_u64 [simp]:
  "bit (clear_bit_u64 t b) n \<longleftrightarrow> bit t n \<and> n \<noteq> b"
  by (auto simp: clear_bit_u64_def bit_and_iff bit_not_iff dest: bit_imp_le_length)

lemma is_bit_set_iff [simp]: "is_bit_set t b \<longleftrightarrow> bit t b"
proof -
  have "get_bit_u64 t b = (if bit t b then 1 else 0)"
    by (rule bit_word_eqI)
      (auto simp: get_bit_u64_def bit_drop_bit_eq bit_and_iff bit_1_iff intro: ccontr)
  then show ?thesis by (simp add: is_bit_set_def)
qed

lemma is_bit_cleared_iff [simp]: "is_bit_cleared t b \<longleftrightarrow> \<not> bit t b"
  using is_bit_set_iff[of t b, unfolded is_bit_set_def] by (auto simp: is_bit_cleared_def)

lemma bit_get_bits [simp]: "bit (get_bits t m) n \<longleftrightarrow> bit t n \<and> bit m n"
  by (simp add: get_bits_def bit_and_iff)

lemma bit_set_bits [simp]:
  "bit (set_bits t m v) n \<longleftrightarrow> (if bit m n then bit v n else bit t n)"
  by (auto simp: set_bits_def bit_and_iff bit_or_iff bit_not_iff dest: bit_imp_le_length)

lemma get_bits_set_bits [simp]: "get_bits (set_bits t m v) m = get_bits v m"
  by (rule u64_eqI) simp

lemma set_bits_other: "m AND m' = 0 \<Longrightarrow> get_bits (set_bits t m v) m' = get_bits t m'"
proof (rule u64_eqI)
  fix n assume "m AND m' = 0"
  then have "\<not> (bit m n \<and> bit m' n)"
    by (metis bit_and_iff bit_0_eq bot_apply bot_bool_def)
  then show "bit (get_bits (set_bits t m v) m') n = bit (get_bits t m') n" by auto
qed

lemma bit_mask_u64: "n \<le> 64 \<Longrightarrow> bit (2 ^ n - 1 :: u64) i \<longleftrightarrow> i < n"
  by (auto simp: bit_mask_iff simp flip: mask_eq_exp_minus_1)

lemma bit_lower_from [simp]: "f \<le> 64 \<Longrightarrow> bit (lower_from v f) n \<longleftrightarrow> bit v n \<and> n < f"
  by (simp add: lower_from_def bit_and_iff bit_mask_u64)

lemma bit_upper_from [simp]: "f \<le> 64 \<Longrightarrow> bit (upper_from v f) n \<longleftrightarrow> bit v n \<and> f \<le> n"
  by (auto simp: upper_from_def bit_and_iff bit_not_iff bit_mask_u64 dest: bit_imp_le_length)

lemma lower_is_lower_from: "lower v = lower_from v 12"
  by (simp add: lower_def lower_from_def push_bit_eq_mult)

lemma upper_is_upper_from: "upper v = upper_from v 12"
  by (simp add: upper_def upper_from_def push_bit_eq_mult)

lemma bit_lower [simp]: "bit (lower v) n \<longleftrightarrow> bit v n \<and> n < 12"
  by (simp add: lower_is_lower_from)

lemma bit_upper [simp]: "bit (upper v) n \<longleftrightarrow> bit v n \<and> 12 \<le> n"
  by (simp add: upper_is_upper_from)

lemma upper_or_lower: "f \<le> 64 \<Longrightarrow> upper_from v f OR lower_from v f = v"
  by (rule u64_eqI) (auto simp: bit_or_iff)

lemma upper_from_idem [simp]: "f \<le> 64 \<Longrightarrow> upper_from (upper_from v f) f = upper_from v f"
  by (rule u64_eqI) simp

lemma lower_from_upper_from [simp]: "f \<le> 64 \<Longrightarrow> lower_from (upper_from v f) f = 0"
  by (rule u64_eqI) simp

lemma lower_from_0_iff: "f \<le> 64 \<Longrightarrow> lower_from v f = 0 \<longleftrightarrow> upper_from v f = v"
proof
  assume f: "f \<le> 64" and z: "lower_from v f = 0"
  show "upper_from v f = v"
  proof (rule u64_eqI)
    fix n
    from z have "\<not> bit (lower_from v f) n" by simp
    with f show "bit (upper_from v f) n = bit v n" by (auto simp: not_less)
  qed
next
  assume f: "f \<le> 64" and u: "upper_from v f = v"
  from lower_from_upper_from[OF f, of v] show "lower_from v f = 0" by (simp add: u)
qed

end
