(* ===== verification/Buddy_Allocator.thy ===== *)
theory Buddy_Allocator
  imports Bit_Manip
begin

text \<open>
  The buddy allocator, \<open>src/bareflank/bfvmm/include/memory_manager/buddy_allocator.h\<close>.

  The allocator's binary tree lives in a caller-supplied array of nodes; \<open>child0\<close> and
  \<open>child1\<close> are pointers into that array, here indices (\<open>None\<close> is the null pointer).
  The operations below work on that array, write for write, as the C++ does.  Recursion over
  the pointer structure is bounded by fuel; the refinement to trees in \<open>Buddy_Tree\<close> shows
  that the fuel is never used up and that no access leaves the array.
\<close>

section \<open>Rounding up to a power of two\<close>

definition next_power_2 :: "u64 \<Rightarrow> u64" where
  "next_power_2 size0 =
     (let size1 = size0 - 1;
          size2 = size1 OR drop_bit 1 size1;
          size3 = size2 OR drop_bit 2 size2;
          size4 = size3 OR drop_bit 4 size3;
          size5 = size4 OR drop_bit 8 size4;
          size6 = size5 OR drop_bit 16 size5;
          size7 = size6 OR drop_bit 32 size6
      in size7 + 1)"

section \<open>Nodes\<close>

record node_t =
  child0 :: "nat option"
  child1 :: "nat option"
  node_ptr :: u64
  node_size :: u64

text \<open>A node of the zero-initialised node tree buffer.\<close>

definition zero_node :: node_t where
  "zero_node = \<lparr>child0 = None, child1 = None, node_ptr = 0, node_size = 0\<rparr>"

definition get_size :: "node_t \<Rightarrow> u64" where
  "get_size node = get_bits (node_size node) 0x0FFFFFFFFFFFFFFF"

definition is_unused :: "node_t \<Rightarrow> bool" where
  "is_unused node \<longleftrightarrow> get_bits (node_size node) 0xC000000000000000 = 0x0000000000000000"

definition is_leaf :: "node_t \<Rightarrow> bool" where
  "is_leaf node \<longleftrightarrow> get_bits (node_size node) 0xC000000000000000 = 0x4000000000000000"

definition is_parent :: "node_t \<Rightarrow> bool" where
  "is_parent node \<longleftrightarrow> get_bits (node_size node) 0xC000000000000000 = 0x8000000000000000"

definition is_full :: "node_t \<Rightarrow> bool" where
  "is_full node \<longleftrightarrow> get_bits (node_size node) 0xC000000000000000 = 0xC000000000000000"

definition set_unused :: "node_t \<Rightarrow> node_t" where
  "set_unused node =
     node\<lparr>node_size := set_bits (node_size node) 0xC000000000000000 0x0000000000000000\<rparr>"

definition set_leaf :: "node_t \<Rightarrow> node_t" where
  "set_leaf node =
     node\<lparr>node_size := set_bits (node_size node) 0xC000000000000000 0x4000000000000000\<rparr>"

definition set_parent :: "node_t \<Rightarrow> node_t" where
  "set_parent node =
     node\<lparr>node_size := set_bits (node_size node) 0xC000000000000000 0x8000000000000000\<rparr>"

definition set_full :: "node_t \<Rightarrow> node_t" where
  "set_full node =
     node\<lparr>node_size := set_bits (node_size node) 0xC000000000000000 0xC000000000000000\<rparr>"

section \<open>The allocator's state\<close>

record buddy_allocator =
  m_buffer :: u64
  m_buffer_size :: u64
  m_nodes :: "node_t list"
  m_root :: nat
  m_node_index :: nat

abbreviation BAREFLANK_PAGE_SIZE :: u64 where
  "BAREFLANK_PAGE_SIZE \<equiv> 0x1000"

definition buffer_size :: "nat \<Rightarrow> u64" where
  "buffer_size k = push_bit k 1 * BAREFLANK_PAGE_SIZE"

text \<open>In bytes; \<open>sizeof(node_t)\<close> is 32.\<close>

definition node_tree_size :: "nat \<Rightarrow> u64" where
  "node_tree_size k = (push_bit k 2 - 1) * 32"

text \<open>The constructor, over the nodes of the buffer it is given.\<close>

definition make_buddy :: "u64 \<Rightarrow> nat \<Rightarrow> node_t list \<Rightarrow> buddy_allocator" where
  "make_buddy buffer k node_tree =
     \<lparr>m_buffer = buffer,
      m_buffer_size = buffer_size k,
      m_nodes = node_tree[0 := (node_tree ! 0)\<lparr>node_ptr := buffer, node_size := buffer_size k\<rparr>],
      m_root = 0,
      m_node_index = 1\<rparr>"

text \<open>Reading and writing the node array; a null pointer cannot be followed.\<close>

definition node_at :: "nat \<Rightarrow> (buddy_allocator, node_t) op" where
  "node_at i = (\<lambda>s. if i < length (m_nodes s) then (Inr (m_nodes s ! i), s)
                    else (Inl Out_of_bounds, s))"

definition update_node :: "nat \<Rightarrow> (node_t \<Rightarrow> node_t) \<Rightarrow> (buddy_allocator, unit) op" where
  "update_node i f = (\<lambda>s. if i < length (m_nodes s)
     then (Inr (), s\<lparr>m_nodes := (m_nodes s)[i := f (m_nodes s ! i)]\<rparr>)
     else (Inl Out_of_bounds, s))"

definition deref :: "nat option \<Rightarrow> (buddy_allocator, nat) op" where
  "deref p = (case p of None \<Rightarrow> throwE Null_deref | Some i \<Rightarrow> returnE i)"

definition next_node :: "(buddy_allocator, nat) op" where
  "next_node = (\<lambda>s. if m_node_index s < length (m_nodes s)
     then (Inr (m_node_index s), s\<lparr>m_node_index := m_node_index s + 1\<rparr>)
     else (Inl Out_of_bounds, s))"

section \<open>Allocation\<close>

definition get_nodes :: "nat \<Rightarrow> (buddy_allocator, unit) op" where
  "get_nodes parent =
     bindE next_node (\<lambda>c0.
     bindE next_node (\<lambda>c1.
     bindE (node_at parent) (\<lambda>pn.
     seqE (update_node c0 (\<lambda>n. n\<lparr>node_size := drop_bit 1 (get_size pn)\<rparr>))
    (seqE (update_node c1 (\<lambda>n. n\<lparr>node_size := drop_bit 1 (get_size pn)\<rparr>))
    (seqE (update_node c0 (\<lambda>n. n\<lparr>node_ptr := node_ptr pn\<rparr>))
    (bindE (node_at c0) (\<lambda>n0.
     seqE (update_node c1 (\<lambda>n. n\<lparr>node_ptr := node_ptr pn + node_size n0\<rparr>))
    (seqE (update_node parent (\<lambda>n. n\<lparr>child0 := Some c0\<rparr>))
          (update_node parent (\<lambda>n. n\<lparr>child1 := Some c1\<rparr>)))))))))) "

definition with_children ::
  "nat \<Rightarrow> (node_t \<Rightarrow> node_t \<Rightarrow> (buddy_allocator, 'a) op) \<Rightarrow> (buddy_allocator, 'a) op" where
  "with_children p f =
     bindE (node_at p) (\<lambda>pn.
     bindE (deref (child0 pn)) (\<lambda>c0.
     bindE (deref (child1 pn)) (\<lambda>c1.
     bindE (node_at c0) (\<lambda>n0.
     bindE (node_at c1) (\<lambda>n1. f n0 n1)))))"

definition private_allocate_next ::
  "(u64 \<Rightarrow> nat option \<Rightarrow> nat \<Rightarrow> (buddy_allocator, u64) op)
   \<Rightarrow> u64 \<Rightarrow> nat option \<Rightarrow> nat \<Rightarrow> (buddy_allocator, u64) op" where
  "private_allocate_next alloc sz parent node =
     bindE (alloc sz parent node) (\<lambda>ptr.
       case parent of
         None \<Rightarrow> returnE ptr
       | Some p \<Rightarrow>
           if ptr \<noteq> 0 then
             seqE (update_node p set_parent)
            (seqE (with_children p (\<lambda>c0 c1. if is_leaf c0 \<and> is_leaf c1
                     then update_node p set_full else returnE ()))
            (seqE (with_children p (\<lambda>c0 c1. if is_leaf c0 \<and> is_full c1
                     then update_node p set_full else returnE ()))
            (seqE (with_children p (\<lambda>c0 c1. if is_full c0 \<and> is_leaf c1
                     then update_node p set_full else returnE ()))
            (seqE (with_children p (\<lambda>c0 c1. if is_full c0 \<and> is_full c1
                     then update_node p set_full else returnE ()))
                  (returnE ptr)))))
           else returnE ptr)"

primrec private_allocate ::
  "nat \<Rightarrow> u64 \<Rightarrow> nat option \<Rightarrow> nat \<Rightarrow> (buddy_allocator, u64) op" where
  "private_allocate 0 sz parent node = throwE Out_of_fuel"
| "private_allocate (Suc fuel) sz parent node =
     bindE (node_at node) (\<lambda>n.
       if is_leaf n \<or> is_full n then returnE 0
       else if sz = get_size n then
         (if is_unused n then
            seqE (update_node node set_leaf) (bindE (node_at node) (\<lambda>n'. returnE (node_ptr n')))
          else returnE 0)
       else
         seqE (if child0 n = None then get_nodes node else returnE ())
        (bindE (bindE (node_at node) (\<lambda>n. deref (child0 n))) (\<lambda>c0.
         bindE (node_at c0) (\<lambda>n0.
         bindE (if sz = get_size n0 then
                  (if is_unused n0
                   then private_allocate_next (private_allocate fuel) sz (Some node) c0
                   else returnE 0)
                else
                  (if \<not> is_full n0 \<and> \<not> is_leaf n0
                   then private_allocate_next (private_allocate fuel) sz (Some node) c0
                   else returnE 0)) (\<lambda>ptr.
         if ptr \<noteq> 0 then returnE ptr
         else
           bindE (bindE (node_at node) (\<lambda>n. deref (child1 n))) (\<lambda>c1.
           bindE (node_at c1) (\<lambda>n1.
             if sz = get_size n1 then
               (if is_unused n1
                then private_allocate_next (private_allocate fuel) sz (Some node) c1
                else returnE 0)
             else
               (if \<not> is_full n1 \<and> \<not> is_leaf n1
                then private_allocate_next (private_allocate fuel) sz (Some node) c1
                else returnE 0))))))))"

text \<open>Sizes are below \<open>2^60\<close> and halve at every level, so 64 levels are enough.\<close>

definition buddy_fuel :: nat where
  "buddy_fuel = 64"

definition allocate :: "u64 \<Rightarrow> (buddy_allocator, u64) op" where
  "allocate size0 =
     bindE (getE m_buffer_size) (\<lambda>bsz.
       if size0 > bsz \<or> size0 = 0 then throwE Bad_alloc
       else
         let sz = (if size0 < BAREFLANK_PAGE_SIZE then BAREFLANK_PAGE_SIZE else size0) in
         bindE (getE m_root) (\<lambda>root.
         bindE (private_allocate buddy_fuel (next_power_2 sz) None root) (\<lambda>ptr.
           if ptr \<noteq> 0 then returnE ptr else throwE Bad_alloc)))"

section \<open>Deallocation, size and containment\<close>

definition private_deallocate_next ::
  "(u64 \<Rightarrow> nat option \<Rightarrow> nat \<Rightarrow> (buddy_allocator, bool) op)
   \<Rightarrow> u64 \<Rightarrow> nat option \<Rightarrow> nat \<Rightarrow> (buddy_allocator, bool) op" where
  "private_deallocate_next dealloc ptr parent node =
     bindE (dealloc ptr parent node) (\<lambda>res.
       case parent of
         None \<Rightarrow> returnE res
       | Some p \<Rightarrow>
           if res then
             seqE (update_node p set_parent)
            (seqE (with_children p (\<lambda>c0 c1. if is_unused c0 \<and> is_unused c1
                     then update_node p set_unused else returnE ()))
                  (returnE res))
           else returnE res)"

primrec private_deallocate ::
  "nat \<Rightarrow> u64 \<Rightarrow> nat option \<Rightarrow> nat \<Rightarrow> (buddy_allocator, bool) op" where
  "private_deallocate 0 ptr parent node = throwE Out_of_fuel"
| "private_deallocate (Suc fuel) ptr parent node =
     bindE (node_at node) (\<lambda>n.
       if is_leaf n then seqE (update_node node set_unused) (returnE True)
       else
         (case child0 n of
            None \<Rightarrow> returnE False
          | Some c0 \<Rightarrow>
              bindE (node_at c0) (\<lambda>n0.
                if ptr < node_ptr n0 + get_size n0
                then private_deallocate_next (private_deallocate fuel) ptr (Some node) c0
                else bindE (deref (child1 n)) (\<lambda>c1.
                     private_deallocate_next (private_deallocate fuel) ptr (Some node) c1))))"

definition deallocate :: "u64 \<Rightarrow> (buddy_allocator, unit) op" where
  "deallocate ptr =
     (if ptr = 0 then returnE ()
      else bindE (getE m_root) (\<lambda>root.
           seqE (private_deallocate buddy_fuel ptr None root) (returnE ())))"

primrec private_size :: "nat \<Rightarrow> u64 \<Rightarrow> nat option \<Rightarrow> nat \<Rightarrow> (buddy_allocator, u64) op" where
  "private_size 0 ptr parent node = throwE Out_of_fuel"
| "private_size (Suc fuel) ptr parent node =
     bindE (node_at node) (\<lambda>n.
       if is_leaf n then returnE (get_size n)
       else
         (case child0 n of
            None \<Rightarrow> returnE 0
          | Some c0 \<Rightarrow>
              bindE (node_at c0) (\<lambda>n0.
                if ptr < node_ptr n0 + get_size n0
                then private_size fuel ptr (Some node) c0
                else bindE (deref (child1 n)) (\<lambda>c1. private_size fuel ptr (Some node) c1))))"

definition size_of :: "u64 \<Rightarrow> (buddy_allocator, u64) op" where
  "size_of ptr =
     (if ptr = 0 then returnE 0
      else bindE (getE m_root) (\<lambda>root. private_size buddy_fuel ptr None root))"

definition contains :: "buddy_allocator \<Rightarrow> u64 \<Rightarrow> bool" where
  "contains s ptr \<longleftrightarrow> ptr \<ge> m_buffer s \<and> ptr < m_buffer s + m_buffer_size s"

section \<open>Rounding up is exact\<close>

definition smeared :: "nat \<Rightarrow> u64 \<Rightarrow> u64 \<Rightarrow> bool" where
  "smeared n x y \<longleftrightarrow> (\<forall>i. bit y i \<longleftrightarrow> (\<exists>j. i \<le> j \<and> j < i + n \<and> bit x j))"

lemma smeared_refl: "smeared 1 x x"
  by (auto simp: smeared_def less_Suc_eq_le dest: antisym)

lemma smeared_step:
  assumes "smeared n x y"
  shows "smeared (2 * n) x (y OR drop_bit n y)"
proof -
  have "bit (y OR drop_bit n y) i \<longleftrightarrow> (\<exists>j. i \<le> j \<and> j < i + 2 * n \<and> bit x j)" for i
  proof -
    have "bit (y OR drop_bit n y) i \<longleftrightarrow>
        (\<exists>j. i \<le> j \<and> j < i + n \<and> bit x j) \<or> (\<exists>j. n + i \<le> j \<and> j < n + i + n \<and> bit x j)"
      using assms by (simp add: smeared_def bit_or_iff bit_drop_bit_eq)
    moreover have "(i \<le> j \<and> j < i + 2 * n) \<longleftrightarrow>
        (i \<le> j \<and> j < i + n) \<or> (n + i \<le> j \<and> j < n + i + n)" for j by auto
    ultimately show ?thesis by blast
  qed
  then show ?thesis by (simp add: smeared_def)
qed

lemma smeared_64_mask:
  assumes "smeared 64 x y" and "bit x m" and "\<And>j. m < j \<Longrightarrow> \<not> bit x j"
  shows "y = mask (Suc m)"
proof (rule u64_eqI)
  fix n :: nat assume n: "n < 64"
  from assms(2) have "m < 64" by (metis bit_u64_ge not_le)
  moreover have "bit y n \<longleftrightarrow> n \<le> m"
    using assms calculation by (auto simp: smeared_def) (meson le_trans not_le)
  ultimately show "bit y n = bit (mask (Suc m) :: u64) n"
    using n by (auto simp: bit_mask_iff)
qed

text \<open>The bit-twiddling sequence computes \<open>smear + 1\<close> of \<open>size - 1\<close>.\<close>

lemma next_power_2_smear: "\<exists>y. smeared 64 (x - 1) y \<and> next_power_2 x = y + 1"
proof -
  let ?s1 = "x - 1"
  let ?s2 = "?s1 OR drop_bit 1 ?s1"
  let ?s3 = "?s2 OR drop_bit 2 ?s2"
  let ?s4 = "?s3 OR drop_bit 4 ?s3"
  let ?s5 = "?s4 OR drop_bit 8 ?s4"
  let ?s6 = "?s5 OR drop_bit 16 ?s5"
  let ?s7 = "?s6 OR drop_bit 32 ?s6"
  have "smeared 2 ?s1 ?s2" using smeared_step[OF smeared_refl] by simp
  then have "smeared 4 ?s1 ?s3" by (rule smeared_step[of 2, simplified])
  then have "smeared 8 ?s1 ?s4" by (rule smeared_step[of 4, simplified])
  then have "smeared 16 ?s1 ?s5" by (rule smeared_step[of 8, simplified])
  then have "smeared 32 ?s1 ?s6" by (rule smeared_step[of 16, simplified])
  then have "smeared 64 ?s1 ?s7" by (rule smeared_step[of 32, simplified])
  then show ?thesis by (auto simp: next_power_2_def Let_def)
qed

lemma u64_top_bit:
  assumes "x \<noteq> (0 :: u64)"
  obtains m where "bit x m" and "\<And>j. m < j \<Longrightarrow> \<not> bit x j"
    and "2 ^ m \<le> unat x" and "unat x < 2 ^ Suc m"
proof -
  let ?B = "{n. bit x n}"
  have fin: "finite ?B" by (rule finite_subset[of _ "{..<64}"]) (auto intro: ccontr)
  from assms have ne: "?B \<noteq> {}" by (auto simp: bit_eq_iff)
  define m where "m = Max ?B"
  have m: "bit x m" using Max_in[OF fin ne] by (simp add: m_def)
  have top: "\<not> bit x j" if "m < j" for j
  proof
    assume "bit x j"
    then have "j \<le> m" unfolding m_def by (intro Max_ge[OF fin]) simp
    with that show False by simp
  qed
  have m64: "m < 64" using m by (metis bit_u64_ge not_le)
  have "take_bit (Suc m) x = x"
    by (rule u64_eqI) (use top in \<open>auto simp: bit_take_bit_iff less_Suc_eq_le not_le intro: leI\<close>)
  then have "unat x = take_bit (Suc m) (unat x)"
    by (metis unsigned_take_bit_eq)
  then have "unat x < 2 ^ Suc m" by (metis take_bit_nat_less_exp)
  moreover have "2 ^ m \<le> unat x"
  proof -
    have "bit (unat x) m" using m m64 by (simp add: bit_unsigned_iff)
    then have "unat x div 2 ^ m \<noteq> 0" by (metis bit_iff_odd even_zero)
    then show ?thesis by (simp add: div_eq_0_iff not_less)
  qed
  ultimately show ?thesis using m top that by blast
qed

lemma next_power_2_least:
  assumes "x \<noteq> 0" and "unat x \<le> 2 ^ 63"
  shows "\<exists>j\<le>63. next_power_2 x = 2 ^ j \<and> unat x \<le> 2 ^ j \<and> (\<forall>i. unat x \<le> 2 ^ i \<longrightarrow> j \<le> i)"
proof -
  obtain y where y: "smeared 64 (x - 1) y" "next_power_2 x = y + 1"
    using next_power_2_smear by blast
  have ux: "unat (x - 1) = unat x - 1" using assms(1) by (rule unat_minus_one)
  show ?thesis
  proof (cases "x - 1 = 0")
    case True
    then have "y = 0" using y(1) by (intro u64_eqI) (auto simp: smeared_def)
    moreover have "x = 1" using True by simp
    ultimately show ?thesis using y(2) by (intro exI[of _ 0]) simp
  next
    case False
    then obtain m where m: "bit (x - 1) m" "\<And>j. m < j \<Longrightarrow> \<not> bit (x - 1) j"
      and lo: "2 ^ m \<le> unat (x - 1)" and hi: "unat (x - 1) < 2 ^ Suc m"
      by (rule u64_top_bit) blast
    have "y = mask (Suc m)" using y(1) m by (rule smeared_64_mask)
    then have np: "next_power_2 x = 2 ^ Suc m"
      using y(2) by (simp add: mask_eq_exp_minus_1)
    have x0: "0 < unat x" using assms(1) by (simp add: unat_gt_0)
    have "2 ^ m < (2 :: nat) ^ 63" using lo ux x0 assms(2) by simp
    then have "m < 63" by (rule power_less_imp_less_exp[rotated]) simp
    moreover have "unat x \<le> 2 ^ Suc m" using hi ux x0 by simp
    moreover have "Suc m \<le> i" if "unat x \<le> 2 ^ i" for i
    proof -
      have "2 ^ m < (2 :: nat) ^ i" using lo ux x0 that by linarith
      then show ?thesis by simp
    qed
    ultimately show ?thesis using np by (intro exI[of _ "Suc m"]) auto
  qed
qed

end
