(* ===== verification/Buddy_Tree.thy ===== *)
theory Buddy_Tree
  imports Buddy_Allocator
begin

text \<open>
  The abstract side of the buddy allocator: a binary tree whose nodes carry their kind and the
  array index they are stored at.  A node at level \<open>l\<close> manages \<open>2^(l+12)\<close> bytes; its
  address is determined by its place in the tree, so addresses and sizes are natural numbers
  here and nothing wraps around.  The functions \<open>t_alloc\<close> and \<open>t_dealloc\<close> are
  the tree-level counterparts of the array operations; what they do to the set of allocated
  blocks is proved here once, and \<open>Buddy_Refinement\<close> carries it over to the array.
\<close>

datatype nkind = KUnused | KLeaf | KParent | KFull

datatype btree = Tip nat nkind | Br nat nkind btree btree

primrec root_idx :: "btree \<Rightarrow> nat" where
  "root_idx (Tip i k) = i"
| "root_idx (Br i k a b) = i"

primrec kind :: "btree \<Rightarrow> nkind" where
  "kind (Tip i k) = k"
| "kind (Br i k a b) = k"

primrec set_kind :: "nkind \<Rightarrow> btree \<Rightarrow> btree" where
  "set_kind k' (Tip i k) = Tip i k'"
| "set_kind k' (Br i k a b) = Br i k' a b"

primrec idxs :: "btree \<Rightarrow> nat list" where
  "idxs (Tip i k) = [i]"
| "idxs (Br i k a b) = i # idxs a @ idxs b"

definition closed :: "btree \<Rightarrow> bool" where
  "closed t \<longleftrightarrow> kind t = KLeaf \<or> kind t = KFull"

definition bsize :: "nat \<Rightarrow> nat" where
  "bsize l = 2 ^ (l + 12)"

definition join_kind :: "btree \<Rightarrow> btree \<Rightarrow> nkind" where
  "join_kind a b = (if closed a \<and> closed b then KFull else KParent)"

definition free_kind :: "btree \<Rightarrow> btree \<Rightarrow> nkind" where
  "free_kind a b = (if kind a = KUnused \<and> kind b = KUnused then KUnused else KParent)"

primrec expand :: "nat \<Rightarrow> btree \<Rightarrow> nat \<times> btree \<times> btree" where
  "expand nx (Tip i k) = (nx + 2, Tip nx KUnused, Tip (nx + 1) KUnused)"
| "expand nx (Br i k a b) = (nx, a, b)"

primrec t_alloc :: "nat \<Rightarrow> nat \<Rightarrow> nat \<Rightarrow> nat \<Rightarrow> btree \<Rightarrow> nat option \<times> nat \<times> btree" where
  "t_alloc w 0 p nx t =
     (if closed t then (None, nx, t)
      else if w = 0 then
        (if kind t = KUnused then (Some p, nx, set_kind KLeaf t) else (None, nx, t))
      else (None, nx, t))"
| "t_alloc w (Suc l) p nx t =
     (if closed t then (None, nx, t)
      else if w = Suc l then
        (if kind t = KUnused then (Some p, nx, set_kind KLeaf t) else (None, nx, t))
      else
        let (nx1, a, b) = expand nx t in
        (case t_alloc w l p nx1 a of
           (Some q, nx2, a') \<Rightarrow> (Some q, nx2, Br (root_idx t) (join_kind a' b) a' b)
         | (None, nx2, a') \<Rightarrow>
             (case t_alloc w l (p + bsize l) nx2 b of
                (Some q, nx3, b') \<Rightarrow> (Some q, nx3, Br (root_idx t) (join_kind a' b') a' b')
              | (None, nx3, b') \<Rightarrow> (None, nx3, Br (root_idx t) (kind t) a' b'))))"

fun t_dealloc :: "nat \<Rightarrow> nat \<Rightarrow> nat \<Rightarrow> btree \<Rightarrow> bool \<times> btree" where
  "t_dealloc l p x (Tip i k) = (if k = KLeaf then (True, Tip i KUnused) else (False, Tip i k))"
| "t_dealloc 0 p x (Br i k a b) = (if k = KLeaf then (True, Br i KUnused a b) else (False, Br i k a b))"
| "t_dealloc (Suc l) p x (Br i k a b) =
     (if k = KLeaf then (True, Br i KUnused a b)
      else if x < p + bsize l then
        (case t_dealloc l p x a of
           (True, a') \<Rightarrow> (True, Br i (free_kind a' b) a' b)
         | (False, a') \<Rightarrow> (False, Br i k a' b))
      else
        (case t_dealloc l (p + bsize l) x b of
           (True, b') \<Rightarrow> (True, Br i (free_kind a b') a b')
         | (False, b') \<Rightarrow> (False, Br i k a b')))"

fun t_size :: "nat \<Rightarrow> nat \<Rightarrow> nat \<Rightarrow> btree \<Rightarrow> nat" where
  "t_size l p x (Tip i k) = (if k = KLeaf then bsize l else 0)"
| "t_size 0 p x (Br i k a b) = (if k = KLeaf then bsize 0 else 0)"
| "t_size (Suc l) p x (Br i k a b) =
     (if k = KLeaf then bsize (Suc l)
      else if x < p + bsize l then t_size l p x a
      else t_size l (p + bsize l) x b)"

section \<open>Allocated blocks and the invariant\<close>

text \<open>A block is its address and its level.\<close>

fun blocks :: "nat \<Rightarrow> nat \<Rightarrow> btree \<Rightarrow> (nat \<times> nat) set" where
  "blocks l p (Tip i k) = (if k = KLeaf then {(p, l)} else {})"
| "blocks 0 p (Br i k a b) = (if k = KLeaf then {(p, 0)} else {})"
| "blocks (Suc l) p (Br i k a b) =
     (case k of
        KLeaf \<Rightarrow> {(p, Suc l)}
      | KUnused \<Rightarrow> {}
      | _ \<Rightarrow> blocks l p a \<union> blocks l (p + bsize l) b)"

definition rng :: "nat \<times> nat \<Rightarrow> nat set" where
  "rng b = {fst b ..< fst b + bsize (snd b)}"

text \<open>
  A node is unused or leaf only when both its children (if it has them) are unused, full exactly
  when both children are closed, and a parent otherwise.
\<close>

fun t_inv :: "nat \<Rightarrow> btree \<Rightarrow> bool" where
  "t_inv l (Tip i k) \<longleftrightarrow> k = KUnused \<or> k = KLeaf"
| "t_inv 0 (Br i k a b) \<longleftrightarrow> False"
| "t_inv (Suc l) (Br i k a b) \<longleftrightarrow>
     t_inv l a \<and> t_inv l b \<and>
     (case k of
        KUnused \<Rightarrow> kind a = KUnused \<and> kind b = KUnused
      | KLeaf \<Rightarrow> kind a = KUnused \<and> kind b = KUnused
      | KParent \<Rightarrow> \<not> (kind a = KUnused \<and> kind b = KUnused) \<and> \<not> (closed a \<and> closed b)
      | KFull \<Rightarrow> closed a \<and> closed b)"

lemma bsize_pos [simp]: "0 < bsize l"
  by (simp add: bsize_def)

lemma bsize_Suc [simp]: "bsize (Suc l) = bsize l + bsize l"
  by (simp add: bsize_def power_add)

lemma bsize_mono: "m \<le> l \<Longrightarrow> bsize m \<le> bsize l"
  by (simp add: bsize_def power_increasing)

lemma bsize_split: "m \<le> l \<Longrightarrow> bsize l = 2 ^ (l - m) * bsize m"
  by (simp add: bsize_def flip: power_add)

lemma bsize_inj: "bsize m = bsize l \<longleftrightarrow> m = l"
  by (simp add: bsize_def)

lemma closed_simps [simp]:
  "closed (Tip i k) \<longleftrightarrow> k = KLeaf \<or> k = KFull"
  "closed (Br i k a b) \<longleftrightarrow> k = KLeaf \<or> k = KFull"
  by (simp_all add: closed_def)

lemma kind_set_kind [simp]: "kind (set_kind k t) = k" "root_idx (set_kind k t) = root_idx t"
    "idxs (set_kind k t) = idxs t"
  by (cases t; simp)+

lemma blocks_range:
  "(q, m) \<in> blocks l p t \<Longrightarrow> p \<le> q \<and> q + bsize m \<le> p + bsize l \<and> m \<le> l"
proof (induction l arbitrary: p t)
  case 0
  then show ?case by (cases t) (auto split: if_splits)
next
  case (Suc l)
  show ?case
  proof (cases t)
    case (Tip i k)
    with Suc.prems show ?thesis by (auto split: if_splits)
  next
    case (Br i k a b)
    with Suc.prems consider "q = p" "m = Suc l"
      | "(q, m) \<in> blocks l p a" | "(q, m) \<in> blocks l (p + bsize l) b"
      by (auto split: nkind.splits)
    then show ?thesis by cases (auto dest!: Suc.IH)
  qed
qed

lemma rng_subset: "b \<in> blocks l p t \<Longrightarrow> rng b \<subseteq> {p ..< p + bsize l}"
  using blocks_range[of "fst b" "snd b" l p t] by (auto simp: rng_def)

lemma rng_ne [simp]: "rng b \<noteq> {}"
  by (simp add: rng_def)

text \<open>Unused means no block, closed means every byte is covered.\<close>

lemma unused_iff_no_block: "t_inv l t \<Longrightarrow> kind t = KUnused \<longleftrightarrow> blocks l p t = {}"
  by (induction l t arbitrary: p rule: t_inv.induct) (auto simp: closed_def split: nkind.splits)

lemma closed_iff_covered:
  "t_inv l t \<Longrightarrow> closed t \<longleftrightarrow> (\<Union>b \<in> blocks l p t. rng b) = {p ..< p + bsize l}"
proof (induction l t arbitrary: p rule: t_inv.induct)
  case (3 l i k a b)
  let ?A = "\<Union>b \<in> blocks l p a. rng b" and ?B = "\<Union>c \<in> blocks l (p + bsize l) b. rng c"
  have A: "?A \<subseteq> {p ..< p + bsize l}" by (rule UN_least) (rule rng_subset)
  have B: "?B \<subseteq> {p + bsize l ..< p + bsize l + bsize l}" by (rule UN_least) (rule rng_subset)
  have split: "{p ..< p + bsize (Suc l)} = {p ..< p + bsize l} \<union> {p + bsize l ..< p + bsize l + bsize l}"
    by (auto simp: ivl_disj_un)
  have "?A \<union> ?B = {p ..< p + bsize (Suc l)} \<longleftrightarrow>
      ?A = {p ..< p + bsize l} \<and> ?B = {p + bsize l ..< p + bsize l + bsize l}"
    unfolding split by (rule Un_eq_parts[OF A B]) auto
  moreover have "closed a \<longleftrightarrow> ?A = {p ..< p + bsize l}" using 3 by simp
  moreover have "closed b \<longleftrightarrow> ?B = {p + bsize l ..< p + bsize l + bsize l}" using 3 by simp
  ultimately have *: "?A \<union> ?B = {p ..< p + bsize (Suc l)} \<longleftrightarrow> closed a \<and> closed b" by simp
  show ?case
  proof (cases k)
    case KParent
    with "3.prems" * show ?thesis by (auto simp: UN_Un)
  next
    case KFull
    with "3.prems" * show ?thesis by (auto simp: UN_Un)
  qed (use "3.prems" in \<open>auto simp: rng_def\<close>)
qed (auto simp: rng_def)

text \<open>No two allocated blocks overlap.\<close>

lemma blocks_disjoint:
  "t_inv l t \<Longrightarrow> b \<in> blocks l p t \<Longrightarrow> c \<in> blocks l p t \<Longrightarrow> b \<noteq> c \<Longrightarrow> rng b \<inter> rng c = {}"
proof (induction l t arbitrary: p rule: t_inv.induct)
  case (3 l i k t1 t2)
  from "3.prems" consider (one) "b \<in> blocks l p t1" "c \<in> blocks l p t1"
    | (two) "b \<in> blocks l (p + bsize l) t2" "c \<in> blocks l (p + bsize l) t2"
    | (mix) "b \<in> blocks l p t1" "c \<in> blocks l (p + bsize l) t2"
    | (xim) "c \<in> blocks l p t1" "b \<in> blocks l (p + bsize l) t2"
    by (auto split: nkind.splits)
  then show ?case
  proof cases
    case one
    then show ?thesis using "3.IH"(1) "3.prems" by auto
  next
    case two
    then show ?thesis using "3.IH"(2) "3.prems" by auto
  next
    case mix
    then show ?thesis using rng_subset[OF mix(1)] rng_subset[OF mix(2)] by fastforce
  next
    case xim
    then show ?thesis using rng_subset[OF xim(1)] rng_subset[OF xim(2)] by fastforce
  qed
qed (auto split: if_splits)

lemma blocks_same_point:
  "t_inv l t \<Longrightarrow> b \<in> blocks l p t \<Longrightarrow> c \<in> blocks l p t \<Longrightarrow> x \<in> rng b \<Longrightarrow> x \<in> rng c \<Longrightarrow> b = c"
  using blocks_disjoint[of l t b p c] by auto

section \<open>Allocation\<close>

lemma expand_props:
  assumes "t_inv (Suc l) t" and "\<not> closed t" and "expand nx t = (nx1, a, b)"
  shows "t_inv l a" "t_inv l b"
    and "blocks (Suc l) p t = blocks l p a \<union> blocks l (p + bsize l) b"
    and "\<not> (closed a \<and> closed b)"
    and "kind t = KUnused \<longleftrightarrow> kind a = KUnused \<and> kind b = KUnused"
    and "kind t = KUnused \<or> kind t = KParent"
proof -
  have "t_inv l a \<and> t_inv l b \<and> blocks (Suc l) p t = blocks l p a \<union> blocks l (p + bsize l) b \<and>
    \<not> (closed a \<and> closed b) \<and> (kind t = KUnused \<longleftrightarrow> kind a = KUnused \<and> kind b = KUnused) \<and>
    (kind t = KUnused \<or> kind t = KParent)"
  proof (cases t)
    case (Tip i k)
    with assms show ?thesis by (auto simp: closed_def)
  next
    case (Br i k t1 t2)
    with assms show ?thesis
      using unused_iff_no_block[of l t1 p] unused_iff_no_block[of l t2 "p + bsize l"]
      by (cases k) (auto simp: closed_def)
  qed
  then show "t_inv l a" "t_inv l b"
    and "blocks (Suc l) p t = blocks l p a \<union> blocks l (p + bsize l) b"
    and "\<not> (closed a \<and> closed b)"
    and "kind t = KUnused \<longleftrightarrow> kind a = KUnused \<and> kind b = KUnused"
    and "kind t = KUnused \<or> kind t = KParent"
    by blast+
qed

lemma t_inv_join:
  assumes "t_inv l a" "t_inv l b" "\<not> (kind a = KUnused \<and> kind b = KUnused)"
  shows "t_inv (Suc l) (Br i (join_kind a b) a b)"
    and "blocks (Suc l) p (Br i (join_kind a b) a b) = blocks l p a \<union> blocks l (p + bsize l) b"
  using assms by (auto simp: join_kind_def)

lemma t_inv_same_kinds:
  assumes "t_inv (Suc l) t" "\<not> closed t" "expand nx t = (nx1, a, b)"
    and "t_inv l a'" "t_inv l b'" "kind a' = kind a" "kind b' = kind b"
  shows "t_inv (Suc l) (Br i (kind t) a' b')"
    and "blocks (Suc l) p (Br i (kind t) a' b') = blocks l p a' \<union> blocks l (p + bsize l) b'"
proof -
  note e = expand_props[OF assms(1-3)]
  have c: "\<not> (closed a' \<and> closed b')" using e(4) assms(6,7) by (simp add: closed_def)
  show "t_inv (Suc l) (Br i (kind t) a' b')"
    using e(5,6) assms(4-7) c by (auto split: nkind.splits)
  show "blocks (Suc l) p (Br i (kind t) a' b') = blocks l p a' \<union> blocks l (p + bsize l) b'"
    using e(5,6) assms(4-7) unused_iff_no_block[of l a' p] unused_iff_no_block[of l b' "p + bsize l"]
    by (auto split: nkind.splits)
qed

lemma set_leaf_props:
  assumes "t_inv l t" "kind t = KUnused"
  shows "t_inv l (set_kind KLeaf t)" "blocks l p (set_kind KLeaf t) = {(p, l)}"
proof -
  show "t_inv l (set_kind KLeaf t)" using assms by (cases "(l, t)" rule: t_inv.cases) auto
  show "blocks l p (set_kind KLeaf t) = {(p, l)}"
    using assms by (cases "(l, p, t)" rule: blocks.cases) auto
qed

text \<open>What an allocation of level \<open>w\<close> does when it succeeds and when it fails.\<close>

definition alloc_post :: "nat \<Rightarrow> nat \<Rightarrow> nat \<Rightarrow> btree \<Rightarrow> nat option \<Rightarrow> btree \<Rightarrow> bool" where
  "alloc_post w l p t r t' \<longleftrightarrow> t_inv l t' \<and>
     (case r of
        None \<Rightarrow> kind t' = kind t \<and> blocks l p t' = blocks l p t
      | Some q \<Rightarrow> kind t' \<noteq> KUnused \<and> blocks l p t' = insert (q, w) (blocks l p t) \<and>
          (\<forall>b \<in> blocks l p t. rng b \<inter> rng (q, w) = {}) \<and>
          (\<exists>j. q = p + j * bsize w) \<and> p \<le> q \<and> q + bsize w \<le> p + bsize l)"

lemma join_kind_used [simp]: "join_kind a b \<noteq> KUnused"
  by (simp add: join_kind_def)

lemma alloc_post_left:
  assumes "alloc_post w l p a (Some q) a'" and "t_inv l b"
    and bl: "blocks (Suc l) p t = blocks l p a \<union> blocks l (p + bsize l) b"
  shows "alloc_post w (Suc l) p t (Some q) (Br i (join_kind a' b) a' b)"
proof -
  have ia: "t_inv l a'" "kind a' \<noteq> KUnused" "blocks l p a' = insert (q, w) (blocks l p a)"
    and fa: "\<forall>c \<in> blocks l p a. rng c \<inter> rng (q, w) = {}"
    and qa: "\<exists>j. q = p + j * bsize w" "p \<le> q" "q + bsize w \<le> p + bsize l"
    using assms(1) by (auto simp: alloc_post_def)
  have "\<forall>c \<in> blocks l (p + bsize l) b. rng c \<inter> rng (q, w) = {}"
  proof
    fix c assume "c \<in> blocks l (p + bsize l) b"
    from rng_subset[OF this] qa(3) show "rng c \<inter> rng (q, w) = {}" by (fastforce simp: rng_def)
  qed
  with fa have f: "\<forall>c \<in> blocks (Suc l) p t. rng c \<inter> rng (q, w) = {}" by (auto simp only: bl Un_iff)
  have b': "blocks (Suc l) p (Br i (join_kind a' b) a' b) = insert (q, w) (blocks (Suc l) p t)"
    using t_inv_join(2)[OF ia(1) assms(2), where i = i and p = p] ia(2,3) bl by simp
  show ?thesis
    unfolding alloc_post_def option.case
    using t_inv_join(1)[OF ia(1) assms(2), where i = i] ia(2) f b' qa by simp
qed

lemma alloc_post_right:
  assumes "alloc_post w l (p + bsize l) b (Some q) b'" and "t_inv l a"
    and bl: "blocks (Suc l) p t = blocks l p a \<union> blocks l (p + bsize l) b" and "w \<le> l"
  shows "alloc_post w (Suc l) p t (Some q) (Br i (join_kind a b') a b')"
proof -
  have ib: "t_inv l b'" "kind b' \<noteq> KUnused"
      "blocks l (p + bsize l) b' = insert (q, w) (blocks l (p + bsize l) b)"
    and fb: "\<forall>c \<in> blocks l (p + bsize l) b. rng c \<inter> rng (q, w) = {}"
    and qb: "\<exists>j. q = p + bsize l + j * bsize w" "p + bsize l \<le> q" "q + bsize w \<le> p + bsize l + bsize l"
    using assms(1) by (auto simp: alloc_post_def)
  have "\<forall>c \<in> blocks l p a. rng c \<inter> rng (q, w) = {}"
  proof
    fix c assume "c \<in> blocks l p a"
    from rng_subset[OF this] qb(2) show "rng c \<inter> rng (q, w) = {}" by (fastforce simp: rng_def)
  qed
  with fb have f: "\<forall>c \<in> blocks (Suc l) p t. rng c \<inter> rng (q, w) = {}" by (auto simp only: bl Un_iff)
  have b': "blocks (Suc l) p (Br i (join_kind a b') a b') = insert (q, w) (blocks (Suc l) p t)"
    using t_inv_join(2)[OF assms(2) ib(1), where i = i and p = p] ib(2,3) bl by simp
  obtain j where "q = p + bsize l + j * bsize w" using qb(1) by blast
  then have "q = p + (2 ^ (l - w) + j) * bsize w"
    by (simp add: bsize_split[OF assms(4)] add_mult_distrib)
  then have "\<exists>j. q = p + j * bsize w" by blast
  then show ?thesis
    unfolding alloc_post_def option.case
    using t_inv_join(1)[OF assms(2) ib(1), where i = i] ib(2) f b' qb(2,3) by simp
qed

lemma t_alloc_post:
  "t_inv l t \<Longrightarrow> w \<le> l \<Longrightarrow> t_alloc w l p nx t = (r, nx', t') \<Longrightarrow> alloc_post w l p t r t'"
proof (induction l arbitrary: p nx t r nx' t')
  case 0
  then show ?case
    using set_leaf_props(1)[of 0 t] set_leaf_props(2)[of 0 t p] unused_iff_no_block[of 0 t p]
    by (auto simp: alloc_post_def split: if_splits)
next
  case (Suc l)
  show ?case
  proof (cases "closed t \<or> w = Suc l")
    case True
    then show ?thesis
      using Suc.prems set_leaf_props(1)[of "Suc l" t] set_leaf_props(2)[of "Suc l" t p]
        unused_iff_no_block[of "Suc l" t p]
      by (auto simp: alloc_post_def split: if_splits)
  next
    case False
    then have nc: "\<not> closed t" and w: "w \<le> l" "w \<noteq> Suc l" using Suc.prems(2) by auto
    obtain nx1 a b where ex: "expand nx t = (nx1, a, b)" by (metis prod_cases3)
    note e = expand_props[OF Suc.prems(1) nc ex]
    obtain ra nx2 a' where ta: "t_alloc w l p nx1 a = (ra, nx2, a')" by (metis prod_cases3)
    have pa: "alloc_post w l p a ra a'" by (rule Suc.IH[OF e(1) w(1) ta])
    show ?thesis
    proof (cases ra)
      case (Some q)
      then have "r = Some q" "t' = Br (root_idx t) (join_kind a' b) a' b"
        using Suc.prems(3) nc w(2) ex ta by auto
      then show ?thesis using alloc_post_left[OF _ e(2) e(3)] pa Some by simp
    next
      case None
      have ia: "t_inv l a'" "kind a' = kind a" "blocks l p a' = blocks l p a"
        using pa None by (auto simp: alloc_post_def)
      obtain rb nx3 b' where tb: "t_alloc w l (p + bsize l) nx2 b = (rb, nx3, b')"
        by (metis prod_cases3)
      have pb: "alloc_post w l (p + bsize l) b rb b'" by (rule Suc.IH[OF e(2) w(1) tb])
      show ?thesis
      proof (cases rb)
        case None2: None
        have t': "r = None" "t' = Br (root_idx t) (kind t) a' b'"
          using Suc.prems(3) nc w(2) ex ta None tb None2 by auto
        have ib: "t_inv l b'" "kind b' = kind b" "blocks l (p + bsize l) b' = blocks l (p + bsize l) b"
          using pb None2 by (auto simp: alloc_post_def)
        note k = t_inv_same_kinds[OF Suc.prems(1) nc ex ia(1) ib(1) ia(2) ib(2), where i = "root_idx t"]
        show ?thesis using k(1) k(2)[where p = p] ia ib t' e(3)[of p] by (simp add: alloc_post_def)
      next
        case (Some q)
        then have t': "r = Some q" "t' = Br (root_idx t) (join_kind a' b') a' b'"
          using Suc.prems(3) nc w(2) ex ta None tb by auto
        have "blocks (Suc l) p t = blocks l p a' \<union> blocks l (p + bsize l) b" using e(3) ia(3) by simp
        then show ?thesis using alloc_post_right[OF _ ia(1) _ w(1)] pb Some t' by simp
      qed
    qed
  qed
qed

text \<open>
  Completeness: an allocation fails only when every aligned slot of the wanted size overlaps an
  allocated block.  The buddy scheme causes no further external fragmentation.
\<close>

lemma t_alloc_None:
  assumes "t_inv l t" "w \<le> l" "t_alloc w l p nx t = (None, nx', t')"
    and "q = p + j * bsize w" "q + bsize w \<le> p + bsize l"
  shows "\<exists>b \<in> blocks l p t. rng b \<inter> rng (q, w) \<noteq> {}"
  using assms
proof (induction l arbitrary: p nx t nx' t' q j)
  case 0
  then have "w = 0" "j = 0" by (auto simp: bsize_def)
  with "0.prems" show ?case
    by (cases t) (auto simp: rng_def split: if_splits)
next
  case (Suc l)
  have sub: "rng (q, w) \<subseteq> {p ..< p + bsize (Suc l)}"
    using Suc.prems(4,5) by (auto simp: rng_def)
  consider (closed) "closed t" | (top) "\<not> closed t" "w = Suc l" | (down) "\<not> closed t" "w \<le> l"
    using Suc.prems(2) by linarith
  then show ?case
  proof cases
    case closed
    then have "(\<Union>b \<in> blocks (Suc l) p t. rng b) = {p ..< p + bsize (Suc l)}"
      using closed_iff_covered[OF Suc.prems(1)] by blast
    moreover obtain x where "x \<in> rng (q, w)" using rng_ne by blast
    ultimately have "x \<in> (\<Union>b \<in> blocks (Suc l) p t. rng b)" using sub by blast
    then show ?thesis using \<open>x \<in> rng (q, w)\<close> by blast
  next
    case top
    then have "kind t \<noteq> KUnused" using Suc.prems(3) by (auto split: if_splits)
    then obtain b where b: "b \<in> blocks (Suc l) p t"
      using unused_iff_no_block[OF Suc.prems(1), of p] by blast
    have "j = 0" using Suc.prems(4,5) top bsize_pos[of l] by simp
    then have "rng b \<subseteq> rng (q, w)" using rng_subset[OF b] Suc.prems(4) top by (simp add: rng_def)
    then show ?thesis using b rng_ne[of b] by blast
  next
    case down
    then have nc: "\<not> closed t" and ne: "w \<noteq> Suc l" by auto
    obtain nx1 a b where ex: "expand nx t = (nx1, a, b)" by (metis prod_cases3)
    note e = expand_props[OF Suc.prems(1) nc ex]
    obtain ra nx2 a' where ta: "t_alloc w l p nx1 a = (ra, nx2, a')" by (metis prod_cases3)
    obtain rb nx3 b' where tb: "t_alloc w l (p + bsize l) nx2 b = (rb, nx3, b')" by (metis prod_cases3)
    have N: "ra = None" "rb = None"
      using Suc.prems(3) nc ne ex ta tb by (auto split: option.splits)
    have h: "bsize l = 2 ^ (l - w) * bsize w" by (rule bsize_split[OF down(2)])
    show ?thesis
    proof (cases "j < 2 ^ (l - w)")
      case True
      then have "Suc j * bsize w \<le> bsize l" unfolding h by (intro mult_le_mono1) simp
      then have "\<exists>c \<in> blocks l p a. rng c \<inter> rng (q, w) \<noteq> {}"
        using Suc.IH[OF e(1) down(2) ta[unfolded N] Suc.prems(4)] Suc.prems(4) by simp
      then show ?thesis using e(3)[of p] by blast
    next
      case False
      then obtain i where i: "j = 2 ^ (l - w) + i" by (metis le_add_diff_inverse not_less)
      have q: "q = (p + bsize l) + i * bsize w"
        using Suc.prems(4) by (simp add: i h add_mult_distrib)
      have "\<exists>c \<in> blocks l (p + bsize l) b. rng c \<inter> rng (q, w) \<noteq> {}"
        using Suc.IH[OF e(2) down(2) tb[unfolded N] q] Suc.prems(5) by simp
      then show ?thesis using e(3)[of p] by blast
    qed
  qed
qed

section \<open>Where nodes are stored\<close>

lemma root_idx_in [simp]: "root_idx t \<in> set (idxs t)"
  by (cases t) auto

lemma idxs_ne [simp]: "idxs t \<noteq> []"
  by (cases t) auto

text \<open>A tree of level \<open>l\<close> never needs more than \<open>2^(l+1) - 1\<close> nodes.\<close>

lemma nodes_bound: "t_inv l t \<Longrightarrow> Suc (length (idxs t)) \<le> 2 ^ Suc l"
proof (induction l t rule: t_inv.induct)
  case (1 l i k)
  have "(1 :: nat) \<le> 2 ^ l" by simp
  then have "Suc (Suc 0) \<le> 2 * 2 ^ l" by linarith
  then show ?case by simp
qed auto

lemma expand_idxs:
  assumes "expand nx t = (nx1, a, b)"
  shows "nx \<le> nx1"
    and "root_idx t # idxs a @ idxs b =
         (if nx1 = nx then idxs t else root_idx t # [nx, nx + 1])"
    and "length (idxs t) + (nx1 - nx) = Suc (length (idxs a) + length (idxs b))"
    and "set (idxs t) \<union> {nx ..< nx1} = insert (root_idx t) (set (idxs a) \<union> set (idxs b))"
  using assms by (cases t; auto)+

lemma t_alloc_idxs:
  assumes "t_alloc w l p nx t = (r, nx', t')"
  shows "root_idx t' = root_idx t \<and> nx \<le> nx' \<and>
    length (idxs t') = length (idxs t) + (nx' - nx) \<and>
    set (idxs t') = set (idxs t) \<union> {nx ..< nx'}"
  using assms
proof (induction l arbitrary: p nx t r nx' t')
  case 0
  then show ?case by (auto split: if_splits)
next
  case (Suc l)
  show ?case
  proof (cases "closed t \<or> w = Suc l")
    case True
    with Suc.prems show ?thesis by (auto split: if_splits)
  next
    case False
    obtain nx1 a b where ex: "expand nx t = (nx1, a, b)" by (metis prod_cases3)
    obtain ra nx2 a' where ta: "t_alloc w l p nx1 a = (ra, nx2, a')" by (metis prod_cases3)
    obtain rb nx3 b' where tb: "t_alloc w l (p + bsize l) nx2 b = (rb, nx3, b')" by (metis prod_cases3)
    note x = expand_idxs[OF ex] and ia = Suc.IH[OF ta] and ib = Suc.IH[OF tb]
    have seg: "{nx ..< nx1} \<union> {nx1 ..< nx2} = {nx ..< nx2}" "{nx ..< nx2} \<union> {nx2 ..< nx3} = {nx ..< nx3}"
      using x(1) ia ib by (simp_all add: ivl_disj_un)
    show ?thesis
    proof (cases ra)
      case (Some q)
      then have t': "nx' = nx2" "t' = Br (root_idx t) (join_kind a' b) a' b"
        using Suc.prems False ex ta by auto
      have "insert (root_idx t) (set (idxs a) \<union> {nx1 ..< nx2} \<union> set (idxs b)) = set (idxs t) \<union> {nx ..< nx2}"
        using x(4) seg(1) by (metis Un_assoc Un_commute insert_def)
      then show ?thesis using t' x(1,3) ia by (clarsimp, linarith)
    next
      case None
      obtain k where t': "nx' = nx3" "t' = Br (root_idx t) k a' b'"
        using Suc.prems False ex ta None tb by (auto split: option.splits)
      have "insert (root_idx t) (set (idxs a) \<union> {nx1 ..< nx2} \<union> (set (idxs b) \<union> {nx2 ..< nx3})) =
          set (idxs t) \<union> {nx ..< nx3}"
        using x(4) seg by (auto simp flip: seg)
      then show ?thesis using t' x(1,3) ia ib by (clarsimp, linarith)
    qed
  qed
qed

section \<open>Deallocation and block size\<close>

text \<open>What freeing the address \<open>x\<close> does: the block holding \<open>x\<close> goes, or nothing changes.\<close>

definition dealloc_post :: "nat \<Rightarrow> nat \<Rightarrow> nat \<Rightarrow> btree \<Rightarrow> bool \<Rightarrow> btree \<Rightarrow> bool" where
  "dealloc_post l p x t r t' \<longleftrightarrow> t_inv l t' \<and> idxs t' = idxs t \<and> root_idx t' = root_idx t \<and>
     (if r then \<not> closed t' \<and>
        (\<exists>b \<in> blocks l p t. x \<in> rng b \<and> blocks l p t' = blocks l p t - {b})
      else t' = t \<and> (\<forall>b \<in> blocks l p t. x \<notin> rng b))"

lemma t_inv_free_kind:
  assumes "t_inv l a" "t_inv l b" "\<not> (closed a \<and> closed b)"
  shows "t_inv (Suc l) (Br i (free_kind a b) a b)"
    and "blocks (Suc l) p (Br i (free_kind a b) a b) = blocks l p a \<union> blocks l (p + bsize l) b"
    and "\<not> closed (Br i (free_kind a b) a b)"
  using assms unused_iff_no_block[of l a p] unused_iff_no_block[of l b "p + bsize l"]
  by (auto simp: free_kind_def)

lemma blocks_halves:
  assumes "t_inv (Suc l) (Br i k a b)" "k \<noteq> KLeaf"
  shows "blocks (Suc l) p (Br i k a b) = blocks l p a \<union> blocks l (p + bsize l) b"
  using assms unused_iff_no_block[of l a p] unused_iff_no_block[of l b "p + bsize l"]
  by (auto split: nkind.splits)

lemma half_blocks_apart:
  assumes "c \<in> blocks l p a" "d \<in> blocks l (p + bsize l) b"
  shows "rng c \<inter> rng d = {}"
  using rng_subset[OF assms(1)] rng_subset[OF assms(2)] by fastforce

lemma t_dealloc_post:
  assumes "t_inv l t" "p \<le> x" "x < p + bsize l" "t_dealloc l p x t = (r, t')"
  shows "dealloc_post l p x t r t'"
  using assms
proof (induction l p x t arbitrary: r t' rule: t_dealloc.induct)
  case (1 l p x i k)
  then show ?case by (auto simp: dealloc_post_def rng_def split: if_splits)
next
  case (2 p x i k a b)
  then show ?case by simp
next
  case (3 l p x i k a b)
  show ?case
  proof (cases "k = KLeaf")
    case True
    with "3.prems" show ?thesis by (auto simp: dealloc_post_def rng_def)
  next
    case nl: False
    note bl = blocks_halves[OF "3.prems"(1) nl, of p]
    have ia: "t_inv l a" "t_inv l b" using "3.prems"(1) by auto
    show ?thesis
    proof (cases "x < p + bsize l")
      case left: True
      obtain ra a' where ta: "t_dealloc l p x a = (ra, a')" by fastforce
      have pa: "dealloc_post l p x a ra a'"
        by (rule "3.IH"(1)[OF nl left ia(1) "3.prems"(2) left ta])
      have nb: "x \<notin> rng d" if "d \<in> blocks l (p + bsize l) b" for d
        using rng_subset[OF that] left by auto
      show ?thesis
      proof (cases ra)
        case True
        obtain c where c: "c \<in> blocks l p a" "x \<in> rng c" "blocks l p a' = blocks l p a - {c}"
          and a': "t_inv l a'" "\<not> closed a'" "idxs a' = idxs a"
          using pa True by (auto simp: dealloc_post_def)
        have "c \<notin> blocks l (p + bsize l) b" using nb c(2) by blast
        then have b': "blocks l p a' \<union> blocks l (p + bsize l) b =
            blocks (Suc l) p (Br i k a b) - {c}" using bl c(3) by blast
        have t': "r = True" "t' = Br i (free_kind a' b) a' b"
          using "3.prems"(4) nl left ta True by auto
        note f = t_inv_free_kind(1,3)[OF a'(1) ia(2), where i = i]
          t_inv_free_kind(2)[OF a'(1) ia(2), where i = i and p = p]
        show ?thesis
          unfolding dealloc_post_def t' using f a' c(1,2) b' bl by auto
      next
        case False
        then show ?thesis
          using "3.prems" nl left ta pa nb bl by (auto simp: dealloc_post_def)
      qed
    next
      case right: False
      obtain rb b' where tb: "t_dealloc l (p + bsize l) x b = (rb, b')" by fastforce
      have pb: "dealloc_post l (p + bsize l) x b rb b'"
        by (rule "3.IH"(2)[OF nl right ia(2) _ _ tb]) (use right "3.prems"(3) in auto)
      have na: "x \<notin> rng d" if "d \<in> blocks l p a" for d
        using rng_subset[OF that] right by auto
      show ?thesis
      proof (cases rb)
        case True
        obtain c where c: "c \<in> blocks l (p + bsize l) b" "x \<in> rng c"
            "blocks l (p + bsize l) b' = blocks l (p + bsize l) b - {c}"
          and b': "t_inv l b'" "\<not> closed b'" "idxs b' = idxs b"
          using pb True by (auto simp: dealloc_post_def)
        have "c \<notin> blocks l p a" using na c(2) by blast
        then have bs: "blocks l p a \<union> blocks l (p + bsize l) b' =
            blocks (Suc l) p (Br i k a b) - {c}" using bl c(3) by blast
        have t': "r = True" "t' = Br i (free_kind a b') a b'"
          using "3.prems"(4) nl right tb True by auto
        note f = t_inv_free_kind(1,3)[OF ia(1) b'(1), where i = i]
          t_inv_free_kind(2)[OF ia(1) b'(1), where i = i and p = p]
        show ?thesis
          unfolding dealloc_post_def t' using f b' c(1,2) bs bl by auto
      next
        case False
        then show ?thesis
          using "3.prems" nl right tb pb na bl by (auto simp: dealloc_post_def)
      qed
    qed
  qed
qed

lemma t_size_block:
  assumes "t_inv l t" "(q, m) \<in> blocks l p t" "x \<in> rng (q, m)"
  shows "t_size l p x t = bsize m"
  using assms
proof (induction l p x t rule: t_size.induct)
  case (3 l p x i k a b)
  show ?case
  proof (cases "k = KLeaf")
    case True
    with "3.prems" show ?thesis by auto
  next
    case nl: False
    note bl = blocks_halves[OF "3.prems"(1) nl, of p]
    have ia: "t_inv l a" "t_inv l b" using "3.prems"(1) by auto
    from "3.prems"(2) bl consider (a) "(q, m) \<in> blocks l p a" | (b) "(q, m) \<in> blocks l (p + bsize l) b"
      by blast
    then show ?thesis
    proof cases
      case a
      then have "x < p + bsize l" using rng_subset[OF a] "3.prems"(3) by auto
      then show ?thesis using "3.IH"(1)[OF nl _ ia(1) a "3.prems"(3)] nl by simp
    next
      case b
      then have "\<not> x < p + bsize l" using rng_subset[OF b] "3.prems"(3) by auto
      then show ?thesis using "3.IH"(2)[OF nl _ ia(2) b "3.prems"(3)] nl by simp
    qed
  qed
qed (auto split: if_splits)

end
