(* ===== verification/Buddy_Refinement.thy ===== *)
theory Buddy_Refinement
  imports Buddy_Tree
begin

text \<open>
  The array of nodes implements the tree: a representation predicate between the two, and one
  simulation lemma per operation.  They show at the same time that the array accesses stay in
  bounds, that no null pointer is followed and that the recursion ends within the fuel given.
\<close>

section \<open>How a node encodes its kind\<close>

primrec kbits :: "nkind \<Rightarrow> u64" where
  "kbits KUnused = 0x0000000000000000"
| "kbits KLeaf = 0x4000000000000000"
| "kbits KParent = 0x8000000000000000"
| "kbits KFull = 0xC000000000000000"

definition node_ok :: "node_t \<Rightarrow> nkind \<Rightarrow> nat \<Rightarrow> nat \<Rightarrow> bool" where
  "node_ok n k l p \<longleftrightarrow> node_ptr n = of_nat p \<and> node_size n = kbits k OR of_nat (bsize l)"

definition put_kind :: "nkind \<Rightarrow> node_t \<Rightarrow> node_t" where
  "put_kind k n = n\<lparr>node_size := set_bits (node_size n) 0xC000000000000000 (kbits k)\<rparr>"

lemma set_kinds_put_kind:
  "set_unused = put_kind KUnused" "set_leaf = put_kind KLeaf"
  "set_parent = put_kind KParent" "set_full = put_kind KFull"
  by (simp_all add: fun_eq_iff put_kind_def set_unused_def set_leaf_def set_parent_def set_full_def)

lemma bit_C0: "bit (0xC000000000000000 :: u64) n \<longleftrightarrow> n = 62 \<or> n = 63"
proof -
  have "(0xC000000000000000 :: u64) = 2 ^ 62 OR 2 ^ 63" by simp
  then show ?thesis by (simp only: bit_or_iff bit_exp_u64) auto
qed

lemma bit_0F: "bit (0x0FFFFFFFFFFFFFFF :: u64) n \<longleftrightarrow> n < 60"
proof -
  have "(0x0FFFFFFFFFFFFFFF :: u64) = mask 60" by (simp add: mask_eq_exp_minus_1)
  then show ?thesis by (simp only: bit_mask_iff) auto
qed

lemma bit_kbits_lo: "n < 62 \<Longrightarrow> \<not> bit (kbits k) n"
proof -
  have "(0x4000000000000000 :: u64) = 2 ^ 62" "(0x8000000000000000 :: u64) = 2 ^ 63" by simp_all
  then show "n < 62 \<Longrightarrow> \<not> bit (kbits k) n"
    by (cases k) (simp_all only: kbits.simps bit_0_eq bot_apply bit_C0 bit_exp_u64, auto)
qed

lemma bit_of_nat_bsize: "l < 48 \<Longrightarrow> bit (of_nat (bsize l) :: u64) n \<longleftrightarrow> n = l + 12"
  by (simp add: bsize_def bit_exp_u64) (auto)

lemma kbits_inj: "kbits k = kbits k' \<longleftrightarrow> k = k'"
  by (cases k; cases k') simp_all

lemma node_kind_bits:
  assumes "node_ok n k l p" "l < 48"
  shows "get_bits (node_size n) 0xC000000000000000 = kbits k"
proof (rule u64_eqI)
  fix i :: nat assume "i < 64"
  show "bit (get_bits (node_size n) 0xC000000000000000) i = bit (kbits k) i"
  proof (cases "i < 62")
    case True
    then show ?thesis by (auto simp: bit_C0 bit_kbits_lo simp del: bit_numeral_word_iff)
  next
    case False
    with \<open>i < 64\<close> assms show ?thesis
      by (auto simp: bit_C0 node_ok_def bit_or_iff bit_of_nat_bsize simp del: bit_numeral_word_iff)
  qed
qed

lemma node_kinds [simp]:
  assumes "node_ok n k l p" "l < 48"
  shows "is_unused n \<longleftrightarrow> k = KUnused" "is_leaf n \<longleftrightarrow> k = KLeaf"
    "is_parent n \<longleftrightarrow> k = KParent" "is_full n \<longleftrightarrow> k = KFull"
  using node_kind_bits[OF assms] kbits_inj[of k KUnused] kbits_inj[of k KLeaf]
    kbits_inj[of k KParent] kbits_inj[of k KFull]
  by (simp_all add: is_unused_def is_leaf_def is_parent_def is_full_def)

lemma node_get_size [simp]:
  assumes "node_ok n k l p" "l < 48"
  shows "get_size n = of_nat (bsize l)"
proof (rule u64_eqI)
  fix i :: nat
  show "bit (get_size n) i = bit (of_nat (bsize l) :: u64) i"
    using assms bit_kbits_lo[of i k]
    by (auto simp: get_size_def bit_0F node_ok_def bit_or_iff bit_of_nat_bsize
      simp del: bit_numeral_word_iff)
qed

lemma node_ok_put_kind:
  assumes "node_ok n k l p" "l < 48"
  shows "node_ok (put_kind k' n) k' l p"
proof -
  have "set_bits (node_size n) 0xC000000000000000 (kbits k') = kbits k' OR of_nat (bsize l)"
  proof (rule u64_eqI)
    fix i :: nat assume "i < 64"
    then show "bit (set_bits (node_size n) 0xC000000000000000 (kbits k')) i =
        bit (kbits k' OR of_nat (bsize l)) i"
      using assms bit_kbits_lo[of i k'] bit_kbits_lo[of i k]
      by (cases "i < 62")
        (auto simp: bit_C0 node_ok_def bit_or_iff bit_of_nat_bsize simp del: bit_numeral_word_iff)
  qed
  then show ?thesis using assms by (simp add: node_ok_def put_kind_def)
qed

lemma put_kind_fields [simp]:
  "child0 (put_kind k n) = child0 n" "child1 (put_kind k n) = child1 n"
  "node_ptr (put_kind k n) = node_ptr n"
  by (simp_all add: put_kind_def)

section \<open>The representation predicate\<close>

fun rep :: "node_t list \<Rightarrow> nat \<Rightarrow> nat \<Rightarrow> btree \<Rightarrow> bool" where
  "rep ns l p (Tip i k) \<longleftrightarrow> i < length ns \<and> node_ok (ns ! i) k l p \<and>
     child0 (ns ! i) = None \<and> child1 (ns ! i) = None"
| "rep ns 0 p (Br i k a b) \<longleftrightarrow> False"
| "rep ns (Suc l) p (Br i k a b) \<longleftrightarrow> i < length ns \<and> node_ok (ns ! i) k (Suc l) p \<and>
     child0 (ns ! i) = Some (root_idx a) \<and> child1 (ns ! i) = Some (root_idx b) \<and>
     rep ns l p a \<and> rep ns l (p + bsize l) b"

lemma rep_root:
  assumes "rep ns l p t"
  shows "root_idx t < length ns" "node_ok (ns ! root_idx t) (kind t) l p"
  using assms by (cases "(ns, l, p, t)" rule: rep.cases; simp)+

lemma rep_frame:
  "rep ns l p t \<Longrightarrow> length ns' = length ns \<Longrightarrow> (\<And>j. j \<in> set (idxs t) \<Longrightarrow> ns' ! j = ns ! j) \<Longrightarrow>
   rep ns' l p t"
  by (induction ns l p t rule: rep.induct) auto

lemma rep_put_kind:
  assumes "rep ns l p t" "distinct (idxs t)" "l < 48"
  shows "rep (ns[root_idx t := put_kind k (ns ! root_idx t)]) l p (set_kind k t)"
proof (cases "(ns, l, p, t)" rule: rep.cases)
  case (1 ns' l' p' i k')
  with assms show ?thesis by (auto intro: node_ok_put_kind)
next
  case (2 ns' p' i k' a b)
  with assms show ?thesis by simp
next
  case (3 ns' l' p' i k' a b)
  let ?ns = "ns[i := put_kind k (ns ! i)]"
  have "rep ?ns l' p a" "rep ?ns l' (p + bsize l') b"
    using assms 3 by (auto intro!: rep_frame[of ns] nth_list_update_neq)
  with assms 3 show ?thesis by (auto intro: node_ok_put_kind)
qed

definition fresh :: "buddy_allocator \<Rightarrow> bool" where
  "fresh s \<longleftrightarrow> (\<forall>j. m_node_index s \<le> j \<longrightarrow> j < length (m_nodes s) \<longrightarrow>
     child0 (m_nodes s ! j) = None \<and> child1 (m_nodes s ! j) = None)"

text \<open>The subtree \<open>t\<close> is stored in \<open>s\<close>.\<close>

definition holds :: "buddy_allocator \<Rightarrow> nat \<Rightarrow> nat \<Rightarrow> btree \<Rightarrow> bool" where
  "holds s l p t \<longleftrightarrow> rep (m_nodes s) l p t \<and> distinct (idxs t) \<and>
     (\<forall>j \<in> set (idxs t). j < m_node_index s) \<and> fresh s"

text \<open>From \<open>s\<close> to \<open>s'\<close> only nodes of \<open>I\<close> and newly taken nodes changed.\<close>

definition changes :: "nat set \<Rightarrow> buddy_allocator \<Rightarrow> buddy_allocator \<Rightarrow> bool" where
  "changes I s s' \<longleftrightarrow> m_buffer s' = m_buffer s \<and> m_buffer_size s' = m_buffer_size s \<and>
     m_root s' = m_root s \<and> length (m_nodes s') = length (m_nodes s) \<and>
     m_node_index s \<le> m_node_index s' \<and>
     (\<forall>j < m_node_index s. j \<notin> I \<longrightarrow> m_nodes s' ! j = m_nodes s ! j)"

lemma changes_refl [simp]: "changes I s s"
  by (simp add: changes_def)

lemma changes_trans:
  "changes I s s1 \<Longrightarrow> changes J s1 s2 \<Longrightarrow> J \<subseteq> K \<union> {m_node_index s ..} \<Longrightarrow> I \<subseteq> K \<Longrightarrow> changes K s s2"
  unfolding changes_def by (auto simp: subset_iff) (metis less_le_trans not_le)

lemma changes_mono: "changes I s s' \<Longrightarrow> I \<subseteq> J \<Longrightarrow> changes J s s'"
  unfolding changes_def by auto

lemma holds_frame:
  assumes "holds s l p t" "changes I s s'" "set (idxs t) \<inter> I = {}" "fresh s'"
  shows "holds s' l p t"
proof -
  have "m_nodes s' ! j = m_nodes s ! j" if "j \<in> set (idxs t)" for j
    using assms that by (auto simp: changes_def holds_def)
  then show ?thesis
    using assms by (auto simp: holds_def changes_def intro: rep_frame)
qed

lemma holds_root:
  assumes "holds s l p t"
  shows "root_idx t < length (m_nodes s)" "node_ok (m_nodes s ! root_idx t) (kind t) l p"
  using assms rep_root by (auto simp: holds_def)

lemma holds_children:
  assumes "holds s (Suc l) p (Br i k a b)"
  shows "holds s l p a" "holds s l (p + bsize l) b"
  using assms by (auto simp: holds_def)

lemma node_at_holds [simp]:
  "holds s l p t \<Longrightarrow> node_at (root_idx t) s = (Inr (m_nodes s ! root_idx t), s)"
  by (simp add: node_at_def holds_root)

lemma update_node_kind:
  assumes "holds s l p t" "l < 48"
  shows "\<exists>s'. update_node (root_idx t) (put_kind k) s = (Inr (), s') \<and>
     changes {root_idx t} s s' \<and> m_node_index s' = m_node_index s \<and> holds s' l p (set_kind k t)"
proof -
  let ?s = "s\<lparr>m_nodes := (m_nodes s)[root_idx t := put_kind k (m_nodes s ! root_idx t)]\<rparr>"
  have "fresh ?s" using assms holds_root[OF assms(1)]
    by (auto simp: fresh_def holds_def nth_list_update)
  moreover have "update_node (root_idx t) (put_kind k) s = (Inr (), ?s)"
    using holds_root[OF assms(1)] by (simp add: update_node_def)
  ultimately show ?thesis
    using assms by (intro exI[of _ ?s]) (auto simp: holds_def changes_def intro: rep_put_kind)
qed

lemma with_children_holds:
  assumes "holds s (Suc l) p (Br i k a b)"
  shows "with_children i f s = f (m_nodes s ! root_idx a) (m_nodes s ! root_idx b) s"
proof -
  have "node_at i s = (Inr (m_nodes s ! i), s)" using node_at_holds[OF assms] by simp
  moreover have "child0 (m_nodes s ! i) = Some (root_idx a)" "child1 (m_nodes s ! i) = Some (root_idx b)"
    using assms by (auto simp: holds_def)
  ultimately show ?thesis
    using node_at_holds[OF holds_children(1)[OF assms]] node_at_holds[OF holds_children(2)[OF assms]]
    by (simp add: with_children_def bindE_def deref_def)
qed

section \<open>Taking two new nodes\<close>

lemma drop_bit_bsize: "Suc l < 48 \<Longrightarrow> drop_bit 1 (of_nat (bsize (Suc l)) :: u64) = of_nat (bsize l)"
  by (rule u64_eqI) (simp only: bit_drop_bit_eq comp_def bit_of_nat_bsize, auto)

lemma get_nodes_run:
  assumes i: "i < m_node_index s" and len: "m_node_index s + 1 < length (m_nodes s)"
  defines "nx \<equiv> m_node_index s" and "ns \<equiv> m_nodes s"
  defines "h \<equiv> drop_bit 1 (get_size (m_nodes s ! i))"
  shows "get_nodes i s = (Inr (), s\<lparr>m_nodes := ns
       [nx := (ns ! nx)\<lparr>node_size := h, node_ptr := node_ptr (ns ! i)\<rparr>,
        nx + 1 := (ns ! (nx + 1))\<lparr>node_size := h, node_ptr := node_ptr (ns ! i) + h\<rparr>,
        i := (ns ! i)\<lparr>child0 := Some nx, child1 := Some (nx + 1)\<rparr>],
      m_node_index := nx + 2\<rparr>)"
proof -
  have "get_nodes i s = (Inr (), s\<lparr>m_nodes := m_nodes (snd (get_nodes i s)), m_node_index := nx + 2\<rparr>)
    \<and> m_nodes (snd (get_nodes i s)) = ns
       [nx := (ns ! nx)\<lparr>node_size := h, node_ptr := node_ptr (ns ! i)\<rparr>,
        nx + 1 := (ns ! (nx + 1))\<lparr>node_size := h, node_ptr := node_ptr (ns ! i) + h\<rparr>,
        i := (ns ! i)\<lparr>child0 := Some nx, child1 := Some (nx + 1)\<rparr>]"
    using i len unfolding nx_def ns_def h_def
    by (simp add: get_nodes_def next_node_def node_at_def update_node_def bindE_def seqE_def)
      (intro nth_equalityI; simp add: nth_list_update)
  then show ?thesis by metis
qed

lemma expand_run:
  assumes "holds s (Suc l) p t" "Suc l < 48" "expand (m_node_index s) t = (nx1, a, b)"
    and "nx1 \<le> length (m_nodes s)"
  shows "\<exists>s1. (if child0 (m_nodes s ! root_idx t) = None then get_nodes (root_idx t) else returnE ()) s
      = (Inr (), s1) \<and> changes {root_idx t} s s1 \<and> m_node_index s1 = nx1 \<and>
      holds s1 (Suc l) p (Br (root_idx t) (kind t) a b)"
proof (cases t)
  case (Br i k t1 t2)
  with assms show ?thesis by (auto simp: holds_def)
next
  case (Tip i k)
  let ?nx = "m_node_index s" and ?ns = "m_nodes s"
  have ab: "nx1 = ?nx + 2" "a = Tip ?nx KUnused" "b = Tip (?nx + 1) KUnused"
    using assms(3) Tip by auto
  have h: "i < ?nx" "node_ok (?ns ! i) k (Suc l) p" "child0 (?ns ! i) = None" "fresh s" "i < length ?ns"
    using assms(1) Tip by (auto simp: holds_def)
  define h where "h = (of_nat (bsize l) :: u64)"
  have hh: "drop_bit 1 (get_size (?ns ! i)) = h"
    using node_get_size[OF h(2) assms(2)] drop_bit_bsize[OF assms(2)] by (simp add: h_def)
  let ?ns' = "?ns[?nx := (?ns ! ?nx)\<lparr>node_size := h, node_ptr := node_ptr (?ns ! i)\<rparr>,
        ?nx + 1 := (?ns ! (?nx + 1))\<lparr>node_size := h, node_ptr := node_ptr (?ns ! i) + h\<rparr>,
        i := (?ns ! i)\<lparr>child0 := Some ?nx, child1 := Some (?nx + 1)\<rparr>]"
  let ?s1 = "s\<lparr>m_nodes := ?ns', m_node_index := ?nx + 2\<rparr>"
  have run: "get_nodes i s = (Inr (), ?s1)"
    using get_nodes_run[of i s] h(1) assms(4) ab(1) hh by simp
  have len: "?nx + 1 < length ?ns" using assms(4) ab(1) by simp
  have ns': "?ns' ! i = (?ns ! i)\<lparr>child0 := Some ?nx, child1 := Some (?nx + 1)\<rparr>"
    "?ns' ! ?nx = (?ns ! ?nx)\<lparr>node_size := h, node_ptr := node_ptr (?ns ! i)\<rparr>"
    "?ns' ! (?nx + 1) = (?ns ! (?nx + 1))\<lparr>node_size := h, node_ptr := node_ptr (?ns ! i) + h\<rparr>"
    using h(1,5) len by (simp_all add: nth_list_update)
  have z: "child0 (?ns ! ?nx) = None" "child1 (?ns ! ?nx) = None"
      "child0 (?ns ! (?nx + 1)) = None" "child1 (?ns ! (?nx + 1)) = None"
    using h(4) len by (auto simp: fresh_def)
  have "rep ?ns' (Suc l) p (Br i k a b)"
    using h(2,5) len z unfolding rep.simps ab root_idx.simps ns'
    by (simp add: node_ok_def h_def)
  moreover have "fresh ?s1" using h(4) h(1) by (auto simp: fresh_def nth_list_update)
  ultimately have "holds ?s1 (Suc l) p (Br i k a b)" using h(1) ab by (auto simp: holds_def)
  moreover have "changes {i} s ?s1" using h(1) by (auto simp: changes_def nth_list_update)
  ultimately show ?thesis using run h(3) Tip ab(1) by auto
qed

section \<open>Marking the parent after a successful allocation\<close>

text \<open>The address an allocation returns, null when it failed.\<close>

definition enc :: "nat option \<Rightarrow> u64" where
  "enc r = (case r of None \<Rightarrow> 0 | Some q \<Rightarrow> of_nat q)"

lemma mark_parent:
  assumes "holds s (Suc l) p (Br i k a b)" "Suc l < 48"
  shows "\<exists>s'. seqE (update_node i set_parent)
            (seqE (with_children i (\<lambda>c0 c1. if is_leaf c0 \<and> is_leaf c1
                     then update_node i set_full else returnE ()))
            (seqE (with_children i (\<lambda>c0 c1. if is_leaf c0 \<and> is_full c1
                     then update_node i set_full else returnE ()))
            (seqE (with_children i (\<lambda>c0 c1. if is_full c0 \<and> is_leaf c1
                     then update_node i set_full else returnE ()))
            (seqE (with_children i (\<lambda>c0 c1. if is_full c0 \<and> is_full c1
                     then update_node i set_full else returnE ()))
                  (returnE ptr))))) s = (Inr ptr, s') \<and>
      changes {i} s s' \<and> m_node_index s' = m_node_index s \<and>
      holds s' (Suc l) p (Br i (join_kind a b) a b)"
proof -
  obtain s1 where s1: "update_node i (put_kind KParent) s = (Inr (), s1)" "changes {i} s s1"
      "m_node_index s1 = m_node_index s" "holds s1 (Suc l) p (Br i KParent a b)"
    using update_node_kind[OF assms, of KParent] by auto
  obtain s2 where s2: "update_node i (put_kind KFull) s1 = (Inr (), s2)" "changes {i} s1 s2"
      "m_node_index s2 = m_node_index s1" "holds s2 (Suc l) p (Br i KFull a b)"
    using update_node_kind[OF s1(4) assms(2), of KFull] by auto
  have l: "l < 48" using assms(2) by simp
  note k1 = node_kinds[OF holds_root(2)[OF holds_children(1)[OF s1(4)]] l]
    node_kinds[OF holds_root(2)[OF holds_children(2)[OF s1(4)]] l]
  note k2 = node_kinds[OF holds_root(2)[OF holds_children(1)[OF s2(4)]] l]
    node_kinds[OF holds_root(2)[OF holds_children(2)[OF s2(4)]] l]
  note w = with_children_holds[OF s1(4)] with_children_holds[OF s2(4)]
  show ?thesis
  proof (cases "closed a \<and> closed b")
    case True
    then have "changes {i} s s2" using changes_trans[OF s1(2) s2(2), of "{i}"] by simp
    with True s1 s2 show ?thesis
      by (intro exI[of _ s2])
        (auto simp: set_kinds_put_kind seqE_def bindE_def w k1 k2 closed_def join_kind_def)
  next
    case False
    with s1 show ?thesis
      by (intro exI[of _ s1])
        (auto simp: set_kinds_put_kind seqE_def bindE_def w k1 closed_def join_kind_def)
  qed
qed

lemma holds_swap_left:
  assumes "holds s1 (Suc l) p (Br i k a b)" "changes (set (idxs a)) s1 s2" "holds s2 l p a'"
    and "root_idx a' = root_idx a" "set (idxs a') \<subseteq> set (idxs a) \<union> {m_node_index s1 ..}"
  shows "holds s2 (Suc l) p (Br i k a' b)"
proof -
  have d: "distinct (i # idxs a @ idxs b)" "\<forall>j \<in> set (i # idxs a @ idxs b). j < m_node_index s1"
    using assms(1) by (auto simp: holds_def)
  have b: "holds s2 l (p + bsize l) b"
    by (rule holds_frame[OF holds_children(2)[OF assms(1)] assms(2)])
      (use d assms(3) in \<open>auto simp: holds_def\<close>)
  have "m_nodes s2 ! i = m_nodes s1 ! i" using d assms(2) by (auto simp: changes_def)
  moreover have "distinct (i # idxs a' @ idxs b)"
  proof -
    have "j \<notin> set (idxs a')" if "j = i \<or> j \<in> set (idxs b)" for j
    proof -
      have "j \<notin> set (idxs a)" "j < m_node_index s1" using d that by auto
      then show ?thesis using assms(5) by (auto dest: subsetD)
    qed
    then show ?thesis using d assms(3) by (auto simp: holds_def)
  qed
  moreover have "\<forall>j \<in> set (i # idxs a' @ idxs b). j < m_node_index s2"
  proof -
    have "m_node_index s1 \<le> m_node_index s2" using assms(2) by (simp add: changes_def)
    moreover have "i < m_node_index s1" "\<forall>j \<in> set (idxs b). j < m_node_index s2"
      using d b by (auto simp: holds_def)
    ultimately show ?thesis using assms(3) by (auto simp: holds_def)
  qed
  moreover have "i < length (m_nodes s2)" "node_ok (m_nodes s1 ! i) k (Suc l) p"
      "child0 (m_nodes s1 ! i) = Some (root_idx a')" "child1 (m_nodes s1 ! i) = Some (root_idx b)"
    using assms(1,2,4) by (auto simp: holds_def changes_def)
  moreover have "rep (m_nodes s2) l p a'" "rep (m_nodes s2) l (p + bsize l) b" "fresh s2"
    using assms(3) b by (auto simp: holds_def)
  ultimately show ?thesis unfolding holds_def rep.simps idxs.simps by simp
qed

lemma holds_swap_right:
  assumes "holds s1 (Suc l) p (Br i k a b)" "changes (set (idxs b)) s1 s2"
    and "holds s2 l (p + bsize l) b'"
    and "root_idx b' = root_idx b" "set (idxs b') \<subseteq> set (idxs b) \<union> {m_node_index s1 ..}"
  shows "holds s2 (Suc l) p (Br i k a b')"
proof -
  have d: "distinct (i # idxs a @ idxs b)" "\<forall>j \<in> set (i # idxs a @ idxs b). j < m_node_index s1"
    using assms(1) by (auto simp: holds_def)
  have a: "holds s2 l p a"
    by (rule holds_frame[OF holds_children(1)[OF assms(1)] assms(2)])
      (use d assms(3) in \<open>auto simp: holds_def\<close>)
  have "m_nodes s2 ! i = m_nodes s1 ! i" using d assms(2) by (auto simp: changes_def)
  moreover have "distinct (i # idxs a @ idxs b')"
  proof -
    have "j \<notin> set (idxs b')" if "j = i \<or> j \<in> set (idxs a)" for j
    proof -
      have "j \<notin> set (idxs b)" "j < m_node_index s1" using d that by auto
      then show ?thesis using assms(5) by (auto dest: subsetD)
    qed
    then show ?thesis using d assms(3) by (auto simp: holds_def)
  qed
  moreover have "\<forall>j \<in> set (i # idxs a @ idxs b'). j < m_node_index s2"
  proof -
    have "m_node_index s1 \<le> m_node_index s2" using assms(2) by (simp add: changes_def)
    moreover have "i < m_node_index s1" "\<forall>j \<in> set (idxs a). j < m_node_index s2"
      using d a by (auto simp: holds_def)
    ultimately show ?thesis using assms(3) by (auto simp: holds_def)
  qed
  moreover have "i < length (m_nodes s2)" "node_ok (m_nodes s1 ! i) k (Suc l) p"
      "child0 (m_nodes s1 ! i) = Some (root_idx a)" "child1 (m_nodes s1 ! i) = Some (root_idx b')"
    using assms(1,2,4) by (auto simp: holds_def changes_def)
  moreover have "rep (m_nodes s2) l p a" "rep (m_nodes s2) l (p + bsize l) b'" "fresh s2"
    using assms(3) a by (auto simp: holds_def)
  ultimately show ?thesis unfolding holds_def rep.simps idxs.simps by simp
qed

section \<open>Allocation\<close>

lemma next_sim:
  assumes "alloc sz (Some i) c s1 = (Inr (enc ra), s2)" "holds s2 (Suc l) p (Br i k a b)" "Suc l < 48"
    and "ra \<noteq> None \<longrightarrow> enc ra \<noteq> 0"
  shows "\<exists>s3. private_allocate_next alloc sz (Some i) c s1 = (Inr (enc ra), s3) \<and>
     changes {i} s2 s3 \<and> m_node_index s3 = m_node_index s2 \<and>
     holds s3 (Suc l) p (Br i (if ra = None then k else join_kind a b) a b)"
proof (cases ra)
  case None
  with assms show ?thesis by (auto simp: private_allocate_next_def bindE_def enc_def)
next
  case (Some q)
  with mark_parent[OF assms(2,3), of "enc ra"] assms(1,4) show ?thesis
    by (auto simp: private_allocate_next_def bindE_def)
qed

lemma bsize_less: "l < 48 \<Longrightarrow> bsize l < 2 ^ 64"
  unfolding bsize_def by (rule power_strict_increasing) auto

lemma of_nat_bsize_eq: "l < 48 \<Longrightarrow> w \<le> l \<Longrightarrow> (of_nat (bsize w) :: u64) = of_nat (bsize l) \<longleftrightarrow> w = l"
proof -
  assume "l < 48" "w \<le> l"
  then have "bsize l < 2 ^ 64" "bsize w < 2 ^ 64" using bsize_less[of l] bsize_less[of w] by simp_all
  then show ?thesis by (simp add: of_nat_u64_inject bsize_inj)
qed

lemma t_alloc_blocked:
  "closed t \<or> (w = l \<and> kind t \<noteq> KUnused) \<Longrightarrow> t_alloc w l p nx t = (None, nx, t)"
  by (cases l) auto

lemma enc_nonzero:
  assumes "t_inv l t" "w \<le> l" "t_alloc w l p nx t = (r, nx', t')" "0 < p" "p + bsize l \<le> 2 ^ 64"
  shows "r \<noteq> None \<longrightarrow> enc r \<noteq> 0"
proof (cases r)
  case (Some q)
  then have "p \<le> q" "q + bsize w \<le> p + bsize l"
    using t_alloc_post[OF assms(1-3)] by (auto simp: alloc_post_def)
  then have "0 < q" "q < 2 ^ 64" using assms(4,5) bsize_pos[of w] by linarith+
  then show ?thesis using Some of_nat_u64_inject[of q 0] by (simp add: enc_def)
qed simp

definition try_child ::
  "(u64 \<Rightarrow> nat option \<Rightarrow> nat \<Rightarrow> (buddy_allocator, u64) op) \<Rightarrow> u64 \<Rightarrow> nat \<Rightarrow> nat \<Rightarrow> node_t
   \<Rightarrow> (buddy_allocator, u64) op" where
  "try_child alloc sz i c n =
     (if sz = get_size n then
        (if is_unused n then private_allocate_next alloc sz (Some i) c else returnE 0)
      else
        (if \<not> is_full n \<and> \<not> is_leaf n then private_allocate_next alloc sz (Some i) c else returnE 0))"

lemma try_child_guard:
  assumes "node_ok n (kind t) l p" "l < 48" "w \<le> l"
  shows "try_child alloc (of_nat (bsize w)) i c n =
     (if closed t \<or> (w = l \<and> kind t \<noteq> KUnused) then returnE 0
      else private_allocate_next alloc (of_nat (bsize w)) (Some i) c)"
  using assms of_nat_bsize_eq[OF assms(2,3)] node_kinds[OF assms(1,2)]
  by (auto simp: try_child_def closed_def)

lemma try_left:
  assumes H: "holds s1 (Suc l) p (Br i k a b)" "t_inv l a" "Suc l < 48" "w \<le> l"
    and P: "0 < p" "p + bsize l \<le> 2 ^ 64"
    and ta: "t_alloc w l p (m_node_index s1) a = (ra, nx2, a')"
    and IH: "\<exists>s2. alloc (of_nat (bsize w)) (Some i) (root_idx a) s1 = (Inr (enc ra), s2) \<and>
      changes (set (idxs a)) s1 s2 \<and> m_node_index s2 = nx2 \<and> holds s2 l p a'"
  shows "\<exists>s3. try_child alloc (of_nat (bsize w)) i (root_idx a) (m_nodes s1 ! root_idx a) s1
      = (Inr (enc ra), s3) \<and> changes (insert i (set (idxs a))) s1 s3 \<and> m_node_index s3 = nx2 \<and>
      holds s3 (Suc l) p (Br i (if ra = None then k else join_kind a' b) a' b)"
proof -
  have l: "l < 48" using H(3) by simp
  note g = try_child_guard[OF holds_root(2)[OF holds_children(1)[OF H(1)]] l H(4)]
  show ?thesis
  proof (cases "closed a \<or> (w = l \<and> kind a \<noteq> KUnused)")
    case True
    with t_alloc_blocked[OF True, of p "m_node_index s1"] ta H(1) show ?thesis
      by (auto simp: g enc_def)
  next
    case False
    obtain s2 where s2: "alloc (of_nat (bsize w)) (Some i) (root_idx a) s1 = (Inr (enc ra), s2)"
        "changes (set (idxs a)) s1 s2" "m_node_index s2 = nx2" "holds s2 l p a'"
      using IH by blast
    note ix = t_alloc_idxs[OF ta]
    have "holds s2 (Suc l) p (Br i k a' b)"
      by (rule holds_swap_left[OF H(1) s2(2,4)]) (use ix in auto)
    then obtain s3 where s3: "private_allocate_next alloc (of_nat (bsize w)) (Some i) (root_idx a) s1
          = (Inr (enc ra), s3)" "changes {i} s2 s3" "m_node_index s3 = m_node_index s2"
        "holds s3 (Suc l) p (Br i (if ra = None then k else join_kind a' b) a' b)"
      using next_sim[of alloc "of_nat (bsize w)" i "root_idx a" s1 ra s2, OF s2(1) _ H(3) enc_nonzero[OF H(2,4) ta P]] by blast
    have "changes (insert i (set (idxs a))) s1 s3" by (rule changes_trans[OF s2(2) s3(2)]) auto
    then show ?thesis using s3 s2(3) False by (auto simp: g)
  qed
qed

lemma try_right:
  assumes H: "holds s1 (Suc l) p (Br i k a b)" "t_inv l b" "Suc l < 48" "w \<le> l"
    and P: "0 < p" "p + bsize (Suc l) \<le> 2 ^ 64"
    and tb: "t_alloc w l (p + bsize l) (m_node_index s1) b = (rb, nx2, b')"
    and IH: "\<exists>s2. alloc (of_nat (bsize w)) (Some i) (root_idx b) s1 = (Inr (enc rb), s2) \<and>
      changes (set (idxs b)) s1 s2 \<and> m_node_index s2 = nx2 \<and> holds s2 l (p + bsize l) b'"
  shows "\<exists>s3. try_child alloc (of_nat (bsize w)) i (root_idx b) (m_nodes s1 ! root_idx b) s1
      = (Inr (enc rb), s3) \<and> changes (insert i (set (idxs b))) s1 s3 \<and> m_node_index s3 = nx2 \<and>
      holds s3 (Suc l) p (Br i (if rb = None then k else join_kind a b') a b')"
proof -
  have l: "l < 48" and P': "0 < p + bsize l" "p + bsize l + bsize l \<le> 2 ^ 64" using H(3) P by auto
  note g = try_child_guard[OF holds_root(2)[OF holds_children(2)[OF H(1)]] l H(4)]
  show ?thesis
  proof (cases "closed b \<or> (w = l \<and> kind b \<noteq> KUnused)")
    case True
    with t_alloc_blocked[OF True, of "p + bsize l" "m_node_index s1"] tb H(1) show ?thesis
      by (auto simp: g enc_def)
  next
    case False
    obtain s2 where s2: "alloc (of_nat (bsize w)) (Some i) (root_idx b) s1 = (Inr (enc rb), s2)"
        "changes (set (idxs b)) s1 s2" "m_node_index s2 = nx2" "holds s2 l (p + bsize l) b'"
      using IH by blast
    note ix = t_alloc_idxs[OF tb]
    have "holds s2 (Suc l) p (Br i k a b')"
      by (rule holds_swap_right[OF H(1) s2(2,4)]) (use ix in auto)
    then obtain s3 where s3: "private_allocate_next alloc (of_nat (bsize w)) (Some i) (root_idx b) s1
          = (Inr (enc rb), s3)" "changes {i} s2 s3" "m_node_index s3 = m_node_index s2"
        "holds s3 (Suc l) p (Br i (if rb = None then k else join_kind a b') a b')"
      using next_sim[of alloc "of_nat (bsize w)" i "root_idx b" s1 rb s2, OF s2(1) _ H(3) enc_nonzero[OF H(2,4) tb P']] by blast
    have "changes (insert i (set (idxs b))) s1 s3" by (rule changes_trans[OF s2(2) s3(2)]) auto
    then show ?thesis using s3 s2(3) False by (auto simp: g)
  qed
qed

text \<open>A node that is closed, or of the wanted size, is decided without looking further down.\<close>

lemma alloc_here:
  assumes H: "holds s l p t" and "l < 48" "w \<le> l" "closed t \<or> w = l"
    and ta: "t_alloc w l p (m_node_index s) t = (r, nx', t')"
  shows "\<exists>s'. private_allocate (Suc fuel) (of_nat (bsize w)) par (root_idx t) s = (Inr (enc r), s') \<and>
     changes (set (idxs t)) s s' \<and> m_node_index s' = nx' \<and> holds s' l p t'"
proof (cases "closed t \<or> kind t \<noteq> KUnused")
  case True
  then have "t_alloc w l p (m_node_index s) t = (None, m_node_index s, t)"
    using assms(4) t_alloc_blocked by blast
  moreover have "private_allocate (Suc fuel) (of_nat (bsize w)) par (root_idx t) s = (Inr 0, s)"
    using True assms(4) of_nat_bsize_eq[OF assms(2,3)] node_kinds[OF holds_root(2)[OF H] assms(2)]
      node_get_size[OF holds_root(2)[OF H] assms(2)] H
    by (auto simp: bindE_def closed_def)
  ultimately show ?thesis using ta H by (auto simp: enc_def)
next
  case False
  then have wl: "w = l" "kind t = KUnused" "\<not> closed t" using assms(4) by auto
  then have t': "r = Some p" "nx' = m_node_index s" "t' = set_kind KLeaf t"
    using ta by (cases l; auto)+
  obtain s' where s': "update_node (root_idx t) (put_kind KLeaf) s = (Inr (), s')"
      "changes {root_idx t} s s'" "m_node_index s' = m_node_index s" "holds s' l p (set_kind KLeaf t)"
    using update_node_kind[OF H assms(2), of KLeaf] by blast
  have "node_ptr (m_nodes s' ! root_idx t) = of_nat p"
    using holds_root(2)[OF s'(4)] by (simp add: node_ok_def)
  then have "private_allocate (Suc fuel) (of_nat (bsize w)) par (root_idx t) s = (Inr (of_nat p), s')"
    using wl node_kinds[OF holds_root(2)[OF H] assms(2)]
      node_get_size[OF holds_root(2)[OF H] assms(2)] H s'(1) node_at_holds[OF s'(4)]
    by (simp add: bindE_def seqE_def set_kinds_put_kind)
  moreover have "changes (set (idxs t)) s s'" using changes_mono[OF s'(2)] by simp
  ultimately show ?thesis using t' s'(3,4) by (auto simp: enc_def)
qed

lemma private_allocate_unfold:
  "private_allocate (Suc fuel) sz par i s =
     bindE (node_at i) (\<lambda>n.
       if is_leaf n \<or> is_full n then returnE 0
       else if sz = get_size n then
         (if is_unused n then
            seqE (update_node i set_leaf) (bindE (node_at i) (\<lambda>n'. returnE (node_ptr n')))
          else returnE 0)
       else
         seqE (if child0 n = None then get_nodes i else returnE ())
        (bindE (bindE (node_at i) (\<lambda>n. deref (child0 n))) (\<lambda>c0.
         bindE (node_at c0) (\<lambda>n0.
         bindE (try_child (private_allocate fuel) sz i c0 n0) (\<lambda>ptr.
         if ptr \<noteq> 0 then returnE ptr
         else
           bindE (bindE (node_at i) (\<lambda>n. deref (child1 n))) (\<lambda>c1.
           bindE (node_at c1) (\<lambda>n1. try_child (private_allocate fuel) sz i c1 n1)))))) ) s"
  unfolding try_child_def private_allocate.simps ..

lemma private_allocate_down:
  assumes "node_at i s = (Inr n, s)" "\<not> is_leaf n" "\<not> is_full n" "sz \<noteq> get_size n"
    and "(if child0 n = None then get_nodes i else returnE ()) s = (Inr (), s1)"
    and "bindE (node_at i) (\<lambda>n. deref (child0 n)) s1 = (Inr c0, s1)" "node_at c0 s1 = (Inr n0, s1)"
  shows "private_allocate (Suc fuel) sz par i s =
     bindE (try_child (private_allocate fuel) sz i c0 n0) (\<lambda>ptr.
         if ptr \<noteq> 0 then returnE ptr
         else
           bindE (bindE (node_at i) (\<lambda>n. deref (child1 n))) (\<lambda>c1.
           bindE (node_at c1) (\<lambda>n1. try_child (private_allocate fuel) sz i c1 n1))) s1"
  unfolding private_allocate_unfold
  by (subst bindE_Inr, rule assms(1), simp only: assms(2-4) simp_thms if_False, subst seqE_Inr,
      rule assms(5), subst bindE_Inr, rule assms(6), subst bindE_Inr, rule assms(7), rule refl)

lemma child_ptrs:
  assumes "holds s (Suc l) p (Br i k a b)"
  shows "bindE (node_at i) (\<lambda>n. deref (child0 n)) s = (Inr (root_idx a), s)"
    and "bindE (node_at i) (\<lambda>n. deref (child1 n)) s = (Inr (root_idx b), s)"
  using assms node_at_holds[OF assms] by (auto simp: holds_def bindE_def deref_def)

theorem private_allocate_sim:
  assumes "holds s l p t" "t_inv l t" "l < 48" "w \<le> l" "0 < p" "p + bsize l \<le> 2 ^ 64"
    and "t_alloc w l p (m_node_index s) t = (r, nx', t')" "nx' \<le> length (m_nodes s)" "l < fuel"
  shows "\<exists>s'. private_allocate fuel (of_nat (bsize w)) par (root_idx t) s = (Inr (enc r), s') \<and>
     changes (set (idxs t)) s s' \<and> m_node_index s' = nx' \<and> holds s' l p t'"
  using assms
proof (induction l arbitrary: p t s r nx' t' fuel par)
  case 0
  then have "w = 0" "\<exists>f. fuel = Suc f" by (auto simp: gr0_conv_Suc)
  then show ?case using alloc_here[OF "0.prems"(1,3,4) _ "0.prems"(7)] by blast
next
  case (Suc l)
  obtain f where f: "fuel = Suc f" "l < f" using Suc.prems(9) by (cases fuel) auto
  show ?case
  proof (cases "closed t \<or> w = Suc l")
    case True
    then show ?thesis using alloc_here[OF Suc.prems(1,3,4) True Suc.prems(7)] f(1) by blast
  next
    case False
    let ?w = "of_nat (bsize w) :: u64" and ?i = "root_idx t"
    have nc: "\<not> closed t" and w: "w \<le> l" "w \<noteq> Suc l" and l: "l < 48"
      using False Suc.prems(3,4) by auto
    have P: "p + bsize l \<le> 2 ^ 64" "0 < p + bsize l" "p + bsize l + bsize l \<le> 2 ^ 64"
      using Suc.prems(5,6) by auto
    obtain nx1 a b where ex: "expand (m_node_index s) t = (nx1, a, b)" by (metis prod_cases3)
    note e = expand_props[OF Suc.prems(2) nc ex]
    obtain ra nx2 a' where ta: "t_alloc w l p nx1 a = (ra, nx2, a')" by (metis prod_cases3)
    obtain rb nx3 b' where tb: "t_alloc w l (p + bsize l) nx2 b = (rb, nx3, b')" by (metis prod_cases3)
    have res: "if ra = None then r = rb \<and> nx' = nx3 \<and>
          t' = Br ?i (if rb = None then kind t else join_kind a' b') a' b'
        else r = ra \<and> nx' = nx2 \<and> t' = Br ?i (join_kind a' b) a' b"
      using Suc.prems(7) nc w(2) ex ta tb by (auto split: option.splits)
    have nxs: "nx1 \<le> nx2" "nx2 \<le> nx3" using t_alloc_idxs[OF ta] t_alloc_idxs[OF tb] by auto
    have nx2: "nx2 \<le> length (m_nodes s)" using res nxs Suc.prems(8) by (auto split: if_splits)
    obtain s1 where s1: "(if child0 (m_nodes s ! ?i) = None then get_nodes ?i else returnE ()) s = (Inr (), s1)"
        "changes {?i} s s1" "m_node_index s1 = nx1" "holds s1 (Suc l) p (Br ?i (kind t) a b)"
      using expand_run[OF Suc.prems(1,3) ex] nx2 nxs by auto
    have len1: "length (m_nodes s1) = length (m_nodes s)" using s1(2) by (simp add: changes_def)
    have IHa: "\<exists>s2. private_allocate f ?w (Some ?i) (root_idx a) s1 = (Inr (enc ra), s2) \<and>
        changes (set (idxs a)) s1 s2 \<and> m_node_index s2 = nx2 \<and> holds s2 l p a'"
      by (rule Suc.IH[OF holds_children(1)[OF s1(4)] e(1) l w(1) Suc.prems(5) P(1)])
        (use ta s1(3) nx2 len1 f(2) in auto)
    obtain s2 where s2: "try_child (private_allocate f) ?w ?i (root_idx a) (m_nodes s1 ! root_idx a) s1
          = (Inr (enc ra), s2)" "changes (insert ?i (set (idxs a))) s1 s2" "m_node_index s2 = nx2"
        "holds s2 (Suc l) p (Br ?i (if ra = None then kind t else join_kind a' b) a' b)"
      using try_left[where alloc = "private_allocate f", OF s1(4) e(1) Suc.prems(3) w(1) Suc.prems(5) P(1) _ IHa] ta s1(3) by auto
    have sub: "insert ?i (set (idxs a) \<union> set (idxs b)) \<subseteq> set (idxs t) \<union> {m_node_index s ..}"
    proof -
      have "{m_node_index s ..< nx1} \<subseteq> {m_node_index s ..}" by auto
      then show ?thesis unfolding expand_idxs(4)[OF ex, symmetric] by blast
    qed
    note root = holds_root(2)[OF Suc.prems(1)]
    have start: "private_allocate fuel ?w par ?i s =
        bindE (try_child (private_allocate f) ?w ?i (root_idx a) (m_nodes s1 ! root_idx a)) (\<lambda>ptr.
         if ptr \<noteq> 0 then returnE ptr
         else
           bindE (bindE (node_at ?i) (\<lambda>n. deref (child1 n))) (\<lambda>c1.
           bindE (node_at c1) (\<lambda>n1. try_child (private_allocate f) ?w ?i c1 n1))) s1"
      unfolding f(1)
      by (rule private_allocate_down[OF node_at_holds[OF Suc.prems(1)] _ _ _ s1(1)
            child_ptrs(1)[OF s1(4)] node_at_holds[OF holds_children(1)[OF s1(4)]]])
        (use nc w(2) node_kinds[OF root Suc.prems(3)] node_get_size[OF root Suc.prems(3)]
          of_nat_bsize_eq[OF Suc.prems(3,4)] in \<open>auto simp: closed_def\<close>)
    show ?thesis
    proof (cases ra)
      case (Some q)
      then have "enc ra \<noteq> 0" using enc_nonzero[OF e(1) w(1) ta Suc.prems(5) P(1)] by simp
      then have "private_allocate fuel ?w par ?i s = (Inr (enc ra), s2)"
        unfolding start by (simp add: bindE_def s2(1))
      moreover have "changes (set (idxs t)) s s2"
        by (rule changes_trans[OF s1(2) s2(2)]) (use sub in auto)
      ultimately show ?thesis using res Some s2(3,4) by auto
    next
      case None
      then have H2: "holds s2 (Suc l) p (Br ?i (kind t) a' b)" using s2(4) by simp
      have res': "r = rb" "nx' = nx3" "t' = Br ?i (if rb = None then kind t else join_kind a' b') a' b'"
        using res None by auto
      have len2: "length (m_nodes s2) = length (m_nodes s)" using s2(2) len1 by (simp add: changes_def)
      have IHb: "\<exists>s3. private_allocate f ?w (Some ?i) (root_idx b) s2 = (Inr (enc rb), s3) \<and>
          changes (set (idxs b)) s2 s3 \<and> m_node_index s3 = nx3 \<and> holds s3 l (p + bsize l) b'"
        by (rule Suc.IH[OF holds_children(2)[OF H2] e(2) l w(1) P(2,3)])
          (use tb s2(3) res'(2) Suc.prems(8) len2 f(2) in auto)
      obtain s3 where s3: "try_child (private_allocate f) ?w ?i (root_idx b) (m_nodes s2 ! root_idx b) s2
            = (Inr (enc rb), s3)" "changes (insert ?i (set (idxs b))) s2 s3" "m_node_index s3 = nx3"
          "holds s3 (Suc l) p (Br ?i (if rb = None then kind t else join_kind a' b') a' b')"
        using try_right[where alloc = "private_allocate f", OF H2 e(2) Suc.prems(3) w(1) Suc.prems(5,6) _ IHb]
          tb s2(3) by auto
      have "private_allocate fuel ?w par ?i s = (Inr (enc rb), s3)"
        unfolding start using None s3(1) s2(1) child_ptrs(2)[OF H2] node_at_holds[OF holds_children(2)[OF H2]]
        by (simp add: bindE_def enc_def)
      moreover have "changes (set (idxs t)) s s2"
        by (rule changes_trans[OF s1(2) s2(2)]) (use sub in auto)
      then have "changes (set (idxs t)) s s3"
        by (rule changes_trans[OF _ s3(2)]) (use sub in auto)
      ultimately show ?thesis using res' s3(3,4) by auto
    qed
  qed
qed

section \<open>Deallocation\<close>

lemma dealloc_next_sim:
  assumes "dealloc x (Some i) c s1 = (Inr r, s2)" "holds s2 (Suc l) p (Br i k a b)" "Suc l < 48"
  shows "\<exists>s3. private_deallocate_next dealloc x (Some i) c s1 = (Inr r, s3) \<and>
     changes {i} s2 s3 \<and> m_node_index s3 = m_node_index s2 \<and>
     holds s3 (Suc l) p (Br i (if r then free_kind a b else k) a b)"
proof (cases r)
  case False
  with assms show ?thesis by (auto simp: private_deallocate_next_def bindE_def)
next
  case True
  obtain s3 where s3: "update_node i (put_kind KParent) s2 = (Inr (), s3)" "changes {i} s2 s3"
      "m_node_index s3 = m_node_index s2" "holds s3 (Suc l) p (Br i KParent a b)"
    using update_node_kind[OF assms(2,3), of KParent] by auto
  obtain s4 where s4: "update_node i (put_kind KUnused) s3 = (Inr (), s4)" "changes {i} s3 s4"
      "m_node_index s4 = m_node_index s3" "holds s4 (Suc l) p (Br i KUnused a b)"
    using update_node_kind[OF s3(4) assms(3), of KUnused] by auto
  have l: "l < 48" using assms(3) by simp
  note k = node_kinds[OF holds_root(2)[OF holds_children(1)[OF s3(4)]] l]
    node_kinds[OF holds_root(2)[OF holds_children(2)[OF s3(4)]] l]
  note w = with_children_holds[OF s3(4)]
  show ?thesis
  proof (cases "kind a = KUnused \<and> kind b = KUnused")
    case True2: True
    have "changes {i} s2 s4" using changes_trans[OF s3(2) s4(2), of "{i}"] by simp
    with True True2 assms(1) s3 s4 show ?thesis
      by (intro exI[of _ s4])
        (simp add: private_deallocate_next_def set_kinds_put_kind seqE_def bindE_def w k free_kind_def)
  next
    case False
    with True assms(1) s3 show ?thesis
      by (intro exI[of _ s3])
        (auto simp: private_deallocate_next_def set_kinds_put_kind seqE_def bindE_def w k free_kind_def)
  qed
qed

lemma left_half_test:
  assumes "holds s (Suc l) p (Br i k a b)" "Suc l < 48" "p + bsize (Suc l) \<le> 2 ^ 64" "x < 2 ^ 64"
  shows "of_nat x < node_ptr (m_nodes s ! root_idx a) + get_size (m_nodes s ! root_idx a) \<longleftrightarrow> x < p + bsize l"
proof -
  note r = holds_root(2)[OF holds_children(1)[OF assms(1)]]
  have "l < 48" using assms(2) by simp
  then have "node_ptr (m_nodes s ! root_idx a) + get_size (m_nodes s ! root_idx a) = of_nat (p + bsize l)"
    using r node_get_size[OF r] by (simp add: node_ok_def)
  moreover have "p + bsize l < 2 ^ 64" using assms(3) bsize_pos[of l] by (simp del: bsize_pos)
  ultimately show ?thesis using of_nat_u64_less[OF assms(4)] by metis
qed

lemma dealloc_leaf:
  assumes "holds s l p t" "l < 48" "kind t = KLeaf"
  shows "\<exists>s'. private_deallocate (Suc f) x par (root_idx t) s = (Inr True, s') \<and>
     changes (set (idxs t)) s s' \<and> m_node_index s' = m_node_index s \<and> holds s' l p (set_kind KUnused t)"
proof -
  obtain s' where s': "update_node (root_idx t) (put_kind KUnused) s = (Inr (), s')"
      "changes {root_idx t} s s'" "m_node_index s' = m_node_index s" "holds s' l p (set_kind KUnused t)"
    using update_node_kind[OF assms(1,2), of KUnused] by blast
  have "changes (set (idxs t)) s s'" using changes_mono[OF s'(2)] by simp
  moreover have "private_deallocate (Suc f) x par (root_idx t) s = (Inr True, s')"
    using s'(1) node_kinds[OF holds_root(2)[OF assms(1)] assms(2)] assms(3) node_at_holds[OF assms(1)]
    by (simp add: bindE_def seqE_def set_kinds_put_kind)
  ultimately show ?thesis using s' by blast
qed

lemma dealloc_down:
  assumes "holds s (Suc l) p (Br i k a b)" "Suc l < 48" "p + bsize (Suc l) \<le> 2 ^ 64" "x < 2 ^ 64"
    and "k \<noteq> KLeaf"
  shows "private_deallocate (Suc f) (of_nat x) par i s =
     private_deallocate_next (private_deallocate f) (of_nat x) (Some i)
       (if x < p + bsize l then root_idx a else root_idx b) s"
proof -
  have "child0 (m_nodes s ! i) = Some (root_idx a)" "child1 (m_nodes s ! i) = Some (root_idx b)"
    using assms(1) by (auto simp: holds_def)
  moreover have "\<not> is_leaf (m_nodes s ! i)"
    using node_kinds[OF holds_root(2)[OF assms(1)] assms(2)] assms(5) by simp
  moreover have "node_at i s = (Inr (m_nodes s ! i), s)" using node_at_holds[OF assms(1)] by simp
  ultimately show ?thesis
    using node_at_holds[OF holds_children(1)[OF assms(1)]] left_half_test[OF assms(1-4)]
    by (simp add: bindE_def deref_def)
qed

lemma t_dealloc_idxs: "t_dealloc l p x t = (r, t') \<Longrightarrow> idxs t' = idxs t \<and> root_idx t' = root_idx t"
  by (induction l p x t arbitrary: r t' rule: t_dealloc.induct)
    (auto split: if_splits prod.splits bool.splits)

lemma private_deallocate_sim:
  assumes "holds s l p t" "t_inv l t" "l < 48" "p + bsize l \<le> 2 ^ 64" "x < 2 ^ 64"
    and "t_dealloc l p x t = (r, t')" "l < fuel"
  shows "\<exists>s'. private_deallocate fuel (of_nat x) par (root_idx t) s = (Inr r, s') \<and>
     changes (set (idxs t)) s s' \<and> m_node_index s' = m_node_index s \<and> holds s' l p t'"
  using assms
proof (induction l p x t arbitrary: s r t' fuel par rule: t_dealloc.induct)
  case (1 l p x i k)
  obtain f where f: "fuel = Suc f" using "1.prems"(7) by (cases fuel) auto
  show ?case
  proof (cases "k = KLeaf")
    case True
    then show ?thesis using dealloc_leaf[OF "1.prems"(1,3), of f] "1.prems"(6) f by simp
  next
    case False
    then have "private_deallocate fuel (of_nat x) par i s = (Inr False, s)"
      using "1.prems"(1) node_at_holds[OF "1.prems"(1)] node_kinds[OF holds_root(2)[OF "1.prems"(1)] "1.prems"(3)]
      by (simp add: f bindE_def holds_def)
    then show ?thesis using False "1.prems"(1,6) by auto
  qed
next
  case (2 p x i k a b)
  then show ?case by simp
next
  case (3 l p x i k a b)
  obtain f where f: "fuel = Suc f" "l < f" using "3.prems"(7) by (cases fuel) auto
  have l: "l < 48" using "3.prems"(3) by simp
  show ?case
  proof (cases "k = KLeaf")
    case True
    then show ?thesis using dealloc_leaf[OF "3.prems"(1,3), of f] "3.prems"(6) f(1) by simp
  next
    case nl: False
    have P: "p + bsize l \<le> 2 ^ 64" "p + bsize l + bsize l \<le> 2 ^ 64" using "3.prems"(4) by auto
    have inv: "t_inv l a" "t_inv l b" using "3.prems"(2) by auto
    show ?thesis
    proof (cases "x < p + bsize l")
      case left: True
      note d = dealloc_down[OF "3.prems"(1,3,4,5) nl]
      obtain ra a' where ta: "t_dealloc l p x a = (ra, a')" by fastforce
      then have t': "r = ra" "t' = Br i (if ra then free_kind a' b else k) a' b"
        using "3.prems"(6) nl left by (auto split: bool.splits)
      have ix: "idxs a' = idxs a \<and> root_idx a' = root_idx a"
        using t_dealloc_idxs[OF ta] by simp
      obtain s2 where s2: "private_deallocate f (of_nat x) (Some i) (root_idx a) s = (Inr ra, s2)"
          "changes (set (idxs a)) s s2" "m_node_index s2 = m_node_index s" "holds s2 l p a'"
        using "3.IH"(1)[OF nl left holds_children(1)[OF "3.prems"(1)] inv(1) l P(1) "3.prems"(5) ta f(2)]
        by blast
      have "holds s2 (Suc l) p (Br i k a' b)"
        by (rule holds_swap_left[OF "3.prems"(1) s2(2,4)]) (use ix in auto)
      then obtain s3 where s3: "private_deallocate_next (private_deallocate f) (of_nat x) (Some i) (root_idx a) s
            = (Inr ra, s3)" "changes {i} s2 s3" "m_node_index s3 = m_node_index s2"
          "holds s3 (Suc l) p (Br i (if ra then free_kind a' b else k) a' b)"
        using dealloc_next_sim[of "private_deallocate f" "of_nat x" i "root_idx a" s ra s2, OF s2(1) _ "3.prems"(3)]
        by blast
      have "changes (set (idxs (Br i k a b))) s s3" by (rule changes_trans[OF s2(2) s3(2)]) auto
      then show ?thesis using s3 s2(3) t' left d f(1) by auto
    next
      case right: False
      note d = dealloc_down[OF "3.prems"(1,3,4,5) nl]
      obtain rb b' where tb: "t_dealloc l (p + bsize l) x b = (rb, b')" by fastforce
      then have t': "r = rb" "t' = Br i (if rb then free_kind a b' else k) a b'"
        using "3.prems"(6) nl right by (auto split: bool.splits)
      have ix: "idxs b' = idxs b \<and> root_idx b' = root_idx b"
        using t_dealloc_idxs[OF tb] by simp
      obtain s2 where s2: "private_deallocate f (of_nat x) (Some i) (root_idx b) s = (Inr rb, s2)"
          "changes (set (idxs b)) s s2" "m_node_index s2 = m_node_index s" "holds s2 l (p + bsize l) b'"
        using "3.IH"(2)[OF nl right holds_children(2)[OF "3.prems"(1)] inv(2) l P(2) "3.prems"(5) tb f(2)]
        by blast
      have "holds s2 (Suc l) p (Br i k a b')"
        by (rule holds_swap_right[OF "3.prems"(1) s2(2,4)]) (use ix in auto)
      then obtain s3 where s3: "private_deallocate_next (private_deallocate f) (of_nat x) (Some i) (root_idx b) s
            = (Inr rb, s3)" "changes {i} s2 s3" "m_node_index s3 = m_node_index s2"
          "holds s3 (Suc l) p (Br i (if rb then free_kind a b' else k) a b')"
        using dealloc_next_sim[of "private_deallocate f" "of_nat x" i "root_idx b" s rb s2, OF s2(1) _ "3.prems"(3)]
        by blast
      have "changes (set (idxs (Br i k a b))) s s3" by (rule changes_trans[OF s2(2) s3(2)]) auto
      then show ?thesis using s3 s2(3) t' right d f(1) by auto
    qed
  qed
qed

section \<open>Block size\<close>

lemma private_size_sim:
  assumes "holds s l p t" "t_inv l t" "l < 48" "p + bsize l \<le> 2 ^ 64" "x < 2 ^ 64" "l < fuel"
  shows "private_size fuel (of_nat x) par (root_idx t) s = (Inr (of_nat (t_size l p x t)), s)"
  using assms
proof (induction l p x t arbitrary: fuel par rule: t_size.induct)
  case (1 l p x i k)
  obtain f where f: "fuel = Suc f" using "1.prems"(6) by (cases fuel) auto
  note r = holds_root(2)[OF "1.prems"(1)]
  show ?case
    using "1.prems"(1) node_at_holds[OF "1.prems"(1)] node_kinds[OF r "1.prems"(3)]
      node_get_size[OF r "1.prems"(3)]
    by (simp add: f bindE_def holds_def)
next
  case (2 p x i k a b)
  then show ?case by simp
next
  case (3 l p x i k a b)
  obtain f where f: "fuel = Suc f" "l < f" using "3.prems"(6) by (cases fuel) auto
  note r = holds_root(2)[OF "3.prems"(1)]
  have na: "node_at i s = (Inr (m_nodes s ! i), s)" using node_at_holds[OF "3.prems"(1)] by simp
  have lf: "is_leaf (m_nodes s ! i) \<longleftrightarrow> k = KLeaf" "get_size (m_nodes s ! i) = of_nat (bsize (Suc l))"
    using node_kinds[OF r "3.prems"(3)] node_get_size[OF r "3.prems"(3)] by simp_all
  have ch: "child0 (m_nodes s ! i) = Some (root_idx a)" "child1 (m_nodes s ! i) = Some (root_idx b)"
    using "3.prems"(1) by (auto simp: holds_def)
  have down: "private_size fuel (of_nat x) par i s =
      private_size f (of_nat x) (Some i) (if x < p + bsize l then root_idx a else root_idx b) s" if "k \<noteq> KLeaf"
    using that na lf ch node_at_holds[OF holds_children(1)[OF "3.prems"(1)]]
      left_half_test[OF "3.prems"(1,3,4,5)]
    by (simp add: f(1) bindE_def deref_def)
  show ?case
  proof (cases "k = KLeaf")
    case True
    then show ?thesis using na lf by (simp add: f(1) bindE_def)
  next
    case False
    with down show ?thesis
      using "3.IH"(1)[OF False _ holds_children(1)[OF "3.prems"(1)], of f "Some i"]
        "3.IH"(2)[OF False _ holds_children(2)[OF "3.prems"(1)], of f "Some i"] "3.prems" f(2)
      by (auto split: if_splits)
  qed
qed

end
