(* ===== verification/Alloc_Interface.thy ===== *)
theory Alloc_Interface
  imports Prelude "HOL-Library.Multiset"
begin

text \<open>
  The interfaces between the allocators.  \<open>block_allocator\<close> is what the buddy allocator
  promises: an invariant, the set of live blocks of a state, and the laws of allocation and
  release.  \<open>page_provider\<close> is what the slab allocators and the page tables need of
  \<open>alloc_page\<close> and \<open>free_page\<close>.  What follows from the laws alone is proved here,
  once for all implementations.
\<close>

section \<open>Blocks of memory and their clients\<close>

text \<open>A block is its address and its number of bytes.\<close>

definition extent :: "nat \<times> nat \<Rightarrow> nat set" where
  "extent b = {fst b ..< fst b + snd b}"

text \<open>
  A client of an allocator: it holds a list of pointers with the sizes it asked for, and
  releases only what it holds.
\<close>

inductive client_run ::
  "(u64 \<Rightarrow> ('s, u64) op) \<Rightarrow> (u64 \<Rightarrow> ('s, unit) op) \<Rightarrow> 's \<Rightarrow> (u64 \<times> u64) list \<Rightarrow> 's \<Rightarrow> bool"
  for alloc dealloc s0 where
  start: "client_run alloc dealloc s0 [] s0"
| take: "client_run alloc dealloc s0 H s \<Longrightarrow> alloc n s = (Inr q, s') \<Longrightarrow>
         client_run alloc dealloc s0 ((q, n) # H) s'"
| refuse: "client_run alloc dealloc s0 H s \<Longrightarrow> alloc n s = (Inl e, s') \<Longrightarrow>
         client_run alloc dealloc s0 H s'"
| release: "client_run alloc dealloc s0 H s \<Longrightarrow> (q, n) \<in> set H \<Longrightarrow> dealloc q s = (r, s') \<Longrightarrow>
         client_run alloc dealloc s0 (remove1 (q, n) H) s'"

text \<open>The blocks behind what a client holds, and that they are pairwise apart.\<close>

definition held :: "(u64 \<Rightarrow> nat) \<Rightarrow> (u64 \<times> u64) list \<Rightarrow> (nat \<times> nat) list" where
  "held bytes H = map (\<lambda>(q, n). (unat q, bytes n)) H"

definition apart :: "(nat \<times> nat) list \<Rightarrow> bool" where
  "apart bs \<longleftrightarrow> distinct bs \<and> (\<forall>b \<in> set bs. \<forall>c \<in> set bs. b \<noteq> c \<longrightarrow> extent b \<inter> extent c = {}) \<and>
     (\<forall>b \<in> set bs. extent b \<noteq> {})"

lemma apart_Cons:
  assumes "apart bs" "\<forall>b \<in> set bs. extent b \<inter> extent c = {}" "extent c \<noteq> {}"
  shows "apart (c # bs)"
proof -
  have "c \<notin> set bs" using assms(2,3) by blast
  then show ?thesis using assms by (auto simp: apart_def)
qed

lemma apart_mapI:
  assumes "distinct xs" "\<And>x y. x \<in> set xs \<Longrightarrow> y \<in> set xs \<Longrightarrow> x \<noteq> y \<Longrightarrow> extent (f x) \<inter> extent (f y) = {}"
    and "\<And>x. x \<in> set xs \<Longrightarrow> extent (f x) \<noteq> {}"
  shows "apart (map f xs)"
proof -
  have "inj_on f (set xs)" using assms(2,3) by (intro inj_onI) (metis Int_absorb)
  then show ?thesis using assms unfolding apart_def distinct_map by (metis (no_types, lifting) imageE set_map)
qed

section \<open>An allocator of blocks of any size\<close>

locale block_allocator =
  fixes inv :: "'s \<Rightarrow> bool"
    and live :: "'s \<Rightarrow> (nat \<times> nat) set"
    and alloc :: "u64 \<Rightarrow> ('s, u64) op"
    and dealloc :: "u64 \<Rightarrow> ('s, unit) op"
    and bytes :: "u64 \<Rightarrow> nat"
  assumes alloc_ok: "inv s \<Longrightarrow> alloc n s = (Inr q, s') \<Longrightarrow>
      inv s' \<and> live s' = insert (unat q, bytes n) (live s) \<and>
      (\<forall>b \<in> live s. extent b \<inter> extent (unat q, bytes n) = {}) \<and> 0 < unat n \<and> unat n \<le> bytes n"
    and alloc_err: "inv s \<Longrightarrow> alloc n s = (Inl e, s') \<Longrightarrow> e = Bad_alloc \<and> inv s' \<and> live s' = live s"
    and dealloc_ok: "inv s \<Longrightarrow> (unat q, m) \<in> live s \<Longrightarrow>
      \<exists>s'. dealloc q s = (Inr (), s') \<and> inv s' \<and> live s' = live s - {(unat q, m)}"
begin

lemma held_remove1:
  assumes "distinct (held bytes H)" "(q, n) \<in> set H"
  shows "held bytes (remove1 (q, n) H) = remove1 (unat q, bytes n) (held bytes H)"
  using assms
proof (induction H)
  case (Cons h H)
  obtain q' n' where h: "h = (q', n')" by fastforce
  show ?case
  proof (cases "(q, n) = h")
    case False
    then have "(q, n) \<in> set H" using Cons.prems(2) by simp
    then have "(unat q, bytes n) \<in> set (held bytes H)" by (force simp: held_def)
    then have "(unat q, bytes n) \<noteq> (unat q', bytes n')" using Cons.prems(1) h by (auto simp: held_def)
    then show ?thesis using Cons h False \<open>(q, n) \<in> set H\<close> by (auto simp: held_def)
  qed (auto simp: held_def h)
qed simp

text \<open>
  Along every run the live blocks are exactly the blocks the client took on top of those that
  were live at the start, and no two of them overlap.
\<close>

theorem client_run_inv:
  assumes "client_run alloc dealloc s0 H s" "inv s0" "live s0 = {}"
  shows "inv s \<and> live s = set (held bytes H) \<and> apart (held bytes H)"
  using assms
proof (induction rule: client_run.induct)
  case start
  then show ?case by (simp add: held_def apart_def)
next
  case (take H s n q s')
  then have IH: "inv s" "live s = set (held bytes H)" "apart (held bytes H)" by auto
  have "extent (unat q, bytes n) \<noteq> {}" using alloc_ok[OF IH(1) take(2)] by (simp add: extent_def)
  then have "apart ((unat q, bytes n) # held bytes H)"
    using alloc_ok[OF IH(1) take(2)] IH by (auto intro!: apart_Cons)
  then show ?case using alloc_ok[OF IH(1) take(2)] IH(2) by (simp add: held_def)
next
  case (refuse H s n e s')
  then show ?case using alloc_err[of s n e s'] by simp
next
  case (release H s q n r s')
  then have IH: "inv s" "live s = set (held bytes H)" "apart (held bytes H)" by auto
  have d: "distinct (held bytes H)" using IH(3) by (simp add: apart_def)
  have "(unat q, bytes n) \<in> live s" using release(2) IH(2) by (force simp: held_def)
  then have "inv s'" "live s' = live s - {(unat q, bytes n)}"
    using dealloc_ok[OF IH(1)] release(3) by fastforce+
  moreover have "held bytes (remove1 (q, n) H) = remove1 (unat q, bytes n) (held bytes H)"
    by (rule held_remove1[OF d release(2)])
  ultimately show ?case using IH d by (auto simp: apart_def)
qed

lemma client_never_faults:
  assumes "client_run alloc dealloc s0 H s" "inv s0" "live s0 = {}"
  shows "fst (alloc n s) \<in> insert (Inl Bad_alloc) (range Inr)"
    and "(q, n) \<in> set H \<Longrightarrow> fst (dealloc q s) = Inr ()"
proof -
  note I = client_run_inv[OF assms]
  show "fst (alloc n s) \<in> insert (Inl Bad_alloc) (range Inr)"
    using I alloc_err[of s n] by (cases "alloc n s"; cases "fst (alloc n s)") auto
  assume "(q, n) \<in> set H"
  then have "(unat q, bytes n) \<in> live s" using I by (force simp: held_def)
  then show "fst (dealloc q s) = Inr ()" using dealloc_ok[of s q] I by fastforce
qed

end

section \<open>A provider of pages\<close>

definition page_block :: "u64 \<Rightarrow> nat \<times> nat" where
  "page_block q = (unat q, 4096)"

lemma page_block_inj [simp]: "page_block q = page_block r \<longleftrightarrow> q = r"
  by (simp add: page_block_def word_unat_eq_iff)

locale page_provider =
  fixes pinv :: "'p \<Rightarrow> bool"
    and plive :: "'p \<Rightarrow> (nat \<times> nat) set"
    and alloc_page :: "('p, u64) op"
    and free_page :: "u64 \<Rightarrow> ('p, unit) op"
    and perr :: "error set"
  assumes page_ok: "pinv p \<Longrightarrow> alloc_page p = (Inr q, p') \<Longrightarrow>
      pinv p' \<and> q \<noteq> 0 \<and> unat q + 4096 \<le> 2 ^ 64 \<and> plive p' = insert (unat q, 4096) (plive p) \<and>
      (\<forall>b \<in> plive p. extent b \<inter> extent (unat q, 4096) = {})"
    and page_err: "pinv p \<Longrightarrow> alloc_page p = (Inl e, p') \<Longrightarrow> pinv p' \<and> plive p' = plive p \<and> e \<in> perr"
    and page_free: "pinv p \<Longrightarrow> (unat q, 4096) \<in> plive p \<Longrightarrow>
      \<exists>p'. free_page q p = (Inr (), p') \<and> pinv p' \<and> plive p' = plive p - {(unat q, 4096)}"
    and plive_apart: "pinv p \<Longrightarrow> b \<in> plive p \<Longrightarrow> c \<in> plive p \<Longrightarrow> b \<noteq> c \<Longrightarrow> extent b \<inter> extent c = {}"
begin

lemma page_new: "pinv p \<Longrightarrow> alloc_page p = (Inr q, p') \<Longrightarrow> (unat q, 4096) \<notin> plive p"
  using page_ok[of p q p'] by (fastforce simp: extent_def)

end

end
