(* ===== verification/Buddy_Spec.thy ===== *)
theory Buddy_Spec
  imports Buddy_Refinement Alloc_Interface
begin

text \<open>
  The allocator of \<open>Buddy_Allocator\<close> satisfies the interface \<open>block_allocator\<close>,
  with the set of live blocks read off the node array.
\<close>

section \<open>The live blocks of a node array\<close>

primrec node_blocks :: "nat \<Rightarrow> node_t list \<Rightarrow> nat \<Rightarrow> (nat \<times> nat) list" where
  "node_blocks 0 ns i = []"
| "node_blocks (Suc f) ns i =
     (let n = ns ! i in
      if is_leaf n then [(unat (node_ptr n), unat (get_size n))]
      else if is_unused n then []
      else (case (child0 n, child1 n) of
              (Some a, Some b) \<Rightarrow> node_blocks f ns a @ node_blocks f ns b
            | _ \<Rightarrow> []))"

definition live_blocks :: "buddy_allocator \<Rightarrow> (nat \<times> nat) set" where
  "live_blocks s = set (node_blocks buddy_fuel (m_nodes s) (m_root s))"

definition bytes_of :: "nat \<times> nat \<Rightarrow> nat \<times> nat" where
  "bytes_of b = (fst b, bsize (snd b))"

lemma extent_bytes_of [simp]: "extent (bytes_of b) = rng b"
  by (simp add: extent_def rng_def bytes_of_def)

lemma bytes_of_inj [simp]: "bytes_of b = bytes_of c \<longleftrightarrow> b = c"
  by (auto simp: bytes_of_def bsize_inj prod_eq_iff)

lemma node_ok_unat:
  assumes "node_ok n k l p" "l < 48" "p < 2 ^ 64"
  shows "unat (node_ptr n) = p" "unat (get_size n) = bsize l"
  using assms node_get_size[OF assms(1,2)] unat_of_nat_u64[OF bsize_less[OF assms(2)]]
    unat_of_nat_u64[OF assms(3)]
  by (simp_all add: node_ok_def)

lemma node_blocks_rep:
  assumes "rep ns l p t" "t_inv l t" "l < 48" "p + bsize l \<le> 2 ^ 64" "l < f"
  shows "set (node_blocks f ns (root_idx t)) = bytes_of ` blocks l p t"
  using assms
proof (induction l p t arbitrary: f rule: blocks.induct)
  case (1 l p i k)
  then obtain g where g: "f = Suc g" by (cases f) auto
  have p: "p < 2 ^ 64" using "1.prems"(4) bsize_pos[of l] by linarith
  have n: "node_ok (ns ! i) k l p" using "1.prems"(1) by simp
  show ?case
    using "1.prems"(1,2) node_ok_unat[OF n "1.prems"(3) p] node_kinds[OF n "1.prems"(3)]
    by (auto simp: g bytes_of_def)
next
  case (2 p i k a b)
  then show ?case by simp
next
  case (3 l p i k a b)
  then obtain g where g: "f = Suc g" "l < g" by (cases f) auto
  have p: "p < 2 ^ 64" using "3.prems"(4) bsize_pos[of "Suc l"] by linarith
  have n: "node_ok (ns ! i) k (Suc l) p" using "3.prems"(1) by simp
  note U = node_ok_unat[OF n "3.prems"(3) p] node_kinds[OF n "3.prems"(3)]
  show ?case
  proof (cases "k = KLeaf \<or> k = KUnused")
    case True
    then show ?thesis using U by (auto simp: g bytes_of_def)
  next
    case False
    have "set (node_blocks g ns (root_idx a)) = bytes_of ` blocks l p a"
      "set (node_blocks g ns (root_idx b)) = bytes_of ` blocks l (p + bsize l) b"
      using "3.IH" "3.prems" g(2) False by (cases k; simp)+
    then show ?thesis using False U "3.prems"(1) by (cases k) (auto simp: g(1))
  qed
qed

section \<open>The allocator's invariant\<close>

definition buddy_tree :: "nat \<Rightarrow> buddy_allocator \<Rightarrow> btree \<Rightarrow> bool" where
  "buddy_tree k s t \<longleftrightarrow>
     k < 48 \<and> m_buffer s \<noteq> 0 \<and> unat (m_buffer s) + bsize k \<le> 2 ^ 64 \<and>
     m_buffer_size s = of_nat (bsize k) \<and> 2 ^ Suc k \<le> Suc (length (m_nodes s)) \<and>
     m_node_index s = length (idxs t) \<and> m_root s = root_idx t \<and>
     holds s k (unat (m_buffer s)) t \<and> t_inv k t"

definition buddy_inv :: "nat \<Rightarrow> buddy_allocator \<Rightarrow> bool" where
  "buddy_inv k s \<longleftrightarrow> (\<exists>t. buddy_tree k s t)"

lemma buddy_fuel_gt: "k < 48 \<Longrightarrow> k < buddy_fuel"
  by (simp add: buddy_fuel_def)

lemma live_blocks_tree:
  assumes "buddy_tree k s t"
  shows "live_blocks s = bytes_of ` blocks k (unat (m_buffer s)) t"
  using assms node_blocks_rep[of "m_nodes s" k "unat (m_buffer s)" t buddy_fuel]
  by (auto simp: buddy_tree_def live_blocks_def holds_def buddy_fuel_gt)

lemma buddy_tree_step:
  assumes "buddy_tree k s t" "changes I s s'" "holds s' k (unat (m_buffer s)) t'" "t_inv k t'"
    and "m_node_index s' = length (idxs t')" "root_idx t' = root_idx t"
  shows "buddy_tree k s' t'"
  using assms by (simp add: buddy_tree_def changes_def)

section \<open>The rounded block size\<close>

definition block_bytes :: "u64 \<Rightarrow> nat" where
  "block_bytes n = unat (next_power_2 (if n < BAREFLANK_PAGE_SIZE then BAREFLANK_PAGE_SIZE else n))"

lemma block_level:
  assumes "n \<noteq> 0" "unat n \<le> bsize k" "k < 48"
  shows "\<exists>w \<le> k. next_power_2 (if n < BAREFLANK_PAGE_SIZE then BAREFLANK_PAGE_SIZE else n) = of_nat (bsize w)
     \<and> unat n \<le> bsize w \<and> (\<forall>v. unat n \<le> bsize v \<longrightarrow> w \<le> v) \<and> block_bytes n = bsize w"
proof -
  let ?m = "if n < BAREFLANK_PAGE_SIZE then BAREFLANK_PAGE_SIZE else n"
  have le: "unat n \<le> unat ?m" "unat ?m = max (unat n) (2 ^ 12)"
    by (auto simp: word_less_nat_alt word_le_nat_alt)
  have b: "bsize k \<le> 2 ^ 59" using assms(3) unfolding bsize_def by (intro power_increasing) auto
  have mk: "unat ?m \<le> bsize k" using le(2) assms(2) bsize_mono[of 0 k] by (simp add: bsize_def)
  have "?m \<noteq> 0" using assms(1) by simp
  moreover have "unat ?m \<le> 2 ^ 63" using mk b by (rule order_trans[OF order_trans]) simp
  ultimately obtain j where j: "next_power_2 ?m = 2 ^ j" "unat ?m \<le> 2 ^ j"
      "\<forall>i. unat ?m \<le> 2 ^ i \<longrightarrow> j \<le> i"
    using next_power_2_least by blast
  have "(2::nat) ^ 12 \<le> 2 ^ j" using j(2) le(2) by linarith
  then have "12 \<le> j" by (rule power_le_imp_le_exp[rotated]) simp
  then obtain w where w: "j = w + 12" by (metis le_add_diff_inverse2)
  have wk: "w \<le> k" using j(3) mk w by (auto simp: bsize_def)
  have eq: "next_power_2 ?m = of_nat (bsize w)" using j(1) w by (simp add: bsize_def)
  moreover have "block_bytes n = bsize w"
    unfolding block_bytes_def eq using bsize_less[of w] wk assms(3) by (intro unat_of_nat_u64) simp
  moreover have "w \<le> v" if "unat n \<le> bsize v" for v
  proof -
    have "(2::nat) ^ 12 \<le> 2 ^ (v + 12)" by (rule power_increasing) auto
    then have "unat ?m \<le> 2 ^ (v + 12)" using that le(2) by (simp add: bsize_def)
    then show ?thesis using j(3) w by fastforce
  qed
  ultimately show ?thesis using wk j(2) le(1) w by (intro exI[of _ w]) (auto simp: bsize_def)
qed

section \<open>Top-level operations\<close>

lemma buddy_size_nat: "buddy_tree k s t \<Longrightarrow> n \<le> m_buffer_size s \<longleftrightarrow> unat n \<le> bsize k"
  using unat_of_nat_u64[OF bsize_less[of k]] by (simp add: buddy_tree_def word_le_nat_alt)

lemma allocate_sim:
  assumes "buddy_tree k s t" "n \<noteq> 0" "unat n \<le> bsize k"
  shows "\<exists>w nx r t' s'. w \<le> k \<and> block_bytes n = bsize w \<and> unat n \<le> bsize w \<and>
     t_alloc w k (unat (m_buffer s)) (m_node_index s) t = (r, nx, t') \<and>
     allocate n s = ((case r of None \<Rightarrow> Inl Bad_alloc | Some q \<Rightarrow> Inr (of_nat q)), s') \<and>
     buddy_tree k s' t' \<and> m_buffer s' = m_buffer s"
proof -
  have B: "k < 48" "0 < unat (m_buffer s)" "unat (m_buffer s) + bsize k \<le> 2 ^ 64"
      "2 ^ Suc k \<le> Suc (length (m_nodes s))" "m_node_index s = length (idxs t)"
      "m_root s = root_idx t" "holds s k (unat (m_buffer s)) t" "t_inv k t"
    using assms(1) by (auto simp: buddy_tree_def unat_gt_0)
  obtain w where w: "w \<le> k"
      "next_power_2 (if n < BAREFLANK_PAGE_SIZE then BAREFLANK_PAGE_SIZE else n) = of_nat (bsize w)"
      "unat n \<le> bsize w" "block_bytes n = bsize w"
    using block_level[OF assms(2,3) B(1)] by blast
  obtain r nx t' where ta: "t_alloc w k (unat (m_buffer s)) (m_node_index s) t = (r, nx, t')"
    by (metis prod_cases3)
  have post: "alloc_post w k (unat (m_buffer s)) t r t'" by (rule t_alloc_post[OF B(8) w(1) ta])
  have ix: "root_idx t' = root_idx t" "nx = length (idxs t')"
    using t_alloc_idxs[OF ta] B(5) by auto
  have "nx \<le> length (m_nodes s)"
    using nodes_bound[of k t'] post B(4) ix(2) by (simp add: alloc_post_def)
  then obtain s' where s': "private_allocate buddy_fuel (of_nat (bsize w)) None (root_idx t) s = (Inr (enc r), s')"
      "changes (set (idxs t)) s s'" "m_node_index s' = nx" "holds s' k (unat (m_buffer s)) t'"
    using private_allocate_sim[OF B(7,8,1) w(1) B(2,3) ta _ buddy_fuel_gt[OF B(1)]] by blast
  have "\<not> m_buffer_size s < n" using buddy_size_nat[OF assms(1)] assms(3) by (simp add: not_less)
  moreover have "enc r = 0 \<longleftrightarrow> r = None"
    using enc_nonzero[OF B(8) w(1) ta B(2,3)] by (auto simp: enc_def)
  ultimately have "allocate n s = ((case r of None \<Rightarrow> Inl Bad_alloc | Some q \<Rightarrow> Inr (of_nat q)), s')"
    using assms(2) s'(1) B(6) w(2) by (auto simp: allocate_def Let_def bindE_def enc_def split: option.splits)
  moreover have "buddy_tree k s' t'"
    using buddy_tree_step[OF assms(1) s'(2,4)] post ix s'(3) by (simp add: alloc_post_def)
  moreover have "m_buffer s' = m_buffer s" using s'(2) by (simp add: changes_def)
  ultimately show ?thesis using w ta by blast
qed

lemma allocate_refuses:
  assumes "buddy_tree k s t" "n = 0 \<or> bsize k < unat n"
  shows "allocate n s = (Inl Bad_alloc, s)"
  using assms buddy_size_nat[OF assms(1), of n] by (auto simp: allocate_def bindE_def not_le)

lemma deallocate_sim:
  assumes "buddy_tree k s t" "ptr \<noteq> 0"
  shows "\<exists>r t' s'. t_dealloc k (unat (m_buffer s)) (unat ptr) t = (r, t') \<and>
     deallocate ptr s = (Inr (), s') \<and> (t_inv k t' \<longrightarrow> buddy_tree k s' t') \<and> m_buffer s' = m_buffer s"
proof -
  have B: "k < 48" "unat (m_buffer s) + bsize k \<le> 2 ^ 64" "m_node_index s = length (idxs t)"
      "m_root s = root_idx t" "holds s k (unat (m_buffer s)) t" "t_inv k t"
    using assms(1) by (auto simp: buddy_tree_def)
  obtain r t' where td: "t_dealloc k (unat (m_buffer s)) (unat ptr) t = (r, t')" by fastforce
  obtain s' where s': "private_deallocate buddy_fuel ptr None (root_idx t) s = (Inr r, s')"
      "changes (set (idxs t)) s s'" "m_node_index s' = m_node_index s" "holds s' k (unat (m_buffer s)) t'"
    using private_deallocate_sim[OF B(5,6,1,2) unat_u64_less td buddy_fuel_gt[OF B(1)]] by auto
  have "t_inv k t' \<longrightarrow> buddy_tree k s' t'"
    using buddy_tree_step[OF assms(1) s'(2,4)] s'(3) B(3) t_dealloc_idxs[OF td] by simp
  then show ?thesis using td s' assms(2) B(4)
    by (auto simp: deallocate_def seqE_def bindE_def changes_def)
qed

lemma size_of_sim:
  assumes "buddy_tree k s t" "ptr \<noteq> 0"
  shows "size_of ptr s = (Inr (of_nat (t_size k (unat (m_buffer s)) (unat ptr) t)), s)"
proof -
  have B: "k < 48" "unat (m_buffer s) + bsize k \<le> 2 ^ 64" "m_root s = root_idx t"
      "holds s k (unat (m_buffer s)) t" "t_inv k t"
    using assms(1) by (auto simp: buddy_tree_def)
  show ?thesis
    using private_size_sim[OF B(4,5,1,2) unat_u64_less[of ptr] buddy_fuel_gt[OF B(1)]] B(3) assms(2)
    by (simp add: size_of_def bindE_def)
qed

lemma block_bytes_least:
  assumes "n \<noteq> 0" "unat n \<le> bsize k" "k < 48"
  shows "block_bytes n = 4096 \<or> block_bytes n < 2 * unat n"
proof -
  obtain w where w: "\<forall>v. unat n \<le> bsize v \<longrightarrow> w \<le> v" "block_bytes n = bsize w"
    using block_level[OF assms] by blast
  show ?thesis
  proof (cases w)
    case 0
    then show ?thesis using w(2) by (simp add: bsize_def)
  next
    case (Suc v)
    then have "\<not> unat n \<le> bsize v" using w(1) by auto
    then show ?thesis using Suc w(2) by simp
  qed
qed

lemma allocate_Inr:
  assumes "buddy_tree k s t" "allocate n s = (Inr q, s')"
  obtains w t' where "n \<noteq> 0" "unat n \<le> bsize k" "block_bytes n = bsize w" "unat n \<le> bsize w"
    "alloc_post w k (unat (m_buffer s)) t (Some (unat q)) t'" "buddy_tree k s' t'" "m_buffer s' = m_buffer s"
proof -
  have n: "n \<noteq> 0" "unat n \<le> bsize k"
    using allocate_refuses[OF assms(1), of n] assms(2) by fastforce+
  obtain w nx r t' s2 where A: "w \<le> k" "block_bytes n = bsize w" "unat n \<le> bsize w"
      "t_alloc w k (unat (m_buffer s)) (m_node_index s) t = (r, nx, t')"
      "allocate n s = ((case r of None \<Rightarrow> Inl Bad_alloc | Some q \<Rightarrow> Inr (of_nat q)), s2)"
      "buddy_tree k s2 t'" "m_buffer s2 = m_buffer s"
    using allocate_sim[OF assms(1) n] by blast
  obtain p where p: "r = Some p" "q = of_nat p" "s2 = s'"
    using A(5) assms(2) by (auto split: option.splits)
  have post: "alloc_post w k (unat (m_buffer s)) t (Some p) t'"
    using t_alloc_post[OF _ A(1,4)] assms(1) p(1) by (simp add: buddy_tree_def)
  moreover have "p < 2 ^ 64"
  proof -
    have "p + bsize w \<le> unat (m_buffer s) + bsize k" using post by (simp add: alloc_post_def)
    moreover have "unat (m_buffer s) + bsize k \<le> 2 ^ 64" using assms(1) unfolding buddy_tree_def by blast
    ultimately show ?thesis using bsize_pos[of w] by linarith
  qed
  ultimately show ?thesis using that[of w t'] n A p by (simp add: unat_of_nat_u64)
qed

lemma allocate_live:
  assumes "buddy_inv k s" "allocate n s = (Inr q, s')"
  shows "buddy_inv k s'" "m_buffer s' = m_buffer s"
    and "live_blocks s' = insert (unat q, block_bytes n) (live_blocks s)"
    and "\<forall>b \<in> live_blocks s. extent b \<inter> extent (unat q, block_bytes n) = {}"
    and "0 < unat n" "unat n \<le> block_bytes n" "block_bytes n = 4096 \<or> block_bytes n < 2 * unat n"
    and "unat (m_buffer s) \<le> unat q" "unat q + block_bytes n \<le> unat (m_buffer s) + bsize k"
    and "block_bytes n dvd unat q - unat (m_buffer s)"
proof -
  obtain t where t: "buddy_tree k s t" using assms(1) by (auto simp: buddy_inv_def)
  obtain w t' where A: "n \<noteq> 0" "unat n \<le> bsize k" "block_bytes n = bsize w" "unat n \<le> bsize w"
      "alloc_post w k (unat (m_buffer s)) t (Some (unat q)) t'" "buddy_tree k s' t'" "m_buffer s' = m_buffer s"
    by (rule allocate_Inr[OF t assms(2)])
  have k: "k < 48" using t by (simp add: buddy_tree_def)
  have P: "blocks k (unat (m_buffer s)) t' = insert (unat q, w) (blocks k (unat (m_buffer s)) t)"
      "\<forall>b \<in> blocks k (unat (m_buffer s)) t. rng b \<inter> rng (unat q, w) = {}"
      "\<exists>j. unat q = unat (m_buffer s) + j * bsize w" "unat (m_buffer s) \<le> unat q"
      "unat q + bsize w \<le> unat (m_buffer s) + bsize k"
    using A(5) by (auto simp: alloc_post_def)
  have e: "(unat q, block_bytes n) = bytes_of (unat q, w)" using A(3) by (simp add: bytes_of_def)
  show "live_blocks s' = insert (unat q, block_bytes n) (live_blocks s)"
    using live_blocks_tree[OF t] live_blocks_tree[OF A(6)] A(7) P(1) e by simp
  show "\<forall>b \<in> live_blocks s. extent b \<inter> extent (unat q, block_bytes n) = {}"
    unfolding e live_blocks_tree[OF t] using P(2) by simp
  show "block_bytes n dvd unat q - unat (m_buffer s)" using A(3) P(3) by auto
  show "buddy_inv k s'" using A(6) by (auto simp: buddy_inv_def)
  show "0 < unat n" using A(1) by (simp add: unat_gt_0)
  show "m_buffer s' = m_buffer s" "unat n \<le> block_bytes n" "unat (m_buffer s) \<le> unat q"
    "unat q + block_bytes n \<le> unat (m_buffer s) + bsize k"
    using A(3,4,7) P(4,5) by simp_all
  show "block_bytes n = 4096 \<or> block_bytes n < 2 * unat n" by (rule block_bytes_least[OF A(1,2) k])
qed

lemma allocate_error:
  assumes "buddy_inv k s" "allocate n s = (Inl e, s')"
  shows "e = Bad_alloc" "buddy_inv k s'" "m_buffer s' = m_buffer s" "live_blocks s' = live_blocks s"
    and "n \<noteq> 0 \<Longrightarrow> unat n \<le> bsize k \<Longrightarrow> (j + 1) * block_bytes n \<le> bsize k \<Longrightarrow>
      \<exists>b \<in> live_blocks s. extent b \<inter> extent (unat (m_buffer s) + j * block_bytes n, block_bytes n) \<noteq> {}"
proof -
  obtain t where t: "buddy_tree k s t" using assms(1) by (auto simp: buddy_inv_def)
  have "e = Bad_alloc \<and> buddy_inv k s' \<and> m_buffer s' = m_buffer s \<and> live_blocks s' = live_blocks s \<and>
      (n \<noteq> 0 \<longrightarrow> unat n \<le> bsize k \<longrightarrow> (j + 1) * block_bytes n \<le> bsize k \<longrightarrow>
        (\<exists>b \<in> live_blocks s. extent b \<inter> extent (unat (m_buffer s) + j * block_bytes n, block_bytes n) \<noteq> {}))"
  proof (cases "n = 0 \<or> bsize k < unat n")
    case True
    then show ?thesis using allocate_refuses[OF t True] assms by auto
  next
    case False
    then have n: "n \<noteq> 0" "unat n \<le> bsize k" by auto
    obtain w nx r t' s2 where A: "w \<le> k" "block_bytes n = bsize w"
        "t_alloc w k (unat (m_buffer s)) (m_node_index s) t = (r, nx, t')"
        "allocate n s = ((case r of None \<Rightarrow> Inl Bad_alloc | Some q \<Rightarrow> Inr (of_nat q)), s2)"
        "buddy_tree k s2 t'" "m_buffer s2 = m_buffer s"
      using allocate_sim[OF t n] by blast
    have r: "r = None" "e = Bad_alloc" "s2 = s'" using A(4) assms(2) by (auto split: option.splits)
    have inv: "t_inv k t" using t by (simp add: buddy_tree_def)
    have "blocks k (unat (m_buffer s)) t' = blocks k (unat (m_buffer s)) t"
      using t_alloc_post[OF inv A(1,3)] r(1) by (simp add: alloc_post_def)
    then have "live_blocks s' = live_blocks s"
      using live_blocks_tree[OF t] live_blocks_tree[OF A(5)] A(6) r(3) by simp
    moreover have "\<exists>b \<in> live_blocks s. extent b \<inter> extent (unat (m_buffer s) + j * block_bytes n, block_bytes n) \<noteq> {}"
      if "(j + 1) * block_bytes n \<le> bsize k"
    proof -
      have "(unat (m_buffer s) + j * block_bytes n, block_bytes n) = bytes_of (unat (m_buffer s) + j * bsize w, w)"
        using A(2) by (simp add: bytes_of_def)
      moreover have "\<exists>b \<in> blocks k (unat (m_buffer s)) t. rng b \<inter> rng (unat (m_buffer s) + j * bsize w, w) \<noteq> {}"
        using t_alloc_None[OF inv A(1) _ refl, of "unat (m_buffer s)" "m_node_index s" nx t' j] A(2,3) r(1) that by simp
      ultimately show ?thesis unfolding live_blocks_tree[OF t] by simp
    qed
    ultimately show ?thesis using r A(5,6) by (auto simp: buddy_inv_def)
  qed
  then show "e = Bad_alloc" "buddy_inv k s'" "m_buffer s' = m_buffer s" "live_blocks s' = live_blocks s"
    and "n \<noteq> 0 \<Longrightarrow> unat n \<le> bsize k \<Longrightarrow> (j + 1) * block_bytes n \<le> bsize k \<Longrightarrow>
      \<exists>b \<in> live_blocks s. extent b \<inter> extent (unat (m_buffer s) + j * block_bytes n, block_bytes n) \<noteq> {}"
    by auto
qed

lemma deallocate_live:
  assumes "buddy_inv k s" "(a, m) \<in> live_blocks s" "unat ptr \<in> extent (a, m)"
  shows "\<exists>s'. deallocate ptr s = (Inr (), s') \<and> buddy_inv k s' \<and> m_buffer s' = m_buffer s \<and>
     live_blocks s' = live_blocks s - {(a, m)}"
proof -
  obtain t where t: "buddy_tree k s t" using assms(1) by (auto simp: buddy_inv_def)
  then have inv: "t_inv k t" by (simp add: buddy_tree_def)
  obtain c where c: "c \<in> blocks k (unat (m_buffer s)) t" "(a, m) = bytes_of c"
    using assms(2) live_blocks_tree[OF t] by auto
  then have x: "unat ptr \<in> rng c" using assms(3) by simp
  then have pr: "unat (m_buffer s) \<le> unat ptr" "unat ptr < unat (m_buffer s) + bsize k"
    using rng_subset[OF c(1)] by auto
  moreover have "m_buffer s \<noteq> 0" using t by (simp add: buddy_tree_def)
  ultimately have "ptr \<noteq> 0" using unat_gt_0[of "m_buffer s"] by auto
  then obtain r t' s' where D: "t_dealloc k (unat (m_buffer s)) (unat ptr) t = (r, t')"
      "deallocate ptr s = (Inr (), s')" "t_inv k t' \<longrightarrow> buddy_tree k s' t'" "m_buffer s' = m_buffer s"
    using deallocate_sim[OF t] by blast
  have post: "dealloc_post k (unat (m_buffer s)) (unat ptr) t r t'" by (rule t_dealloc_post[OF inv pr D(1)])
  then have t': "buddy_tree k s' t'" using D(3) by (simp add: dealloc_post_def)
  have "r" using post c(1) x by (auto simp: dealloc_post_def split: if_splits)
  then obtain b where b: "b \<in> blocks k (unat (m_buffer s)) t" "unat ptr \<in> rng b"
      "blocks k (unat (m_buffer s)) t' = blocks k (unat (m_buffer s)) t - {b}"
    using post by (auto simp: dealloc_post_def)
  have "b = c" by (rule blocks_same_point[OF inv b(1) c(1) b(2) x])
  then have "live_blocks s' = live_blocks s - {(a, m)}"
    using live_blocks_tree[OF t] live_blocks_tree[OF t'] D(4) b(3) c(2) by auto
  then show ?thesis using D(2,4) t' by (auto simp: buddy_inv_def)
qed

lemma deallocate_other:
  assumes "buddy_inv k s" "unat (m_buffer s) \<le> unat ptr" "unat ptr < unat (m_buffer s) + bsize k"
    and "\<forall>b \<in> live_blocks s. unat ptr \<notin> extent b"
  shows "\<exists>s'. deallocate ptr s = (Inr (), s') \<and> buddy_inv k s' \<and> live_blocks s' = live_blocks s"
proof -
  obtain t where t: "buddy_tree k s t" using assms(1) by (auto simp: buddy_inv_def)
  then have inv: "t_inv k t" and "m_buffer s \<noteq> 0" by (simp_all add: buddy_tree_def)
  then have "ptr \<noteq> 0" using unat_gt_0[of "m_buffer s"] assms(2) by auto
  then obtain r t' s' where D: "t_dealloc k (unat (m_buffer s)) (unat ptr) t = (r, t')"
      "deallocate ptr s = (Inr (), s')" "t_inv k t' \<longrightarrow> buddy_tree k s' t'" "m_buffer s' = m_buffer s"
    using deallocate_sim[OF t] by blast
  have post: "dealloc_post k (unat (m_buffer s)) (unat ptr) t r t'" by (rule t_dealloc_post[OF inv assms(2,3) D(1)])
  moreover have "\<not> r" using post assms(4) live_blocks_tree[OF t] by (auto simp: dealloc_post_def)
  ultimately have "t' = t" by (simp add: dealloc_post_def)
  then have t': "buddy_tree k s' t" using D(3) inv by simp
  then show ?thesis using D(2,4) live_blocks_tree[OF t] live_blocks_tree[OF t'] by (auto simp: buddy_inv_def)
qed

lemma size_of_block:
  assumes "buddy_inv k s" "(a, m) \<in> live_blocks s" "unat ptr \<in> extent (a, m)"
  shows "size_of ptr s = (Inr (of_nat m), s)"
proof -
  obtain t where t: "buddy_tree k s t" using assms(1) by (auto simp: buddy_inv_def)
  then have inv: "t_inv k t" and nz: "m_buffer s \<noteq> 0" by (simp_all add: buddy_tree_def)
  obtain q w where c: "(q, w) \<in> blocks k (unat (m_buffer s)) t" "(a, m) = bytes_of (q, w)"
    using assms(2) live_blocks_tree[OF t] by auto
  then have x: "unat ptr \<in> rng (q, w)" using assms(3) by simp
  then have "unat (m_buffer s) \<le> unat ptr" using rng_subset[OF c(1)] by auto
  then have "ptr \<noteq> 0" using unat_gt_0[of "m_buffer s"] nz by auto
  then show ?thesis using size_of_sim[OF t] t_size_block[OF inv c(1) x] c(2) by (simp add: bytes_of_def)
qed

lemma make_buddy_inv:
  assumes "k < 48" "buffer \<noteq> 0" "unat buffer + bsize k \<le> 2 ^ 64" "2 ^ Suc k \<le> Suc (length ns)"
    and "\<forall>n \<in> set ns. child0 n = None \<and> child1 n = None"
  shows "buddy_inv k (make_buddy buffer k ns)" "live_blocks (make_buddy buffer k ns) = {}"
proof -
  have "(2 :: nat) \<le> 2 ^ Suc k" by (simp add: self_le_power)
  then have ne: "0 < length ns" using assms(4) by linarith
  let ?s = "make_buddy buffer k ns"
  have bs: "buffer_size k = of_nat (bsize k)"
    using assms(1) by (simp add: buffer_size_def bsize_def power_add)
  have mb: "m_buffer ?s = buffer" "m_node_index ?s = 1" by (simp_all add: make_buddy_def)
  have "rep (m_nodes ?s) k (unat buffer) (Tip 0 KUnused)"
    using ne assms(5) bs by (simp add: make_buddy_def node_ok_def)
  moreover have "fresh ?s" using assms(5) by (simp add: fresh_def make_buddy_def)
  ultimately have "holds ?s k (unat (m_buffer ?s)) (Tip 0 KUnused)"
    using mb by (simp add: holds_def del: rep.simps)
  then have t: "buddy_tree k ?s (Tip 0 KUnused)"
    using assms bs by (simp add: buddy_tree_def make_buddy_def)
  then show "buddy_inv k ?s" by (auto simp: buddy_inv_def)
  show "live_blocks ?s = {}" using live_blocks_tree[OF t] by simp
qed

text \<open>The buddy allocator is a block allocator.\<close>

interpretation buddy: block_allocator "buddy_inv k" live_blocks allocate deallocate block_bytes
proof unfold_locales
  fix s n q s' assume "buddy_inv k s" "allocate n s = (Inr q, s')"
  from allocate_live[OF this]
  show "buddy_inv k s' \<and> live_blocks s' = insert (unat q, block_bytes n) (live_blocks s) \<and>
      (\<forall>b \<in> live_blocks s. extent b \<inter> extent (unat q, block_bytes n) = {}) \<and>
      0 < unat n \<and> unat n \<le> block_bytes n" by simp
next
  fix s n e s' assume "buddy_inv k s" "allocate n s = (Inl e, s')"
  from allocate_error(1-4)[OF this]
  show "e = Bad_alloc \<and> buddy_inv k s' \<and> live_blocks s' = live_blocks s" by simp
next
  fix s m and q :: u64
  assume A: "buddy_inv k s" "(unat q, m) \<in> live_blocks s"
  have "0 < m" using A live_blocks_tree[of k s] by (auto simp: buddy_inv_def bytes_of_def)
  then have "unat q \<in> extent (unat q, m)" by (simp add: extent_def)
  from deallocate_live[OF A this]
  show "\<exists>s'. deallocate q s = (Inr (), s') \<and> buddy_inv k s' \<and> live_blocks s' = live_blocks s - {(unat q, m)}"
    by blast
qed

section \<open>The contract\<close>

text \<open>
  C1. A successful \<open>allocate\<close> returns a block that overlaps no live block, lies inside the
  buffer, is aligned to its own size relative to the buffer, and has the requested size rounded
  up to a power of two of at least a page, less than twice the request above one page; the block
  is added to the live blocks and nothing else changes.
\<close>

theorem allocate_spec:
  assumes "buddy_inv k s" "allocate n s = (Inr q, s')"
  shows "buddy_inv k s' \<and> m_buffer s' = m_buffer s \<and>
    live_blocks s' = insert (unat q, block_bytes n) (live_blocks s) \<and>
    (\<forall>b \<in> live_blocks s. extent b \<inter> extent (unat q, block_bytes n) = {}) \<and>
    unat (m_buffer s) \<le> unat q \<and> unat q + block_bytes n \<le> unat (m_buffer s) + bsize k \<and>
    block_bytes n dvd unat q - unat (m_buffer s) \<and>
    0 < unat n \<and> unat n \<le> block_bytes n \<and> (block_bytes n = 4096 \<or> block_bytes n < 2 * unat n)"
  using allocate_live[OF assms] by simp


text \<open>
  C3. Releasing any pointer into a live block (its start, or any byte of it) succeeds and makes
  exactly that block free again.
\<close>

theorem deallocate_spec:
  assumes "buddy_inv k s" "(a, m) \<in> live_blocks s" "unat ptr \<in> extent (a, m)"
  shows "\<exists>s'. deallocate ptr s = (Inr (), s') \<and> buddy_inv k s' \<and> m_buffer s' = m_buffer s \<and>
     live_blocks s' = live_blocks s - {(a, m)}"
  by (rule deallocate_live[OF assms])

text \<open>
  C4. \<open>size\<close> of a pointer into a live block is that block's size in bytes, and the call
  changes nothing.
\<close>

theorem size_of_spec:
  assumes "buddy_inv k s" "(a, m) \<in> live_blocks s" "unat ptr \<in> extent (a, m)"
  shows "size_of ptr s = (Inr (of_nat m), s)"
  by (rule size_of_block[OF assms])

text \<open>
  C5. A fresh allocator never hands out overlapping memory: however a client interleaves requests
  and releases of what it holds, the live blocks are those it holds, they are pairwise disjoint,
  every further request either succeeds or throws \<open>std::bad_alloc\<close>, and every release of
  a held pointer succeeds.  In particular no run leaves the node array or exhausts the recursion.
\<close>

theorem buddy_client_safe:
  assumes "k < 48" "buffer \<noteq> 0" "unat buffer + bsize k \<le> 2 ^ 64" "2 ^ Suc k \<le> Suc (length ns)"
    and "\<forall>n \<in> set ns. child0 n = None \<and> child1 n = None"
    and "client_run allocate deallocate (make_buddy buffer k ns) H s"
  shows "live_blocks s = set (held block_bytes H) \<and> apart (held block_bytes H) \<and>
    (\<forall>n. fst (allocate n s) \<in> insert (Inl Bad_alloc) (range Inr)) \<and>
    (\<forall>(q, n) \<in> set H. fst (deallocate q s) = Inr ())"
  using buddy.client_run_inv[OF assms(6) make_buddy_inv[OF assms(1-5)]]
    buddy.client_never_faults[OF assms(6) make_buddy_inv[OF assms(1-5)]] by blast

text \<open>
  C6. Releasing an address of the buffer that no live block covers, such as one already released,
  changes no live block: a double free is harmless while the block has not been handed out again.
\<close>

theorem deallocate_free_address:
  assumes "buddy_inv k s" "unat (m_buffer s) \<le> unat ptr" "unat ptr < unat (m_buffer s) + bsize k"
    and "\<forall>b \<in> live_blocks s. unat ptr \<notin> extent b"
  shows "\<exists>s'. deallocate ptr s = (Inr (), s') \<and> buddy_inv k s' \<and> live_blocks s' = live_blocks s"
  by (rule deallocate_other[OF assms])

section \<open>Concrete runs\<close>

text \<open>A pool of two pages at \<open>0x100000\<close>, and the same pool with its first page taken.\<close>

definition pool0 :: buddy_allocator where
  "pool0 = make_buddy 0x100000 1 (replicate 3 zero_node)"

definition pool1 :: buddy_allocator where
  "pool1 = snd (allocate 0x800 pool0)"

lemma pool0_inv: "buddy_inv 1 pool0" "live_blocks pool0 = {}"
  unfolding pool0_def by (rule make_buddy_inv; simp add: bsize_def zero_node_def)+

lemma pool0_alloc: "allocate 0x800 pool0 = (Inr 0x100000, pool1)"
  unfolding pool1_def prod_eq_iff fst_conv snd_conv by (intro conjI refl) code_simp

lemma block_bytes_pool: "block_bytes 0x800 = 0x1000"
  by code_simp

lemma pool1_inv: "buddy_inv 1 pool1" "live_blocks pool1 = {(0x100000, 0x1000)}" "m_buffer pool1 = 0x100000"
  using allocate_live(1-3)[OF pool0_inv(1) pool0_alloc] pool0_inv(2)
  by (simp_all add: block_bytes_pool) (simp add: pool0_def make_buddy_def)

theorem allocate_spec_witness:
  "allocate 0x800 pool0 = (Inr 0x100000, pool1) \<and> live_blocks pool1 = {(0x100000, 0x1000)}"
  using allocate_spec[OF pool0_inv(1) pool0_alloc] pool0_inv(2) pool0_alloc
  by (simp add: block_bytes_pool)


theorem deallocate_spec_witness:
  "\<exists>s'. deallocate 0x100234 pool1 = (Inr (), s') \<and> live_blocks s' = {}"
  using deallocate_spec[OF pool1_inv(1), of "0x100000" "0x1000" "0x100234"] pool1_inv(2)
  by (auto simp: extent_def)

theorem size_of_spec_witness: "size_of 0x100000 pool1 = (Inr 0x1000, pool1)"
  using size_of_spec[OF pool1_inv(1), of "0x100000" "0x1000" "0x100000"] pool1_inv(2)
  by (auto simp: extent_def)

theorem buddy_client_safe_witness:
  "live_blocks pool1 = set (held block_bytes [(0x100000, 0x800)]) \<and> fst (deallocate 0x100000 pool1) = Inr ()"
proof -
  have "client_run allocate deallocate (make_buddy 0x100000 1 (replicate 3 zero_node)) [(0x100000, 0x800)] pool1"
    unfolding pool0_def[symmetric]
    by (rule client_run.take[where s = pool0 and H = "[]"]) (rule client_run.start, rule pool0_alloc)
  from buddy_client_safe[OF _ _ _ _ _ this] show ?thesis by (simp add: bsize_def zero_node_def)
qed

theorem deallocate_free_address_witness:
  "\<exists>s'. deallocate 0x101000 pool1 = (Inr (), s') \<and> live_blocks s' = {(0x100000, 0x1000)}"
  using deallocate_free_address[OF pool1_inv(1), of "0x101000"] pool1_inv(2,3)
  by (auto simp: extent_def bsize_def)

end
