(* ===== verification/Object_Allocator.thy ===== *)
theory Object_Allocator
  imports Prelude
begin

text \<open>
  The slab allocator, \<open>src/bareflank/bfvmm/include/memory_manager/object_allocator.h\<close>.

  An allocator hands out objects of one size.  Its book-keeping lives in pages of its own: a stack
  of \<open>page_stack_t\<close> pages lists the data pages, a stack of \<open>object_stack_t\<close> pages
  provides the \<open>object_t\<close> cells, and the cells are threaded through their \<open>next\<close>
  pointers into a free list and a used list.

  The cells are kept in one store \<open>m_objs\<close>: the cell in slot \<open>i\<close> of the
  \<open>n\<close>-th object stack page (from the bottom) has index \<open>255 * n + i\<close>, and pointers to
  cells are such indices.  The stacks of pages are lists with the top first; each element carries
  the address of the page it occupies.  Pages come from \<open>alloc_page\<close> and go back through
  \<open>free_page\<close>, which act on the provider's state, the second component of the state here.
  The provider hands out zeroed pages.
\<close>

abbreviation pagepool_size :: nat where
  "pagepool_size \<equiv> 255"

abbreviation objtpool_size :: nat where
  "objtpool_size \<equiv> 255"

record object_t =
  obj_addr :: u64
  obj_next :: "nat option"

record object_stack_t =
  os_page :: u64
  os_index :: nat

record page_t =
  page_addr :: u64
  page_index :: u64

record page_stack_t =
  ps_page :: u64
  ps_pool :: "page_t list"
  ps_index :: nat

record basic_object_allocator =
  m_free_stack_top :: "nat option"
  m_used_stack_top :: "nat option"
  m_page_stack :: "page_stack_t list"
  m_objt_stack :: "object_stack_t list"
  m_objs :: "object_t list"
  m_size :: u64
  m_max_pages :: u64
  m_pages_consumed :: u64

type_synonym 'p slab = "basic_object_allocator \<times> 'p"

section \<open>Access to the two parts of the state\<close>

definition slabE :: "(basic_object_allocator \<Rightarrow> 'a) \<Rightarrow> ('p slab, 'a) op" where
  "slabE f = getE (\<lambda>s. f (fst s))"

definition putE :: "(basic_object_allocator \<Rightarrow> basic_object_allocator) \<Rightarrow> ('p slab, unit) op" where
  "putE f = modifyE (\<lambda>s. (f (fst s), snd s))"

definition provE :: "('p, 'a) op \<Rightarrow> ('p slab, 'a) op" where
  "provE m = (\<lambda>s. case m (snd s) of (r, p) \<Rightarrow> (r, (fst s, p)))"

definition obj_at :: "nat \<Rightarrow> ('p slab, object_t) op" where
  "obj_at i = (\<lambda>s. if i < length (m_objs (fst s)) then (Inr (m_objs (fst s) ! i), s) else (Inl Out_of_bounds, s))"

definition set_obj :: "nat \<Rightarrow> (object_t \<Rightarrow> object_t) \<Rightarrow> ('p slab, unit) op" where
  "set_obj i f = (\<lambda>s. if i < length (m_objs (fst s))
     then (Inr (), ((fst s)\<lparr>m_objs := (m_objs (fst s))[i := f (m_objs (fst s) ! i)]\<rparr>, snd s))
     else (Inl Out_of_bounds, s))"

definition derefE :: "'a option \<Rightarrow> ('s, 'a) op" where
  "derefE p = (case p of None \<Rightarrow> throwE Null_deref | Some i \<Rightarrow> returnE i)"

section \<open>Page and cell supply\<close>

definition oa_alloc :: "('p, u64) op \<Rightarrow> ('p slab, u64) op" where
  "oa_alloc alloc_page =
     bindE (provE alloc_page) (\<lambda>addr. if addr \<noteq> 0 then returnE addr else throwE Runtime_error)"

definition oa_free :: "(u64 \<Rightarrow> ('p, unit) op) \<Rightarrow> u64 \<Rightarrow> ('p slab, unit) op" where
  "oa_free free_page ptr = provE (free_page ptr)"

definition expand_page_stack :: "('p, u64) op \<Rightarrow> ('p slab, unit) op" where
  "expand_page_stack alloc_page =
     bindE (oa_alloc alloc_page) (\<lambda>next.
     putE (\<lambda>a. a\<lparr>m_page_stack :=
       \<lparr>ps_page = next, ps_pool = replicate pagepool_size \<lparr>page_addr = 0, page_index = 0\<rparr>, ps_index = 0\<rparr>
       # m_page_stack a\<rparr>))"

definition expand_object_stack :: "('p, u64) op \<Rightarrow> ('p slab, unit) op" where
  "expand_object_stack alloc_page =
     bindE (oa_alloc alloc_page) (\<lambda>next.
     putE (\<lambda>a. a\<lparr>m_objt_stack := \<lparr>os_page = next, os_index = 0\<rparr> # m_objt_stack a,
                m_objs := m_objs a @ replicate objtpool_size \<lparr>obj_addr = 0, obj_next = None\<rparr>\<rparr>))"

definition get_next_page :: "('p, u64) op \<Rightarrow> ('p slab, page_t) op" where
  "get_next_page alloc_page =
     bindE (slabE (\<lambda>a. m_max_pages a \<noteq> 0 \<and> m_pages_consumed a \<ge> m_max_pages a)) (\<lambda>full.
     if full then throwE Runtime_error
     else
       bindE (slabE m_page_stack) (\<lambda>st.
       seqE (if st = [] \<or> ps_index (hd st) = pagepool_size then expand_page_stack alloc_page else returnE ())
      (bindE (slabE m_page_stack) (\<lambda>st.
         case st of
           [] \<Rightarrow> throwE Null_deref
         | tp # rest \<Rightarrow>
             if ps_index tp < pagepool_size then
               bindE (provE alloc_page) (\<lambda>addr.
               let page = \<lparr>page_addr = addr, page_index = 0\<rparr> in
               seqE (putE (\<lambda>a. a\<lparr>m_page_stack := tp\<lparr>ps_pool := (ps_pool tp)[ps_index tp := page]\<rparr> # rest,
                                m_pages_consumed := m_pages_consumed a + 1\<rparr>))
              (seqE (putE (\<lambda>a. a\<lparr>m_page_stack :=
                        (case m_page_stack a of [] \<Rightarrow> [] | t # r \<Rightarrow> t\<lparr>ps_index := ps_index t + 1\<rparr> # r)\<rparr>))
                    (returnE page)))
             else throwE Expects_failed))))"

definition get_next_object :: "('p, u64) op \<Rightarrow> ('p slab, nat) op" where
  "get_next_object alloc_page =
     bindE (slabE m_objt_stack) (\<lambda>st.
     seqE (if st = [] \<or> os_index (hd st) = objtpool_size then expand_object_stack alloc_page else returnE ())
    (bindE (slabE m_objt_stack) (\<lambda>st.
       case st of
         [] \<Rightarrow> throwE Null_deref
       | tp # rest \<Rightarrow>
           if os_index tp < objtpool_size then
             seqE (putE (\<lambda>a. a\<lparr>m_objt_stack := tp\<lparr>os_index := os_index tp + 1\<rparr> # rest\<rparr>))
                  (returnE (objtpool_size * length rest + os_index tp))
           else throwE Expects_failed)))"

section \<open>The free and the used list\<close>

definition free_stack_push :: "nat \<Rightarrow> ('p slab, unit) op" where
  "free_stack_push next =
     bindE (slabE m_free_stack_top) (\<lambda>tp.
     seqE (set_obj next (\<lambda>x. x\<lparr>obj_next := tp\<rparr>))
          (putE (\<lambda>a. a\<lparr>m_free_stack_top := Some next\<rparr>)))"

definition used_stack_push :: "nat \<Rightarrow> ('p slab, unit) op" where
  "used_stack_push next =
     bindE (slabE m_used_stack_top) (\<lambda>tp.
     seqE (set_obj next (\<lambda>x. x\<lparr>obj_next := tp\<rparr>))
          (putE (\<lambda>a. a\<lparr>m_used_stack_top := Some next\<rparr>)))"

text \<open>
  The loop of \<open>add_to_free_stack\<close>.  \<open>view[i]\<close> is a checked access to a page-sized span.
  An allocator has \<open>m_size \<noteq> 0\<close> from its constructor on, so a page holds at most 4096 objects.
\<close>

primrec add_objects :: "nat \<Rightarrow> ('p, u64) op \<Rightarrow> page_t \<Rightarrow> u64 \<Rightarrow> ('p slab, unit) op" where
  "add_objects 0 alloc_page page i = throwE Out_of_fuel"
| "add_objects (Suc fuel) alloc_page page i =
     bindE (slabE m_size) (\<lambda>sz.
     if i + sz \<le> 0x1000 then
       bindE (get_next_object alloc_page) (\<lambda>object.
       seqE (free_stack_push object)
      (if i < 0x1000 then
         seqE (set_obj object (\<lambda>x. x\<lparr>obj_addr := page_addr page + i\<rparr>))
              (add_objects fuel alloc_page page (i + sz))
       else throwE Expects_failed))
     else returnE ())"

definition objects_fuel :: nat where
  "objects_fuel = 4097"

definition add_to_free_stack :: "('p, u64) op \<Rightarrow> ('p slab, unit) op" where
  "add_to_free_stack alloc_page =
     bindE (get_next_page alloc_page) (\<lambda>page. add_objects objects_fuel alloc_page page 0)"

definition free_stack_pop :: "('p, u64) op \<Rightarrow> ('p slab, nat) op" where
  "free_stack_pop alloc_page =
     bindE (slabE m_free_stack_top) (\<lambda>top0.
     seqE (if top0 = None then add_to_free_stack alloc_page else returnE ())
    (bindE (bindE (slabE m_free_stack_top) derefE) (\<lambda>tp.
     bindE (obj_at tp) (\<lambda>x.
     seqE (putE (\<lambda>a. a\<lparr>m_free_stack_top := obj_next x\<rparr>))
    (seqE (set_obj tp (\<lambda>x. x\<lparr>obj_next := None\<rparr>))
          (returnE tp))))))"

definition used_stack_pop :: "('p, u64) op \<Rightarrow> ('p slab, nat) op" where
  "used_stack_pop alloc_page =
     bindE (slabE m_used_stack_top) (\<lambda>top0.
     seqE (if top0 = None then bindE (get_next_object alloc_page) used_stack_push else returnE ())
    (bindE (bindE (slabE m_used_stack_top) derefE) (\<lambda>tp.
     bindE (obj_at tp) (\<lambda>x.
     seqE (putE (\<lambda>a. a\<lparr>m_used_stack_top := obj_next x\<rparr>))
    (seqE (set_obj tp (\<lambda>x. x\<lparr>obj_next := None\<rparr>))
          (returnE tp))))))"

section \<open>The public operations\<close>

definition slab_allocate :: "('p, u64) op \<Rightarrow> ('p slab, u64) op" where
  "slab_allocate alloc_page =
     bindE (free_stack_pop alloc_page) (\<lambda>objt.
     seqE (used_stack_push objt)
    (bindE (obj_at objt) (\<lambda>x. returnE (obj_addr x))))"

definition slab_deallocate :: "('p, u64) op \<Rightarrow> u64 \<Rightarrow> ('p slab, unit) op" where
  "slab_deallocate alloc_page p =
     bindE (used_stack_pop alloc_page) (\<lambda>objt.
     seqE (free_stack_push objt)
          (set_obj objt (\<lambda>x. x\<lparr>obj_addr := p\<rparr>)))"

definition in_page :: "u64 \<Rightarrow> page_t \<Rightarrow> bool" where
  "in_page p page \<longleftrightarrow> p \<ge> page_addr page \<and> p < page_addr page + 0x1000"

definition slab_contains :: "basic_object_allocator \<Rightarrow> u64 \<Rightarrow> bool" where
  "slab_contains a p \<longleftrightarrow>
     list_ex (\<lambda>next. list_ex (in_page p) (take (ps_index next) (ps_pool next))) (m_page_stack a)"

definition slab_size :: "basic_object_allocator \<Rightarrow> u64 \<Rightarrow> u64" where
  "slab_size a ptr = m_size a"

definition page_stack_size :: "basic_object_allocator \<Rightarrow> nat" where
  "page_stack_size a = length (m_page_stack a)"

definition objt_stack_size :: "basic_object_allocator \<Rightarrow> nat" where
  "objt_stack_size a = length (m_objt_stack a)"

definition num_page :: "basic_object_allocator \<Rightarrow> nat" where
  "num_page a = sum_list (map ps_index (m_page_stack a))"

text \<open>Walking a list of cells from its top; the lists have at most one cell per slot of the store.\<close>

primrec list_length :: "nat \<Rightarrow> object_t list \<Rightarrow> nat option \<Rightarrow> nat" where
  "list_length 0 objs next = 0"
| "list_length (Suc fuel) objs next =
     (case next of None \<Rightarrow> 0 | Some i \<Rightarrow> Suc (list_length fuel objs (obj_next (objs ! i))))"

definition num_free :: "basic_object_allocator \<Rightarrow> nat" where
  "num_free a = list_length (Suc (length (m_objs a))) (m_objs a) (m_free_stack_top a)"

definition num_used :: "basic_object_allocator \<Rightarrow> nat" where
  "num_used a = list_length (Suc (length (m_objs a))) (m_objs a) (m_used_stack_top a)"

definition empty_allocator :: basic_object_allocator where
  "empty_allocator = \<lparr>m_free_stack_top = None, m_used_stack_top = None, m_page_stack = [],
     m_objt_stack = [], m_objs = [], m_size = 0, m_max_pages = 0, m_pages_consumed = 0\<rparr>"

text \<open>The constructor; \<open>guard_exceptions\<close> keeps what was set up before an exception.\<close>

definition make_slab :: "('p, u64) op \<Rightarrow> u64 \<Rightarrow> u64 \<Rightarrow> ('p slab, unit) op" where
  "make_slab alloc_page sz max_pages =
     seqE (putE (\<lambda>a. empty_allocator\<lparr>m_size := sz, m_max_pages := max_pages\<rparr>))
    (tryE
      (seqE (putE (\<lambda>a. if m_size a = 0 then a\<lparr>m_size := 1\<rparr> else a))
            (if max_pages \<noteq> 0 then forE [0 ..< unat max_pages] (\<lambda>i. add_to_free_stack alloc_page)
             else returnE ()))
      (returnE ()))"

definition cleanup :: "(u64 \<Rightarrow> ('p, unit) op) \<Rightarrow> ('p slab, unit) op" where
  "cleanup free_page =
     tryE
      (bindE (slabE m_page_stack) (\<lambda>st.
       seqE (forE st (\<lambda>tp.
         seqE (forE (take (ps_index tp) (ps_pool tp)) (\<lambda>page. provE (free_page (page_addr page))))
        (seqE (oa_free free_page (ps_page tp))
              (putE (\<lambda>a. a\<lparr>m_page_stack := tl (m_page_stack a)\<rparr>)))))
      (bindE (slabE m_objt_stack) (\<lambda>ot.
       seqE (forE ot (\<lambda>tp.
         seqE (oa_free free_page (os_page tp))
              (putE (\<lambda>a. a\<lparr>m_objt_stack := tl (m_objt_stack a)\<rparr>))))
            (putE (\<lambda>a. empty_allocator))))))
      (returnE ())"

definition destroy_slab :: "(u64 \<Rightarrow> ('p, unit) op) \<Rightarrow> ('p slab, unit) op" where
  "destroy_slab free_page =
     bindE (slabE m_used_stack_top) (\<lambda>used.
     if used \<noteq> None then returnE () else cleanup free_page)"

text \<open>Move assignment from a different allocator: the pair of the new \<open>this\<close> and \<open>other\<close>.\<close>

definition move_slab ::
  "(u64 \<Rightarrow> ('p, unit) op) \<Rightarrow> basic_object_allocator \<Rightarrow> ('p slab, basic_object_allocator) op" where
  "move_slab free_page other =
     seqE (destroy_slab free_page)
    (seqE (putE (\<lambda>a. other))
          (returnE empty_allocator))"

section \<open>The typed wrapper\<close>

definition object_allocator_allocate :: "('p, u64) op \<Rightarrow> u64 \<Rightarrow> ('p slab, u64) op" where
  "object_allocator_allocate alloc_page n =
     (if n \<noteq> 1 then provE alloc_page else slab_allocate alloc_page)"

definition object_allocator_deallocate ::
  "('p, u64) op \<Rightarrow> (u64 \<Rightarrow> ('p, unit) op) \<Rightarrow> u64 \<Rightarrow> u64 \<Rightarrow> ('p slab, unit) op" where
  "object_allocator_deallocate alloc_page free_page p n =
     (if n \<noteq> 1 then provE (free_page p) else slab_deallocate alloc_page p)"

end
