(* ===== verification/Slab_Spec.thy ===== *)
theory Slab_Spec
  imports Object_Allocator Alloc_Interface
begin

text \<open>
  Correctness of the slab allocator over any page provider.  The free and the used list are chains
  through the cell store; the invariant relates the addresses on the free list, together with those
  a client holds, to the slots of the data pages.
\<close>

section \<open>Chains of cells\<close>

primrec chain :: "object_t list \<Rightarrow> nat option \<Rightarrow> nat list \<Rightarrow> bool" where
  "chain objs p [] \<longleftrightarrow> p = None"
| "chain objs p (i # is) \<longleftrightarrow> p = Some i \<and> i < length objs \<and> chain objs (obj_next (objs ! i)) is"

lemma chain_update [simp]: "j \<notin> set is \<Longrightarrow> chain (objs[j := x]) p is \<longleftrightarrow> chain objs p is"
  by (induction "is" arbitrary: p) auto

lemma chain_update_addr [simp]:
  "obj_next x = obj_next (objs ! j) \<Longrightarrow> chain (objs[j := x]) p is \<longleftrightarrow> chain objs p is"
proof (induction "is" arbitrary: p)
  case (Cons i "is")
  then show ?case by (cases "i = j"; cases "j < length objs") (auto simp: list_update_beyond)
qed simp

lemma chain_append: "chain objs p is \<Longrightarrow> chain (objs @ ys) p is"
  by (induction "is" arbitrary: p) (auto simp: nth_append)

lemma chain_bound: "chain objs p is \<Longrightarrow> i \<in> set is \<Longrightarrow> i < length objs"
  by (induction "is" arbitrary: p) auto

lemma chain_top: "chain objs p is \<Longrightarrow> p = (case is of [] \<Rightarrow> None | i # _ \<Rightarrow> Some i)"
  by (cases "is") auto

lemma list_length_chain: "chain objs p is \<Longrightarrow> length is < n \<Longrightarrow> list_length n objs p = length is"
proof (induction "is" arbitrary: p n)
  case (Cons i "is")
  then show ?case by (cases n) auto
qed (auto split: nat.splits simp: gr0_conv_Suc)

section \<open>Cells in use\<close>

definition ncells :: "basic_object_allocator \<Rightarrow> nat" where
  "ncells a = (case m_objt_stack a of [] \<Rightarrow> 0 | tp # rest \<Rightarrow> 255 * length rest + os_index tp)"

definition cells :: "nat list \<Rightarrow> nat list \<Rightarrow> basic_object_allocator \<Rightarrow> bool" where
  "cells F U a \<longleftrightarrow> chain (m_objs a) (m_free_stack_top a) F \<and> chain (m_objs a) (m_used_stack_top a) U \<and>
     distinct (F @ U) \<and> (\<forall>i \<in> set (F @ U). i < ncells a) \<and>
     length (m_objs a) = 255 * length (m_objt_stack a) \<and>
     (\<forall>x \<in> set (m_objt_stack a). os_index x \<le> 255)"

definition page_list :: "page_stack_t \<Rightarrow> u64 list" where
  "page_list st = map page_addr (take (ps_index st) (ps_pool st))"

definition data_pages :: "basic_object_allocator \<Rightarrow> u64 list" where
  "data_pages a = concat (map page_list (m_page_stack a))"

definition owned :: "basic_object_allocator \<Rightarrow> u64 list" where
  "owned a = map ps_page (m_page_stack a) @ map os_page (m_objt_stack a) @ data_pages a"

definition pstack_ok :: "basic_object_allocator \<Rightarrow> bool" where
  "pstack_ok a \<longleftrightarrow> (\<forall>st \<in> set (m_page_stack a). ps_index st \<le> 255 \<and> length (ps_pool st) = 255)"

definition same_cells :: "basic_object_allocator \<Rightarrow> basic_object_allocator \<Rightarrow> bool" where
  "same_cells a a' \<longleftrightarrow> m_objs a' = m_objs a \<and> m_free_stack_top a' = m_free_stack_top a \<and>
     m_used_stack_top a' = m_used_stack_top a \<and> m_objt_stack a' = m_objt_stack a \<and> m_size a' = m_size a"

text \<open>The addresses a page of objects of size \<open>sz\<close> is cut into.\<close>

definition slots :: "u64 \<Rightarrow> u64 \<Rightarrow> u64 list" where
  "slots sz q = map (\<lambda>j. q + of_nat (j * unat sz)) [0 ..< 4096 div unat sz]"

definition all_slots :: "basic_object_allocator \<Rightarrow> u64 list" where
  "all_slots a = concat (map (slots (m_size a)) (data_pages a))"

definition free_addrs :: "nat list \<Rightarrow> basic_object_allocator \<Rightarrow> u64 list" where
  "free_addrs F a = map (\<lambda>i. obj_addr (m_objs a ! i)) F"

lemma slot_unat:
  fixes q sz :: u64
  assumes "unat q + 4096 \<le> 2 ^ 64" "0 < unat sz" "j < 4096 div unat sz"
  shows "unat (q + of_nat (j * unat sz)) = unat q + j * unat sz" "Suc j * unat sz \<le> 4096"
proof -
  show b: "Suc j * unat sz \<le> 4096"
    using assms(2,3) by (metis less_eq_div_iff_mult_less_eq Suc_le_eq)
  then have j: "j * unat sz < 4096" using assms(2) by simp
  then have "unat (of_nat (j * unat sz) :: u64) = j * unat sz" by (intro unat_of_nat_u64) simp
  moreover have "unat q + j * unat sz < 2 ^ 64" using assms(1) j by linarith
  ultimately show "unat (q + of_nat (j * unat sz)) = unat q + j * unat sz"
    using unat_add_lem[of q "of_nat (j * unat sz)"] by simp
qed

lemma slots_inside:
  assumes "unat q + 4096 \<le> 2 ^ 64" "0 < unat sz" "x \<in> set (slots sz q)"
  shows "extent (unat x, unat sz) \<subseteq> extent (page_block q)"
proof -
  obtain j where j: "j < 4096 div unat sz" "x = q + of_nat (j * unat sz)"
    using assms(3) by (auto simp: slots_def)
  note u = slot_unat[OF assms(1,2) j(1)]
  show ?thesis using u j(2) by (auto simp: extent_def page_block_def)
qed

lemma slots_disjoint:
  fixes q sz :: u64
  assumes "unat q + 4096 \<le> 2 ^ 64" "0 < unat sz" "i < 4096 div unat sz" "j < 4096 div unat sz" "i \<noteq> j"
  shows "extent (unat (q + of_nat (i * unat sz)), unat sz) \<inter> extent (unat (q + of_nat (j * unat sz)), unat sz) = {}"
proof -
  have gap: "a * unat sz + unat sz \<le> b * unat sz" if "a < b" for a b :: nat
    using that mult_le_mono1[of "Suc a" b "unat sz"] by simp
  show ?thesis
    using gap[of i j] gap[of j i] assms(5) slot_unat(1)[OF assms(1,2,3)] slot_unat(1)[OF assms(1,2,4)]
    by (cases "i < j") (auto simp: extent_def)
qed

lemma extent_ne [simp]: "0 < n \<Longrightarrow> extent (a, n) \<noteq> {}"
  by (simp add: extent_def)

lemma slots_distinct:
  assumes "unat q + 4096 \<le> 2 ^ 64" "0 < unat sz"
  shows "distinct (slots sz q)"
  unfolding slots_def distinct_map
proof (intro conjI inj_onI)
  fix i j assume "i \<in> set [0 ..< 4096 div unat sz]" "j \<in> set [0 ..< 4096 div unat sz]"
    and "q + of_nat (i * unat sz) = q + of_nat (j * unat sz)"
  then show "i = j" using slots_disjoint[OF assms, of i j] extent_ne[OF assms(2)] by fastforce
qed simp

context page_provider
begin

definition foreign :: "'p slab \<Rightarrow> (nat \<times> nat) set" where
  "foreign s = plive (snd s) - page_block ` set (owned (fst s))"

definition core :: "nat list \<Rightarrow> nat list \<Rightarrow> 'p slab \<Rightarrow> bool" where
  "core F U s \<longleftrightarrow> cells F U (fst s) \<and> pstack_ok (fst s) \<and> pinv (snd s) \<and> distinct (owned (fst s)) \<and>
     (\<forall>q \<in> set (owned (fst s)). q \<noteq> 0 \<and> unat q + 4096 \<le> 2 ^ 64 \<and> page_block q \<in> plive (snd s))"

definition slab_inv :: "u64 \<Rightarrow> u64 list \<Rightarrow> 'p slab \<Rightarrow> bool" where
  "slab_inv sz H s \<longleftrightarrow> m_size (fst s) = sz \<and> 0 < unat sz \<and> unat sz \<le> 4096 \<and>
     (\<exists>F U. core F U s \<and> length U = length H \<and>
       mset (free_addrs F (fst s)) + mset H \<subseteq># mset (all_slots (fst s)))"

text \<open>What supplying cells leaves alone.\<close>

definition grow :: "'p slab \<Rightarrow> 'p slab \<Rightarrow> bool" where
  "grow s s' \<longleftrightarrow> m_page_stack (fst s') = m_page_stack (fst s) \<and> foreign s' = foreign s \<and>
     m_size (fst s') = m_size (fst s) \<and> m_free_stack_top (fst s') = m_free_stack_top (fst s) \<and>
     m_used_stack_top (fst s') = m_used_stack_top (fst s) \<and> ncells (fst s) \<le> ncells (fst s') \<and>
     (\<forall>i < ncells (fst s). m_objs (fst s') ! i = m_objs (fst s) ! i)"

lemma take_page:
  assumes "core F U s" "provE alloc_page s = (Inr q, s')"
  shows "fst s' = fst s" "q \<notin> set (owned (fst s))" "core F U s'"
    "q \<noteq> 0" "unat q + 4096 \<le> 2 ^ 64" "page_block q \<in> plive (snd s')"
    "plive (snd s') = insert (page_block q) (plive (snd s))" "page_block q \<notin> plive (snd s)"
proof -
  obtain a p p' where s: "s = (a, p)" "alloc_page p = (Inr q, p')" "s' = (a, p')"
    using assms(2) by (cases s) (auto simp: provE_def split: prod.splits)
  have inv: "pinv p" using assms(1) s by (simp add: core_def)
  note ok = page_ok[OF inv s(2)] page_new[OF inv s(2)]
  show "q \<notin> set (owned (fst s))" using assms(1) ok s by (auto simp: core_def page_block_def)
  show "fst s' = fst s" "core F U s'" "q \<noteq> 0" "unat q + 4096 \<le> 2 ^ 64" "page_block q \<in> plive (snd s')"
    "plive (snd s') = insert (page_block q) (plive (snd s))" "page_block q \<notin> plive (snd s)"
    using assms(1) ok s by (auto simp: core_def page_block_def)
qed

lemma no_page:
  assumes "core F U s" "provE alloc_page s = (Inl e, s')"
  shows "fst s' = fst s" "core F U s'" "plive (snd s') = plive (snd s)" "foreign s' = foreign s" "e \<in> insert Runtime_error perr"
proof -
  obtain a p p' where s: "s = (a, p)" "alloc_page p = (Inl e, p')" "s' = (a, p')"
    using assms(2) by (cases s) (auto simp: provE_def split: prod.splits)
  then have "pinv p" using assms(1) by (simp add: core_def)
  from page_err[OF this s(2)]
  show "fst s' = fst s" "core F U s'" "plive (snd s') = plive (snd s)" "foreign s' = foreign s" "e \<in> insert Runtime_error perr"
    using assms(1) s by (auto simp: core_def foreign_def)
qed

text \<open>Adding a freshly taken page to the pages the allocator owns.\<close>

lemma core_own:
  assumes "core F U s" "provE alloc_page s = (Inr q, s')"
    and "set (owned a') = insert q (set (owned (fst s)))" "length (owned a') = Suc (length (owned (fst s)))"
    and "cells F' U' a'" "pstack_ok a'"
  shows "core F' U' (a', snd s')" "foreign (a', snd s') = foreign s"
proof -
  note t = take_page[OF assms(1,2)]
  have "distinct (owned (fst s))" using assms(1) by (simp add: core_def)
  then have "card (set (owned a')) = length (owned a')"
    using assms(3,4) t(2) by (simp add: distinct_card)
  then have "distinct (owned a')" by (rule card_distinct)
  then show "core F' U' (a', snd s')" using t assms by (auto simp: core_def)
  show "foreign (a', snd s') = foreign s"
    using t(7,8) assms(3) by (auto simp: foreign_def)
qed

lemma oa_alloc_cases:
  assumes "core F U s" "oa_alloc alloc_page s = (r, s')"
  obtains (ok) q where "r = Inr q" "provE alloc_page s = (Inr q, s')"
    | (fail) e where "r = Inl e" "provE alloc_page s = (Inl e, s')"
  using assms(2) unfolding oa_alloc_def
proof (rule bindE_cases)
  fix q s1 assume q: "provE alloc_page s = (Inr q, s1)"
    "(if q \<noteq> 0 then returnE q else throwE Runtime_error) s1 = (r, s')"
  then show thesis using take_page(4)[OF assms(1) q(1)] ok by auto
qed (auto intro: fail)

lemma bindE_slabE: "bindE (slabE f) k s = k (f (fst s)) s"
  by (simp add: slabE_def)

lemma grow_refl [simp]: "grow s s"
  by (simp add: grow_def)

lemma grow_trans: "grow s s1 \<Longrightarrow> grow s1 s2 \<Longrightarrow> grow s s2"
  by (auto simp: grow_def)

lemma expand_object_stack_core:
  assumes "core F U s" "expand_object_stack alloc_page s = (r, s')"
    and "m_objt_stack (fst s) = [] \<or> os_index (hd (m_objt_stack (fst s))) = 255"
  shows "core F U s' \<and> grow s s' \<and>
    (case r of Inl e \<Rightarrow> e \<in> insert Runtime_error perr
     | Inr _ \<Rightarrow> m_objt_stack (fst s') \<noteq> [] \<and> os_index (hd (m_objt_stack (fst s'))) < 255)"
  using assms(2) unfolding expand_object_stack_def
proof (rule bindE_cases)
  fix e assume "oa_alloc alloc_page s = (Inl e, s')" "r = Inl e"
  then show ?thesis
    by (auto elim!: oa_alloc_cases[OF assms(1)] dest: no_page[OF assms(1)] simp: grow_def)
next
  fix q s1
  assume q: "oa_alloc alloc_page s = (Inr q, s1)"
    and w: "putE (\<lambda>a. a\<lparr>m_objt_stack := \<lparr>os_page = q, os_index = 0\<rparr> # m_objt_stack a,
      m_objs := m_objs a @ replicate objtpool_size \<lparr>obj_addr = 0, obj_next = None\<rparr>\<rparr>) s1 = (r, s')"
  have p: "provE alloc_page s = (Inr q, s1)" using q by (auto elim: oa_alloc_cases[OF assms(1)])
  let ?a = "(fst s)\<lparr>m_objt_stack := \<lparr>os_page = q, os_index = 0\<rparr> # m_objt_stack (fst s),
      m_objs := m_objs (fst s) @ replicate 255 \<lparr>obj_addr = 0, obj_next = None\<rparr>\<rparr>"
  have s': "s' = (?a, snd s1)" "r = Inr ()" using w take_page(1)[OF assms(1) p] by (auto simp: putE_def)
  have c: "cells F U (fst s)" using assms(1) by (simp add: core_def)
  have n: "ncells ?a = length (m_objs (fst s))" "ncells (fst s) = length (m_objs (fst s))"
    using c assms(3) by (cases "m_objt_stack (fst s)"; simp add: ncells_def cells_def)+
  then have "cells F U ?a" using c by (auto simp: cells_def intro: chain_append)
  moreover have "pstack_ok ?a" using assms(1) by (simp add: core_def pstack_ok_def)
  ultimately have "core F U s'" "foreign s' = foreign s"
    using core_own[OF assms(1) p, of ?a F U] s' by (auto simp: owned_def data_pages_def)
  then show ?thesis using s' n by (auto simp: grow_def nth_append)
qed

lemma take_cell:
  assumes "core F U s" "m_objt_stack (fst s) = tp # rest" "os_index tp < 255"
    and "s' = ((fst s)\<lparr>m_objt_stack := tp\<lparr>os_index := os_index tp + 1\<rparr> # rest\<rparr>, snd s)"
  shows "core F U s' \<and> grow s s' \<and> 255 * length rest + os_index tp = ncells (fst s) \<and>
    ncells (fst s') = Suc (ncells (fst s)) \<and> ncells (fst s) < length (m_objs (fst s'))"
proof -
  have n: "ncells (fst s) = 255 * length rest + os_index tp" "ncells (fst s') = Suc (ncells (fst s))"
    using assms(2,4) by (simp_all add: ncells_def)
  have "owned (fst s') = owned (fst s)" using assms(2,4) by (simp add: owned_def data_pages_def)
  moreover have "cells F U (fst s')" using assms n by (auto simp: cells_def core_def intro: less_SucI)
  moreover have "pstack_ok (fst s')" using assms by (simp add: core_def pstack_ok_def)
  ultimately have "core F U s'" "foreign s' = foreign s"
    using assms by (simp_all add: core_def foreign_def)
  moreover have "length (m_objs (fst s)) = 255 * Suc (length rest)"
    using assms(1,2) by (simp add: core_def cells_def)
  ultimately show ?thesis using assms n by (auto simp: grow_def)
qed

lemma get_next_object_core:
  assumes "core F U s" "get_next_object alloc_page s = (r, s')"
  shows "core F U s' \<and> grow s s' \<and>
    (case r of Inl e \<Rightarrow> e \<in> insert Runtime_error perr
     | Inr n \<Rightarrow> n < ncells (fst s') \<and> ncells (fst s) \<le> n \<and> n < length (m_objs (fst s')))"
proof -
  let ?st = "m_objt_stack (fst s)"
  define cond where "cond \<longleftrightarrow> ?st = [] \<or> os_index (hd ?st) = 255"
  have c: "cells F U (fst s)" using assms(1) by (simp add: core_def)
  from assms(2)[unfolded get_next_object_def bindE_slabE] show ?thesis
  proof (cases rule: seqE_cases)
    case (fail e)
    then have "cond" by (auto simp: cond_def split: if_splits)
    then show ?thesis
      using fail expand_object_stack_core[OF assms(1), of "Inl e" s'] by (simp add: cond_def)
  next
    case (ok u s1)
    have 1: "core F U s1 \<and> grow s s1 \<and> m_objt_stack (fst s1) \<noteq> [] \<and> os_index (hd (m_objt_stack (fst s1))) < 255"
    proof (cases cond)
      case True
      then show ?thesis
        using ok(1) expand_object_stack_core[OF assms(1), of "Inr u" s1] by (simp add: cond_def)
    next
      case False
      then have "?st \<noteq> []" "os_index (hd ?st) < 255"
        using c by (auto simp: cond_def cells_def neq_Nil_conv le_neq_implies_less)
      then show ?thesis using ok(1) False assms(1) by simp
    qed
    then obtain tp rest where st: "m_objt_stack (fst s1) = tp # rest" "os_index tp < 255"
      by (auto simp: neq_Nil_conv)
    then have s': "s' = ((fst s1)\<lparr>m_objt_stack := tp\<lparr>os_index := os_index tp + 1\<rparr> # rest\<rparr>, snd s1)"
        "r = Inr (255 * length rest + os_index tp)"
      using ok(2) by (auto simp: slabE_def putE_def)
    have 2: "core F U s' \<and> grow s1 s' \<and> 255 * length rest + os_index tp = ncells (fst s1) \<and>
        ncells (fst s') = Suc (ncells (fst s1)) \<and> ncells (fst s1) < length (m_objs (fst s'))"
      by (rule take_cell[OF _ st s'(1)]) (use 1 in simp)
    then have "grow s s'" using 1 grow_trans by blast
    moreover have "ncells (fst s) \<le> ncells (fst s1)" using 1 by (simp add: grow_def)
    ultimately show ?thesis using 2 s'(2) by simp
  qed
qed

lemma expand_page_stack_core:
  assumes "core F U s" "expand_page_stack alloc_page s = (r, s')"
  shows "core F U s' \<and> foreign s' = foreign s \<and> data_pages (fst s') = data_pages (fst s) \<and>
    same_cells (fst s) (fst s') \<and>
    (case r of Inl e \<Rightarrow> e \<in> insert Runtime_error perr
     | Inr _ \<Rightarrow> m_page_stack (fst s') \<noteq> [] \<and> ps_index (hd (m_page_stack (fst s'))) < 255)"
  using assms(2) unfolding expand_page_stack_def
proof (rule bindE_cases)
  fix e assume "oa_alloc alloc_page s = (Inl e, s')" "r = Inl e"
  then show ?thesis
    by (auto elim!: oa_alloc_cases[OF assms(1)] dest: no_page[OF assms(1)] simp: same_cells_def)
next
  fix q s1
  assume q: "oa_alloc alloc_page s = (Inr q, s1)"
    and w: "putE (\<lambda>a. a\<lparr>m_page_stack :=
       \<lparr>ps_page = q, ps_pool = replicate pagepool_size \<lparr>page_addr = 0, page_index = 0\<rparr>, ps_index = 0\<rparr>
       # m_page_stack a\<rparr>) s1 = (r, s')"
  have p: "provE alloc_page s = (Inr q, s1)" using q by (auto elim: oa_alloc_cases[OF assms(1)])
  let ?a = "(fst s)\<lparr>m_page_stack :=
       \<lparr>ps_page = q, ps_pool = replicate pagepool_size \<lparr>page_addr = 0, page_index = 0\<rparr>, ps_index = 0\<rparr>
       # m_page_stack (fst s)\<rparr>"
  have s': "s' = (?a, snd s1)" "r = Inr ()" using w take_page(1)[OF assms(1) p] by (auto simp: putE_def)
  have "cells F U ?a" "pstack_ok ?a"
    using assms(1) by (simp_all add: core_def cells_def pstack_ok_def ncells_def)
  then have "core F U s'" "foreign s' = foreign s"
    using core_own[OF assms(1) p, of ?a F U] s' by (auto simp: owned_def data_pages_def page_list_def)
  then show ?thesis using s' by (auto simp: data_pages_def page_list_def same_cells_def)
qed

lemma add_data_page:
  assumes "core F U s" "provE alloc_page s = (Inr q, s1)" "m_page_stack (fst s) = tp # rest" "ps_index tp < 255"
    and "s' = ((fst s)\<lparr>m_page_stack := tp\<lparr>ps_pool := (ps_pool tp)[ps_index tp := \<lparr>page_addr = q, page_index = 0\<rparr>],
                ps_index := ps_index tp + 1\<rparr> # rest, m_pages_consumed := m_pages_consumed (fst s) + 1\<rparr>, snd s1)"
  shows "core F U s' \<and> foreign s' = foreign s \<and> mset (data_pages (fst s')) = add_mset q (mset (data_pages (fst s)))"
proof -
  have len: "length (ps_pool tp) = 255" using assms(1,3) by (simp add: core_def pstack_ok_def)
  have pl: "page_list (tp\<lparr>ps_pool := (ps_pool tp)[ps_index tp := \<lparr>page_addr = q, page_index = 0\<rparr>],
                ps_index := ps_index tp + 1\<rparr>) = page_list tp @ [q]"
    using len assms(4) by (simp add: page_list_def take_Suc_conv_app_nth)
  have dp: "data_pages (fst s') = page_list tp @ q # concat (map page_list rest)"
    "data_pages (fst s) = page_list tp @ concat (map page_list rest)"
    using assms(3,5) pl by (simp_all add: data_pages_def)
  have "cells F U (fst s')" "pstack_ok (fst s')"
    using assms by (auto simp: core_def cells_def pstack_ok_def ncells_def)
  moreover have "set (owned (fst s')) = insert q (set (owned (fst s)))"
      "length (owned (fst s')) = Suc (length (owned (fst s)))"
    using dp assms(3,5) by (auto simp: owned_def)
  ultimately have "core F U s'" "foreign s' = foreign s"
    using core_own[OF assms(1,2), of "fst s'" F U] assms(5) by auto
  then show ?thesis using dp by simp
qed

lemma get_next_page_core:
  assumes "core F U s" "get_next_page alloc_page s = (r, s')"
  shows "core F U s' \<and> foreign s' = foreign s \<and> same_cells (fst s) (fst s') \<and>
    (case r of Inl e \<Rightarrow> e \<in> insert Runtime_error perr \<and> data_pages (fst s') = data_pages (fst s)
     | Inr pg \<Rightarrow> mset (data_pages (fst s')) = add_mset (page_addr pg) (mset (data_pages (fst s))))"
proof -
  let ?st = "m_page_stack (fst s)"
  show ?thesis
  proof (cases "m_max_pages (fst s) \<noteq> 0 \<and> m_pages_consumed (fst s) \<ge> m_max_pages (fst s)")
    case True
    then show ?thesis using assms by (auto simp: get_next_page_def bindE_slabE same_cells_def)
  next
    case notfull: False
    from assms(2) notfull have "seqE (if ?st = [] \<or> ps_index (hd ?st) = pagepool_size
        then expand_page_stack alloc_page else returnE ())
      (bindE (slabE m_page_stack) (\<lambda>st. case st of [] \<Rightarrow> throwE Null_deref
         | tp # rest \<Rightarrow> if ps_index tp < pagepool_size then
               bindE (provE alloc_page) (\<lambda>addr.
               let page = \<lparr>page_addr = addr, page_index = 0\<rparr> in
               seqE (putE (\<lambda>a. a\<lparr>m_page_stack := tp\<lparr>ps_pool := (ps_pool tp)[ps_index tp := page]\<rparr> # rest,
                                m_pages_consumed := m_pages_consumed a + 1\<rparr>))
              (seqE (putE (\<lambda>a. a\<lparr>m_page_stack :=
                        (case m_page_stack a of [] \<Rightarrow> [] | t # r \<Rightarrow> t\<lparr>ps_index := ps_index t + 1\<rparr> # r)\<rparr>))
                    (returnE page)))
             else throwE Expects_failed)) s = (r, s')"
      unfolding get_next_page_def bindE_slabE by (simp only: if_False)
    then show ?thesis
    proof (cases rule: seqE_cases)
      case (fail e)
      then have "expand_page_stack alloc_page s = (Inl e, s')" by (auto split: if_splits)
      from expand_page_stack_core[OF assms(1) this] fail(2) show ?thesis by auto
    next
      case (ok u s1)
      have 1: "core F U s1 \<and> foreign s1 = foreign s \<and> data_pages (fst s1) = data_pages (fst s) \<and>
          same_cells (fst s) (fst s1) \<and>
          m_page_stack (fst s1) \<noteq> [] \<and> ps_index (hd (m_page_stack (fst s1))) < 255"
      proof (cases "?st = [] \<or> ps_index (hd ?st) = 255")
        case True
        then show ?thesis using ok(1) expand_page_stack_core[OF assms(1), of "Inr u" s1] by simp
      next
        case False
        then have "ps_index (hd ?st) < 255"
          using assms(1) by (auto simp: core_def pstack_ok_def neq_Nil_conv le_neq_implies_less)
        then show ?thesis using ok(1) False assms(1) by (auto simp: same_cells_def)
      qed
      then obtain tp rest where st: "m_page_stack (fst s1) = tp # rest" "ps_index tp < 255"
        and c1: "core F U s1" "foreign s1 = foreign s" "data_pages (fst s1) = data_pages (fst s)"
          "same_cells (fst s) (fst s1)"
        by (auto simp: neq_Nil_conv)
      obtain ra s2 where Pair: "provE alloc_page s1 = (ra, s2)" by (rule prod.exhaust)
      show ?thesis
        proof (cases ra)
          case (Inl e)
          then have "r = Inl e" "s' = s2" using ok(2) st Pair by (auto simp: slabE_def bindE_def)
          then show ?thesis using no_page[OF c1(1)] Pair Inl c1 by (auto simp: same_cells_def)
        next
          case (Inr q)
          then have p: "provE alloc_page s1 = (Inr q, s2)" using Pair by simp
          have s': "s' = ((fst s1)\<lparr>m_page_stack := tp\<lparr>ps_pool := (ps_pool tp)[ps_index tp := \<lparr>page_addr = q, page_index = 0\<rparr>],
                ps_index := ps_index tp + 1\<rparr> # rest, m_pages_consumed := m_pages_consumed (fst s1) + 1\<rparr>, snd s2)"
              "r = Inr \<lparr>page_addr = q, page_index = 0\<rparr>"
            using ok(2) st p take_page(1)[OF c1(1) p] by (auto simp: slabE_def bindE_def seqE_def putE_def Let_def)
          from add_data_page[OF c1(1) p st s'(1)] c1 s' show ?thesis by (auto simp: same_cells_def)
      qed
    qed
  qed
qed

lemma core_cells:
  assumes "core F U s" "cells F' U' a'"
    and "m_page_stack a' = m_page_stack (fst s)" "m_objt_stack a' = m_objt_stack (fst s)"
  shows "core F' U' (a', snd s)" "foreign (a', snd s) = foreign s" "data_pages a' = data_pages (fst s)"
    "ncells a' = ncells (fst s)"
proof -
  have "owned a' = owned (fst s)" using assms(3,4) by (simp add: owned_def data_pages_def)
  then show "core F' U' (a', snd s)" "foreign (a', snd s) = foreign s"
    using assms by (simp_all add: core_def foreign_def pstack_ok_def)
  show "data_pages a' = data_pages (fst s)" "ncells a' = ncells (fst s)"
    using assms by (simp_all add: data_pages_def ncells_def)
qed

lemma free_push:
  assumes "core F U s" "n \<notin> set (F @ U)" "n < ncells (fst s)" "n < length (m_objs (fst s))"
  shows "\<exists>s'. free_stack_push n s = (Inr (), s') \<and> core (n # F) U s' \<and> foreign s' = foreign s \<and>
     m_page_stack (fst s') = m_page_stack (fst s) \<and> m_size (fst s') = m_size (fst s) \<and> ncells (fst s') = ncells (fst s) \<and>
     snd s' = snd s \<and> length (m_objs (fst s')) = length (m_objs (fst s)) \<and>
     (\<forall>i. obj_addr (m_objs (fst s') ! i) = obj_addr (m_objs (fst s) ! i))"
proof -
  let ?a = "(fst s)\<lparr>m_objs := (m_objs (fst s))[n := (m_objs (fst s) ! n)\<lparr>obj_next := m_free_stack_top (fst s)\<rparr>],
      m_free_stack_top := Some n\<rparr>"
  have "cells (n # F) U ?a" using assms by (auto simp: core_def cells_def ncells_def)
  from core_cells[OF assms(1) this]
  have "core (n # F) U (?a, snd s)" "foreign (?a, snd s) = foreign s" "ncells ?a = ncells (fst s)" by simp_all
  moreover have "free_stack_push n s = (Inr (), (?a, snd s))"
    using assms(4) by (simp add: free_stack_push_def slabE_def set_obj_def putE_def seqE_def bindE_def)
  moreover have "obj_addr (m_objs ?a ! i) = obj_addr (m_objs (fst s) ! i)" for i
    using assms(4) by (simp add: nth_list_update)
  ultimately show ?thesis by (intro exI[of _ "(?a, snd s)"]) simp
qed

lemma used_push:
  assumes "core F U s" "n \<notin> set (F @ U)" "n < ncells (fst s)" "n < length (m_objs (fst s))"
  shows "\<exists>s'. used_stack_push n s = (Inr (), s') \<and> core F (n # U) s' \<and> foreign s' = foreign s \<and>
     m_page_stack (fst s') = m_page_stack (fst s) \<and> m_size (fst s') = m_size (fst s) \<and>
     snd s' = snd s \<and> length (m_objs (fst s')) = length (m_objs (fst s)) \<and>
     (\<forall>i. obj_addr (m_objs (fst s') ! i) = obj_addr (m_objs (fst s) ! i))"
proof -
  let ?a = "(fst s)\<lparr>m_objs := (m_objs (fst s))[n := (m_objs (fst s) ! n)\<lparr>obj_next := m_used_stack_top (fst s)\<rparr>],
      m_used_stack_top := Some n\<rparr>"
  have "cells F (n # U) ?a" using assms by (auto simp: core_def cells_def ncells_def)
  from core_cells[OF assms(1) this]
  have "core F (n # U) (?a, snd s)" "foreign (?a, snd s) = foreign s" by simp_all
  moreover have "used_stack_push n s = (Inr (), (?a, snd s))"
    using assms(4) by (simp add: used_stack_push_def slabE_def set_obj_def putE_def seqE_def bindE_def)
  moreover have "obj_addr (m_objs ?a ! i) = obj_addr (m_objs (fst s) ! i)" for i
    using assms(4) by (simp add: nth_list_update)
  ultimately show ?thesis by (intro exI[of _ "(?a, snd s)"]) simp
qed

lemma set_addr:
  assumes "core F U s" "n < length (m_objs (fst s))"
  shows "\<exists>s'. set_obj n (\<lambda>x. x\<lparr>obj_addr := q\<rparr>) s = (Inr (), s') \<and> core F U s' \<and> foreign s' = foreign s \<and>
     m_page_stack (fst s') = m_page_stack (fst s) \<and> m_size (fst s') = m_size (fst s) \<and> snd s' = snd s \<and>
     (\<forall>i. obj_addr (m_objs (fst s') ! i) = (if i = n then q else obj_addr (m_objs (fst s) ! i)))"
proof -
  let ?a = "(fst s)\<lparr>m_objs := (m_objs (fst s))[n := (m_objs (fst s) ! n)\<lparr>obj_addr := q\<rparr>]\<rparr>"
  have "cells F U ?a" using assms by (auto simp: core_def cells_def ncells_def)
  from core_cells[OF assms(1) this]
  have "core F U (?a, snd s)" "foreign (?a, snd s) = foreign s" by simp_all
  then show ?thesis
    using assms(2) by (intro exI[of _ "(?a, snd s)"]) (simp add: set_obj_def nth_list_update)
qed

lemma free_addrs_cong:
  "(\<And>i. i \<in> set F \<Longrightarrow> obj_addr (m_objs b ! i) = obj_addr (m_objs a ! i)) \<Longrightarrow> free_addrs F b = free_addrs F a"
  by (simp add: free_addrs_def)

text \<open>One round of the loop: a cell is taken, pushed and pointed at the object.\<close>

lemma add_object_step:
  assumes "core F U s" "get_next_object alloc_page s = (Inr n, s1)"
  shows "\<exists>s2 s3. free_stack_push n s1 = (Inr (), s2) \<and> set_obj n (\<lambda>x. x\<lparr>obj_addr := q\<rparr>) s2 = (Inr (), s3) \<and>
     core (n # F) U s3 \<and> foreign s3 = foreign s \<and> m_page_stack (fst s3) = m_page_stack (fst s) \<and>
     m_size (fst s3) = m_size (fst s) \<and> free_addrs (n # F) (fst s3) = q # free_addrs F (fst s)"
proof -
  note g = get_next_object_core[OF assms]
  have c: "cells F U (fst s)" using assms(1) by (simp add: core_def)
  then have "\<forall>i \<in> set (F @ U). i < ncells (fst s)" by (simp add: cells_def)
  moreover have "ncells (fst s) \<le> n" using g by simp
  ultimately have fresh: "n \<notin> set (F @ U)" using leD by blast
  obtain s2 where s2: "free_stack_push n s1 = (Inr (), s2)" "core (n # F) U s2" "foreign s2 = foreign s1"
      "m_page_stack (fst s2) = m_page_stack (fst s1)" "m_size (fst s2) = m_size (fst s1)"
      "length (m_objs (fst s2)) = length (m_objs (fst s1))"
      "\<forall>i. obj_addr (m_objs (fst s2) ! i) = obj_addr (m_objs (fst s1) ! i)"
    using free_push[of F U s1 n] g fresh by auto
  have "n < length (m_objs (fst s2))" using g s2(6) by simp
  then obtain s3 where s3: "set_obj n (\<lambda>x. x\<lparr>obj_addr := q\<rparr>) s2 = (Inr (), s3)" "core (n # F) U s3"
      "foreign s3 = foreign s2" "m_page_stack (fst s3) = m_page_stack (fst s2)" "m_size (fst s3) = m_size (fst s2)"
      "\<forall>i. obj_addr (m_objs (fst s3) ! i) = (if i = n then q else obj_addr (m_objs (fst s2) ! i))"
    using set_addr[OF s2(2)] by blast
  have "free_addrs F (fst s3) = free_addrs F (fst s)"
  proof (rule free_addrs_cong)
    fix i assume "i \<in> set F"
    then have "i \<noteq> n" "i < ncells (fst s)" using fresh c by (auto simp: cells_def)
    then show "obj_addr (m_objs (fst s3) ! i) = obj_addr (m_objs (fst s) ! i)"
      using s3(6) s2(7) g by (simp add: grow_def)
  qed
  moreover have "obj_addr (m_objs (fst s3) ! n) = q" using s3(6) by simp
  ultimately have "free_addrs (n # F) (fst s3) = q # free_addrs F (fst s)" by (simp add: free_addrs_def)
  moreover have "grow s s1" using g by simp
  ultimately show ?thesis
    using s2 s3 by (intro exI[of _ s2] exI[of _ s3]) (simp add: grow_def)
qed

lemma slot_test:
  fixes sz :: u64
  assumes "0 < unat sz" "unat sz \<le> 4096" "j \<le> 4096 div unat sz"
  shows "of_nat (j * unat sz) + sz \<le> 0x1000 \<longleftrightarrow> j < 4096 div unat sz"
    "j < 4096 div unat sz \<Longrightarrow> (of_nat (j * unat sz) :: u64) < 0x1000"
    "of_nat (j * unat sz) + sz = of_nat (Suc j * unat sz)"
proof -
  have b: "j * unat sz \<le> 4096" using assms(3) by (simp add: less_eq_div_iff_mult_less_eq[OF assms(1)])
  have e: "of_nat (j * unat sz) + sz = of_nat (Suc j * unat sz)" by simp
  then show "of_nat (j * unat sz) + sz = of_nat (Suc j * unat sz)" .
  have u: "unat (of_nat (Suc j * unat sz) :: u64) = Suc j * unat sz"
    using b assms(2) by (intro unat_of_nat_u64) simp
  have "of_nat (j * unat sz) + sz \<le> 0x1000 \<longleftrightarrow> Suc j * unat sz \<le> 4096"
    unfolding e word_le_nat_alt u by simp
  also have "\<dots> \<longleftrightarrow> j < 4096 div unat sz"
    using assms(1) by (metis less_eq_div_iff_mult_less_eq Suc_le_eq)
  finally show i: "of_nat (j * unat sz) + sz \<le> 0x1000 \<longleftrightarrow> j < 4096 div unat sz" .
  assume "j < 4096 div unat sz"
  then have "Suc j * unat sz \<le> 4096" using assms(1) by (metis less_eq_div_iff_mult_less_eq Suc_le_eq)
  then have "j * unat sz < 4096" using assms(1) by simp
  then show "(of_nat (j * unat sz) :: u64) < 0x1000"
    using of_nat_u64_less[of "j * unat sz" 4096] by simp
qed

lemma add_objects_core:
  assumes "core F U s" "m_size (fst s) = sz" "0 < unat sz" "unat sz \<le> 4096"
    and "j \<le> 4096 div unat sz" "4096 div unat sz - j < fuel"
    and "add_objects fuel alloc_page pg (of_nat (j * unat sz)) s = (r, s')"
  shows "\<exists>F' m. core F' U s' \<and> foreign s' = foreign s \<and> m_page_stack (fst s') = m_page_stack (fst s) \<and>
     m_size (fst s') = sz \<and> m \<le> 4096 div unat sz \<and>
     mset (free_addrs F' (fst s')) = mset (free_addrs F (fst s)) +
       mset (map (\<lambda>i. page_addr pg + of_nat (i * unat sz)) [j ..< m]) \<and>
     (case r of Inl e \<Rightarrow> e \<in> insert Runtime_error perr | Inr _ \<Rightarrow> m = 4096 div unat sz)"
  using assms
proof (induction fuel arbitrary: F s j)
  case (Suc fuel)
  let ?N = "4096 div unat sz"
  note t = slot_test[OF Suc.prems(3-5)]
  have run: "(if j < ?N then bindE (get_next_object alloc_page) (\<lambda>object.
       seqE (free_stack_push object)
      (if (of_nat (j * unat sz) :: u64) < 0x1000 then
         seqE (set_obj object (\<lambda>x. x\<lparr>obj_addr := page_addr pg + of_nat (j * unat sz)\<rparr>))
              (add_objects fuel alloc_page pg (of_nat (Suc j * unat sz)))
       else throwE Expects_failed)) else returnE ()) s = (r, s')"
    using Suc.prems(2,7) by (simp only: add_objects.simps bindE_slabE t(3) t(1)[unfolded t(3)])
  show ?case
  proof (cases "j < ?N")
    case False
    then have "j = ?N" "r = Inr ()" "s' = s" using Suc.prems(5) run by auto
    then show ?thesis using Suc.prems(1,2) by (intro exI[of _ F] exI[of _ ?N]) simp
  next
    case True
    note lt = t(2)[OF True]
    show ?thesis
    proof (cases "get_next_object alloc_page s")
      case (fields rn a1 p1)
      let ?s1 = "(a1, p1)"
      show ?thesis
      proof (cases rn)
        case (Inl e)
        then have "r = Inl e" "s' = ?s1" using run True fields by (auto simp: bindE_def)
        moreover have "core F U ?s1" "grow s ?s1" "e \<in> insert Runtime_error perr"
          using get_next_object_core[OF Suc.prems(1), of "Inl e" ?s1] fields Inl by auto
        moreover have "free_addrs F a1 = free_addrs F (fst s)"
          using Suc.prems(1) \<open>grow s ?s1\<close> by (intro free_addrs_cong) (auto simp: grow_def core_def cells_def)
        ultimately show ?thesis
          using Suc.prems(2,5) by (intro exI[of _ F] exI[of _ j]) (auto simp: grow_def)
      next
        case (Inr n)
        then have gn: "get_next_object alloc_page s = (Inr n, ?s1)" using fields by simp
        obtain s2 s3 where st: "free_stack_push n ?s1 = (Inr (), s2)"
            "set_obj n (\<lambda>x. x\<lparr>obj_addr := page_addr pg + of_nat (j * unat sz)\<rparr>) s2 = (Inr (), s3)"
            "core (n # F) U s3" "foreign s3 = foreign s" "m_page_stack (fst s3) = m_page_stack (fst s)"
            "m_size (fst s3) = m_size (fst s)"
            "free_addrs (n # F) (fst s3) = (page_addr pg + of_nat (j * unat sz)) # free_addrs F (fst s)"
          using add_object_step[OF Suc.prems(1) gn] by blast
        have h: "m_size (fst s3) = sz" "Suc j \<le> ?N" "?N - Suc j < fuel"
          using st(6) Suc.prems(2,6) True by auto
        have "add_objects fuel alloc_page pg (of_nat (Suc j * unat sz)) s3 = (r, s')"
          using run True lt gn st(1,2) by (simp add: bindE_def seqE_def)
        from Suc.IH[OF st(3) h(1) Suc.prems(3,4) h(2,3) this]
        obtain F' m where m: "core F' U s'" "foreign s' = foreign s3" "m_page_stack (fst s') = m_page_stack (fst s3)"
            "m_size (fst s') = sz" "m \<le> ?N"
            "mset (free_addrs F' (fst s')) = mset (free_addrs (n # F) (fst s3)) +
               mset (map (\<lambda>i. page_addr pg + of_nat (i * unat sz)) [Suc j ..< m])"
            "case r of Inl e \<Rightarrow> e \<in> insert Runtime_error perr | Inr _ \<Rightarrow> m = ?N"
          by blast
        show ?thesis
        proof (cases "Suc j \<le> m")
          case True
          then have "[j ..< m] = j # [Suc j ..< m]" by (simp add: upt_conv_Cons)
          then show ?thesis using m st by (intro exI[of _ F'] exI[of _ m]) simp
        next
          case False
          then have "[Suc j ..< m] = []" by simp
          then show ?thesis using m st False True \<open>j < ?N\<close>
            by (intro exI[of _ F'] exI[of _ "Suc j"]) (auto split: sum.splits)
        qed
      qed
    qed
  qed
qed simp

lemma mset_concat_map: "mset (concat (map f xs)) = (\<Sum>x\<in>#mset xs. mset (f x))"
  by (induction xs) auto

lemma all_slots_mset: "mset (all_slots a) = (\<Sum>q\<in>#mset (data_pages a). mset (slots (m_size a) q))"
  by (simp add: all_slots_def mset_concat_map)

lemma map_upt_prefix: "m \<le> n \<Longrightarrow> mset (map f [0 ..< m]) \<subseteq># mset (map f [0 ..< n])"
proof -
  assume "m \<le> n"
  then have "[0 ..< n] = [0 ..< m] @ [m ..< n]" using upt_add_eq_append[of 0 m "n - m"] by simp
  then show ?thesis by simp
qed

lemma add_to_free_stack_core:
  assumes "core F U s" "m_size (fst s) = sz" "0 < unat sz" "unat sz \<le> 4096"
    and "add_to_free_stack alloc_page s = (r, s')"
  shows "\<exists>F'. core F' U s' \<and> foreign s' = foreign s \<and> m_size (fst s') = sz \<and>
     mset (free_addrs F' (fst s')) + mset (all_slots (fst s)) \<subseteq># mset (free_addrs F (fst s)) + mset (all_slots (fst s')) \<and>
     (case r of Inl e \<Rightarrow> e \<in> insert Runtime_error perr | Inr _ \<Rightarrow> F' \<noteq> [])"
  using assms(5) unfolding add_to_free_stack_def
proof (rule bindE_cases)
  fix e assume f: "get_next_page alloc_page s = (Inl e, s')" "r = Inl e"
  note g = get_next_page_core[OF assms(1) f(1)]
  then show ?thesis using f(2) assms(2)
    by (intro exI[of _ F]) (auto simp: same_cells_def all_slots_def free_addrs_def)
next
  fix pg s1
  assume g: "get_next_page alloc_page s = (Inr pg, s1)" and l: "add_objects objects_fuel alloc_page pg 0 s1 = (r, s')"
  note g1 = get_next_page_core[OF assms(1) g]
  have N: "4096 div unat sz - 0 < objects_fuel" using div_le_dividend[of 4096 "unat sz"]
    unfolding objects_fuel_def by linarith
  have c1: "core F U s1" "m_size (fst s1) = sz" using g1 assms(2) by (auto simp: same_cells_def)
  obtain F' m where m: "core F' U s'" "foreign s' = foreign s1" "m_page_stack (fst s') = m_page_stack (fst s1)"
      "m_size (fst s') = sz" "m \<le> 4096 div unat sz"
      "mset (free_addrs F' (fst s')) = mset (free_addrs F (fst s1)) +
         mset (map (\<lambda>i. page_addr pg + of_nat (i * unat sz)) [0 ..< m])"
      "case r of Inl e \<Rightarrow> e \<in> insert Runtime_error perr | Inr _ \<Rightarrow> m = 4096 div unat sz"
    using add_objects_core[OF c1 assms(3,4) _ N, of pg r s'] l by auto
  have "mset (all_slots (fst s')) = mset (all_slots (fst s)) + mset (slots sz (page_addr pg))"
    using g1 m(3,4) assms(2) by (simp add: all_slots_mset data_pages_def)
  moreover have "mset (map (\<lambda>i. page_addr pg + of_nat (i * unat sz)) [0 ..< m]) \<subseteq># mset (slots sz (page_addr pg))"
    unfolding slots_def by (rule map_upt_prefix[OF m(5)])
  moreover have "free_addrs F (fst s1) = free_addrs F (fst s)" using g1 by (simp add: free_addrs_def same_cells_def)
  ultimately have sub: "mset (free_addrs F' (fst s')) + mset (all_slots (fst s)) \<subseteq># mset (free_addrs F (fst s)) + mset (all_slots (fst s'))"
    using m(6) by (simp add: ac_simps)
  have "F' \<noteq> []" if "r = Inr u" for u
  proof -
    have "1 \<le> 4096 div unat sz" using assms(3,4) by (simp add: less_eq_div_iff_mult_less_eq)
    then have "m \<noteq> 0" using m(7) that by simp
    moreover have "m \<le> size (mset (free_addrs F' (fst s')))" unfolding m(6) by simp
    ultimately show ?thesis by (auto simp: free_addrs_def)
  qed
  then show ?thesis using m g1 sub by (intro exI[of _ F']) (auto split: sum.splits)
qed

lemma free_pop_cell:
  assumes "core (i # F) U s"
  shows "\<exists>s'. bindE (bindE (slabE m_free_stack_top) derefE) (\<lambda>tp.
       bindE (obj_at tp) (\<lambda>x.
       seqE (putE (\<lambda>a. a\<lparr>m_free_stack_top := obj_next x\<rparr>))
      (seqE (set_obj tp (\<lambda>x. x\<lparr>obj_next := None\<rparr>)) (returnE tp)))) s = (Inr i, s') \<and>
     core F U s' \<and> foreign s' = foreign s \<and> m_page_stack (fst s') = m_page_stack (fst s) \<and>
     m_size (fst s') = m_size (fst s) \<and> snd s' = snd s \<and> ncells (fst s') = ncells (fst s) \<and>
     length (m_objs (fst s')) = length (m_objs (fst s)) \<and>
     (\<forall>j. obj_addr (m_objs (fst s') ! j) = obj_addr (m_objs (fst s) ! j))"
proof -
  let ?a = "(fst s)\<lparr>m_free_stack_top := obj_next (m_objs (fst s) ! i),
      m_objs := (m_objs (fst s))[i := (m_objs (fst s) ! i)\<lparr>obj_next := None\<rparr>]\<rparr>"
  have c: "cells (i # F) U (fst s)" using assms by (simp add: core_def)
  then have i: "m_free_stack_top (fst s) = Some i" "i < length (m_objs (fst s))" by (simp_all add: cells_def)
  have "cells F U ?a" using c by (simp add: cells_def ncells_def)
  from core_cells[OF assms this]
  have "core F U (?a, snd s)" "foreign (?a, snd s) = foreign s" "ncells ?a = ncells (fst s)" by simp_all
  moreover have "obj_addr (m_objs ?a ! j) = obj_addr (m_objs (fst s) ! j)" for j
    using i by (simp add: nth_list_update)
  ultimately show ?thesis using i
    by (intro exI[of _ "(?a, snd s)"])
      (simp add: slabE_def derefE_def obj_at_def set_obj_def putE_def bindE_def seqE_def)
qed

lemma used_pop_cell:
  assumes "core F (i # U) s"
  shows "\<exists>s'. used_stack_pop alloc_page s = (Inr i, s') \<and>
     core F U s' \<and> foreign s' = foreign s \<and> m_page_stack (fst s') = m_page_stack (fst s) \<and>
     m_size (fst s') = m_size (fst s) \<and> snd s' = snd s \<and> ncells (fst s') = ncells (fst s) \<and>
     length (m_objs (fst s')) = length (m_objs (fst s)) \<and>
     (\<forall>j. obj_addr (m_objs (fst s') ! j) = obj_addr (m_objs (fst s) ! j))"
proof -
  let ?a = "(fst s)\<lparr>m_used_stack_top := obj_next (m_objs (fst s) ! i),
      m_objs := (m_objs (fst s))[i := (m_objs (fst s) ! i)\<lparr>obj_next := None\<rparr>]\<rparr>"
  have c: "cells F (i # U) (fst s)" using assms by (simp add: core_def)
  then have i: "m_used_stack_top (fst s) = Some i" "i < length (m_objs (fst s))" by (simp_all add: cells_def)
  have "cells F U ?a" using c by (simp add: cells_def ncells_def)
  from core_cells[OF assms this]
  have "core F U (?a, snd s)" "foreign (?a, snd s) = foreign s" "ncells ?a = ncells (fst s)" by simp_all
  moreover have "obj_addr (m_objs ?a ! j) = obj_addr (m_objs (fst s) ! j)" for j
    using i by (simp add: nth_list_update)
  ultimately show ?thesis using i
    by (intro exI[of _ "(?a, snd s)"])
      (simp add: used_stack_pop_def slabE_def derefE_def obj_at_def set_obj_def putE_def bindE_def seqE_def)
qed

section \<open>Allocation and release\<close>

lemma free_stack_pop_core:
  assumes "core F U s" "m_size (fst s) = sz" "0 < unat sz" "unat sz \<le> 4096"
    and "free_stack_pop alloc_page s = (r, s')"
  shows "\<exists>F'. core F' U s' \<and> foreign s' = foreign s \<and> m_size (fst s') = sz \<and>
     (case r of
        Inl e \<Rightarrow> e \<in> insert Runtime_error perr \<and>
          mset (free_addrs F' (fst s')) + mset (all_slots (fst s)) \<subseteq># mset (free_addrs F (fst s)) + mset (all_slots (fst s'))
      | Inr i \<Rightarrow> i \<notin> set (F' @ U) \<and> i < ncells (fst s') \<and> i < length (m_objs (fst s')) \<and>
          add_mset (obj_addr (m_objs (fst s') ! i)) (mset (free_addrs F' (fst s'))) + mset (all_slots (fst s))
            \<subseteq># mset (free_addrs F (fst s)) + mset (all_slots (fst s')))"
  using assms(5)[unfolded free_stack_pop_def bindE_slabE]
proof (cases rule: seqE_cases)
  case (fail e)
  then have "add_to_free_stack alloc_page s = (Inl e, s')" by (auto split: if_splits)
  from add_to_free_stack_core[OF assms(1-4) this] fail(2) show ?thesis by auto
next
  case (ok u s1)
  have "\<exists>F1. core F1 U s1 \<and> foreign s1 = foreign s \<and> m_size (fst s1) = sz \<and> F1 \<noteq> [] \<and>
     mset (free_addrs F1 (fst s1)) + mset (all_slots (fst s)) \<subseteq># mset (free_addrs F (fst s)) + mset (all_slots (fst s1))"
  proof (cases "m_free_stack_top (fst s) = None")
    case True
    then show ?thesis using ok(1) add_to_free_stack_core[OF assms(1-4), of "Inr u" s1] by auto
  next
    case False
    then have "F \<noteq> []" using assms(1) by (auto simp: core_def cells_def)
    then show ?thesis using ok(1) False assms(1,2) by auto
  qed
  then obtain i F1 where F1: "core (i # F1) U s1" "foreign s1 = foreign s" "m_size (fst s1) = sz"
      "mset (free_addrs (i # F1) (fst s1)) + mset (all_slots (fst s)) \<subseteq># mset (free_addrs F (fst s)) + mset (all_slots (fst s1))"
    by (auto simp: neq_Nil_conv)
  have d: "bindE (slabE m_free_stack_top) derefE = (\<lambda>s :: 'p slab. derefE (m_free_stack_top (fst s)) s)"
    by (simp add: fun_eq_iff bindE_slabE)
  obtain s2 where s2: "r = Inr i" "s' = s2" "core F1 U s2" "foreign s2 = foreign s1"
      "m_page_stack (fst s2) = m_page_stack (fst s1)" "m_size (fst s2) = m_size (fst s1)"
      "ncells (fst s2) = ncells (fst s1)" "length (m_objs (fst s2)) = length (m_objs (fst s1))"
      "\<forall>j. obj_addr (m_objs (fst s2) ! j) = obj_addr (m_objs (fst s1) ! j)"
    using free_pop_cell[OF F1(1)] ok(2)[folded d] by auto
  have "i \<notin> set (F1 @ U)" "i < ncells (fst s1)" "i < length (m_objs (fst s1))"
    using F1(1) by (auto simp: core_def cells_def)
  moreover have "all_slots (fst s2) = all_slots (fst s1)" using s2(5,6) by (simp add: all_slots_def data_pages_def)
  moreover have "free_addrs (i # F1) (fst s1) = obj_addr (m_objs (fst s2) ! i) # free_addrs F1 (fst s2)"
    using s2(9) by (simp add: free_addrs_def)
  ultimately show ?thesis using s2 F1 by (intro exI[of _ F1]) simp
qed

lemma slab_invI:
  "m_size (fst s) = sz \<Longrightarrow> 0 < unat sz \<Longrightarrow> unat sz \<le> 4096 \<Longrightarrow> core F U s \<Longrightarrow> length U = length H \<Longrightarrow>
   mset (free_addrs F (fst s)) + mset H \<subseteq># mset (all_slots (fst s)) \<Longrightarrow> slab_inv sz H s"
  by (auto simp: slab_inv_def)

theorem slab_allocate_inv:
  assumes "slab_inv sz H s" "slab_allocate alloc_page s = (r, s')"
  shows "foreign s' = foreign s \<and>
    (case r of Inl e \<Rightarrow> slab_inv sz H s' \<and> e \<in> insert Runtime_error perr | Inr q \<Rightarrow> slab_inv sz (q # H) s')"
proof -
  obtain F U where I: "m_size (fst s) = sz" "0 < unat sz" "unat sz \<le> 4096" "core F U s" "length U = length H"
      "mset (free_addrs F (fst s)) + mset H \<subseteq># mset (all_slots (fst s))"
    using assms(1) by (auto simp: slab_inv_def)
  have sub: "x + mset H \<subseteq># mset (all_slots a')"
    if "x + mset (all_slots (fst s)) \<subseteq># mset (free_addrs F (fst s)) + mset (all_slots a')" for x a'
  proof -
    have "x + mset H + mset (all_slots (fst s)) \<subseteq># mset (free_addrs F (fst s)) + mset H + mset (all_slots a')"
      using that by (simp add: ac_simps)
    also have "\<dots> \<subseteq># mset (all_slots (fst s)) + mset (all_slots a')" using I(6) by simp
    finally show ?thesis by (simp add: ac_simps)
  qed
  from assms(2) show ?thesis unfolding slab_allocate_def
  proof (rule bindE_cases)
    fix e assume f: "free_stack_pop alloc_page s = (Inl e, s')" "r = Inl e"
    from free_stack_pop_core[OF I(4,1-3) f(1)] f(2) I(2,3,5) sub show ?thesis
      by (fastforce simp: slab_inv_def)
  next
    fix i s1
    assume p: "free_stack_pop alloc_page s = (Inr i, s1)"
      and rest: "seqE (used_stack_push i) (bindE (obj_at i) (\<lambda>x. returnE (obj_addr x))) s1 = (r, s')"
    obtain F' where F': "core F' U s1" "foreign s1 = foreign s" "m_size (fst s1) = sz" "i \<notin> set (F' @ U)"
        "i < ncells (fst s1)" "i < length (m_objs (fst s1))"
        "add_mset (obj_addr (m_objs (fst s1) ! i)) (mset (free_addrs F' (fst s1))) + mset (all_slots (fst s))
            \<subseteq># mset (free_addrs F (fst s)) + mset (all_slots (fst s1))"
      using free_stack_pop_core[OF I(4,1-3) p] by auto
    obtain s2 where s2: "used_stack_push i s1 = (Inr (), s2)" "core F' (i # U) s2" "foreign s2 = foreign s1"
        "m_page_stack (fst s2) = m_page_stack (fst s1)" "m_size (fst s2) = m_size (fst s1)"
        "length (m_objs (fst s2)) = length (m_objs (fst s1))"
        "\<forall>j. obj_addr (m_objs (fst s2) ! j) = obj_addr (m_objs (fst s1) ! j)"
      using used_push[OF F'(1,4,5,6)] by blast
    have r: "r = Inr (obj_addr (m_objs (fst s1) ! i))" "s' = s2"
      using rest s2 F'(6) by (auto simp: seqE_def bindE_def obj_at_def)
    have "all_slots (fst s2) = all_slots (fst s1)" "free_addrs F' (fst s2) = free_addrs F' (fst s1)"
      using s2 by (simp_all add: all_slots_def data_pages_def free_addrs_def)
    then have "mset (free_addrs F' (fst s2)) + mset (obj_addr (m_objs (fst s1) ! i) # H) \<subseteq># mset (all_slots (fst s2))"
      using sub[OF F'(7)] by simp
    then have "slab_inv sz (obj_addr (m_objs (fst s1) ! i) # H) s2"
      using s2(5) F'(3) I(2,3,5) by (intro slab_invI[OF _ _ _ s2(2)]) simp_all
    then show ?thesis using r s2(3) F'(2) by simp
  qed
qed

theorem slab_deallocate_inv:
  assumes "slab_inv sz H s" "q \<in> set H"
  shows "\<exists>s'. slab_deallocate alloc_page q s = (Inr (), s') \<and> slab_inv sz (remove1 q H) s' \<and>
    foreign s' = foreign s \<and> snd s' = snd s"
proof -
  obtain F U where I: "m_size (fst s) = sz" "0 < unat sz" "unat sz \<le> 4096" "core F U s" "length U = length H"
      "mset (free_addrs F (fst s)) + mset H \<subseteq># mset (all_slots (fst s))"
    using assms(1) by (auto simp: slab_inv_def)
  have "U \<noteq> []" using I(5) assms(2) by auto
  then obtain i V where U: "U = i # V" by (auto simp: neq_Nil_conv)
  obtain s1 where s1: "used_stack_pop alloc_page s = (Inr i, s1)" "core F V s1" "foreign s1 = foreign s"
      "m_page_stack (fst s1) = m_page_stack (fst s)" "m_size (fst s1) = m_size (fst s)" "snd s1 = snd s"
      "ncells (fst s1) = ncells (fst s)" "length (m_objs (fst s1)) = length (m_objs (fst s))"
      "\<forall>j. obj_addr (m_objs (fst s1) ! j) = obj_addr (m_objs (fst s) ! j)"
    using used_pop_cell[OF I(4)[unfolded U]] by blast
  have i: "i \<notin> set (F @ V)" "i < ncells (fst s1)" "i < length (m_objs (fst s1))"
    using I(4) U s1(7,8) chain_bound by (auto simp: core_def cells_def)
  obtain s2 where s2: "free_stack_push i s1 = (Inr (), s2)" "core (i # F) V s2" "foreign s2 = foreign s1"
      "m_page_stack (fst s2) = m_page_stack (fst s1)" "m_size (fst s2) = m_size (fst s1)" "snd s2 = snd s1"
      "length (m_objs (fst s2)) = length (m_objs (fst s1))"
      "\<forall>j. obj_addr (m_objs (fst s2) ! j) = obj_addr (m_objs (fst s1) ! j)"
    using free_push[OF s1(2) i] by blast
  obtain s3 where s3: "set_obj i (\<lambda>x. x\<lparr>obj_addr := q\<rparr>) s2 = (Inr (), s3)" "core (i # F) V s3"
      "foreign s3 = foreign s2" "m_page_stack (fst s3) = m_page_stack (fst s2)" "m_size (fst s3) = m_size (fst s2)"
      "snd s3 = snd s2"
      "\<forall>j. obj_addr (m_objs (fst s3) ! j) = (if j = i then q else obj_addr (m_objs (fst s2) ! j))"
    using set_addr[OF s2(2)] i(3) s2(7) by metis
  have "free_addrs (i # F) (fst s3) = q # free_addrs F (fst s)"
    using i(1) s3(7) s2(8) s1(9) by (auto simp: free_addrs_def)
  moreover have "all_slots (fst s3) = all_slots (fst s)"
    using s1 s2 s3 by (simp add: all_slots_def data_pages_def)
  ultimately have "mset (free_addrs (i # F) (fst s3)) + mset (remove1 q H) \<subseteq># mset (all_slots (fst s3))"
    using I(6) assms(2) by simp
  moreover have "length V = length (remove1 q H)" using I(5) U assms(2) by (simp add: length_remove1)
  ultimately have "slab_inv sz (remove1 q H) s3" using I(1-3) s1 s2 s3 by (auto simp: slab_inv_def)
  moreover have "slab_deallocate alloc_page q s = (Inr (), s3)"
    using s1(1) s2(1) s3(1) by (simp add: slab_deallocate_def bindE_def seqE_def)
  ultimately show ?thesis using s1 s2 s3 by auto
qed

section \<open>What clients hold\<close>

lemma core_pages:
  assumes "core F U s"
  shows "distinct (data_pages (fst s))" "q \<in> set (data_pages (fst s)) \<Longrightarrow> unat q + 4096 \<le> 2 ^ 64"
    "q \<in> set (data_pages (fst s)) \<Longrightarrow> page_block q \<in> plive (snd s)"
  using assms by (auto simp: core_def owned_def)

lemma core_pages_apart:
  assumes "core F U s" "q \<in> set (data_pages (fst s))" "r \<in> set (data_pages (fst s))" "q \<noteq> r"
  shows "extent (page_block q) \<inter> extent (page_block r) = {}"
proof (rule plive_apart[of "snd s"])
  show "pinv (snd s)" using assms(1) by (simp add: core_def)
qed (use core_pages(3)[OF assms(1)] assms(2-4) in auto)

text \<open>Any two different slots of the allocator's pages are disjoint, and no slot occurs twice.\<close>

lemma all_slots_apart:
  assumes "core F U s" "0 < unat (m_size (fst s))" "unat (m_size (fst s)) \<le> 4096"
  shows "distinct (all_slots (fst s))"
    "x \<in> set (all_slots (fst s)) \<Longrightarrow> y \<in> set (all_slots (fst s)) \<Longrightarrow> x \<noteq> y \<Longrightarrow>
     extent (unat x, unat (m_size (fst s))) \<inter> extent (unat y, unat (m_size (fst s))) = {}"
proof -
  let ?sz = "m_size (fst s)"
  note P = core_pages[OF assms(1)]
  have other: "extent (unat x, unat ?sz) \<inter> extent (unat y, unat ?sz) = {}"
    if "q \<in> set (data_pages (fst s))" "r \<in> set (data_pages (fst s))" "q \<noteq> r"
      "x \<in> set (slots ?sz q)" "y \<in> set (slots ?sz r)" for q r x y
    using slots_inside[OF P(2)[OF that(1)] assms(2) that(4)] slots_inside[OF P(2)[OF that(2)] assms(2) that(5)]
      core_pages_apart[OF assms(1) that(1-3)] by blast
  have "distinct (concat (map (slots ?sz) (data_pages (fst s))))"
  proof (rule distinct_concat)
    show "distinct (map (slots ?sz) (data_pages (fst s)))"
    proof (subst distinct_map, intro conjI inj_onI)
      fix q r assume qr: "q \<in> set (data_pages (fst s))" "r \<in> set (data_pages (fst s))" "slots ?sz q = slots ?sz r"
      show "q = r"
      proof (rule ccontr)
        assume ne: "q \<noteq> r"
        show False
        proof (cases "slots ?sz q")
          case Nil
          then have "\<not> unat ?sz \<le> 4096" using assms(2) by (auto simp: slots_def div_eq_0_iff)
          then show False using assms(3) by blast
        next
          case (Cons x xs)
          then show False using other[OF qr(1,2) ne, of x x] qr(3) extent_ne[OF assms(2)] by auto
        qed
      qed
    qed (rule P(1))
  next
    fix ys assume "ys \<in> set (map (slots ?sz) (data_pages (fst s)))"
    then show "distinct ys" using slots_distinct P(2) assms(2) by auto
  next
    fix ys zs assume "ys \<in> set (map (slots ?sz) (data_pages (fst s)))"
      "zs \<in> set (map (slots ?sz) (data_pages (fst s)))" "ys \<noteq> zs"
    then obtain q r where "q \<in> set (data_pages (fst s))" "r \<in> set (data_pages (fst s))" "q \<noteq> r"
      "ys = slots ?sz q" "zs = slots ?sz r" by auto
    then show "set ys \<inter> set zs = {}" using other[of q r] extent_ne[OF assms(2)] by fastforce
  qed
  then show "distinct (all_slots (fst s))" by (simp add: all_slots_def)
  assume "x \<in> set (all_slots (fst s))" "y \<in> set (all_slots (fst s))" "x \<noteq> y"
  then obtain q r where qr: "q \<in> set (data_pages (fst s))" "r \<in> set (data_pages (fst s))"
      "x \<in> set (slots ?sz q)" "y \<in> set (slots ?sz r)" by (auto simp: all_slots_def)
  show "extent (unat x, unat ?sz) \<inter> extent (unat y, unat ?sz) = {}"
  proof (cases "q = r")
    case True
    then obtain i j where "i < 4096 div unat ?sz" "j < 4096 div unat ?sz"
        "x = q + of_nat (i * unat ?sz)" "y = q + of_nat (j * unat ?sz)"
      using qr by (auto simp: slots_def)
    then show ?thesis using slots_disjoint[OF P(2)[OF qr(1)] assms(2), of i j] \<open>x \<noteq> y\<close> by metis
  qed (use other qr in blast)
qed

lemma slab_contains_iff:
  assumes "core F U s"
  shows "slab_contains (fst s) x \<longleftrightarrow> (\<exists>q \<in> set (data_pages (fst s)). q \<le> x \<and> x < q + 0x1000)"
  by (auto simp: slab_contains_def list_ex_iff in_page_def data_pages_def page_list_def)

lemma slab_contains_extent:
  assumes "core F U s" "q \<in> set (data_pages (fst s))" "unat q + 4096 < 2 ^ 64" "unat x \<in> extent (page_block q)"
  shows "slab_contains (fst s) x"
proof -
  have "unat (q + 0x1000) = unat q + 4096"
    using unat_add_lem[of q "0x1000"] assms(3) by simp
  then have "q \<le> x \<and> x < q + 0x1000"
    using assms(4) by (simp add: word_le_nat_alt word_less_nat_alt extent_def page_block_def)
  then show ?thesis unfolding slab_contains_iff[OF assms(1)] using assms(2) by blast
qed

theorem slab_inv_held:
  assumes "slab_inv sz H s"
  shows "apart (map (\<lambda>x. (unat x, unat sz)) H)"
    and "x \<in> set H \<Longrightarrow> \<exists>q \<in> set (data_pages (fst s)).
      extent (unat x, unat sz) \<subseteq> extent (page_block q) \<and> page_block q \<in> plive (snd s)"
proof -
  obtain F U where I: "m_size (fst s) = sz" "0 < unat sz" "unat sz \<le> 4096" "core F U s"
      "mset (free_addrs F (fst s)) + mset H \<subseteq># mset (all_slots (fst s))"
    using assms by (auto simp: slab_inv_def)
  have sub: "mset H \<subseteq># mset (all_slots (fst s))" using I(5) by (rule mset_subset_eq_add_right[THEN subset_mset.trans])
  then have in_slots: "set H \<subseteq> set (all_slots (fst s))" by (metis set_mset_mset set_mset_mono)
  have A: "distinct (all_slots (fst s))"
      "\<And>x y. x \<in> set (all_slots (fst s)) \<Longrightarrow> y \<in> set (all_slots (fst s)) \<Longrightarrow> x \<noteq> y \<Longrightarrow>
        extent (unat x, unat sz) \<inter> extent (unat y, unat sz) = {}"
    using all_slots_apart[OF I(4)] I(1-3) by auto
  obtain ys where "mset (all_slots (fst s)) = mset (H @ ys)"
    using sub by (metis ex_mset mset_append mset_subset_eq_exists_conv)
  then have "distinct (H @ ys)" using A(1) mset_eq_imp_distinct_iff by blast
  then have "distinct H" by simp
  then show "apart (map (\<lambda>x. (unat x, unat sz)) H)"
    using A(2) in_slots I(2)
    by (auto simp: apart_def distinct_map inj_on_def subset_iff word_unat_eq_iff)
  assume "x \<in> set H"
  then obtain q where q: "q \<in> set (data_pages (fst s))" "x \<in> set (slots sz q)"
    using in_slots I(1) by (auto simp: all_slots_def)
  show "\<exists>q \<in> set (data_pages (fst s)). extent (unat x, unat sz) \<subseteq> extent (page_block q) \<and> page_block q \<in> plive (snd s)"
    using slots_inside[OF core_pages(2)[OF I(4) q(1)] I(2) q(2)] core_pages(3)[OF I(4) q(1)] q(1) by blast
qed

text \<open>Another user of the provider may change its state, as long as the allocator keeps its pages.\<close>

lemma slab_inv_pages:
  assumes "slab_inv sz H s"
  shows "pinv (snd s)" "page_block ` set (owned (fst s)) \<subseteq> plive (snd s)"
  using assms by (auto simp: slab_inv_def core_def)

lemma slab_inv_frame:
  assumes "slab_inv sz H (a, p)" "pinv p'" "page_block ` set (owned a) \<subseteq> plive p'"
  shows "slab_inv sz H (a, p')"
  using assms by (auto simp: slab_inv_def core_def)

section \<open>Construction and clean-up\<close>

lemma empty_core:
  assumes "pinv p" "m_page_stack a = []" "m_objt_stack a = []" "m_objs a = []"
    "m_free_stack_top a = None" "m_used_stack_top a = None"
  shows "core [] [] (a, p)" "foreign (a, p) = plive p" "all_slots a = []"
  using assms by (auto simp: core_def cells_def ncells_def pstack_ok_def owned_def data_pages_def foreign_def all_slots_def)

theorem make_slab_inv:
  assumes "pinv p" "unat sz \<le> 4096" "make_slab alloc_page sz max_pages (a0, p) = (r, s')"
  shows "slab_inv (if sz = 0 then 1 else sz) [] s' \<and> foreign s' = plive p"
proof -
  define sz' where "sz' = (if sz = 0 then 1 else sz)"
  define a where "a = empty_allocator\<lparr>m_size := sz', m_max_pages := max_pages\<rparr>"
  have sz': "0 < unat sz'" "unat sz' \<le> 4096" using assms(2) by (auto simp: sz'_def unat_gt_0)
  let ?loop = "if max_pages \<noteq> 0 then forE [0 ..< unat max_pages] (\<lambda>i. add_to_free_stack alloc_page) else returnE ()"
  have "tryE ?loop (returnE ()) (a, p) = (r, s')"
    using assms(3) by (cases "sz = 0") (simp_all add: make_slab_def putE_def a_def sz'_def empty_allocator_def tryE_def)
  then obtain r' where loop: "?loop (a, p) = (r', s')" by (auto simp: tryE_def split: prod.splits sum.splits if_splits)
  have E: "core [] [] (a, p)" "foreign (a, p) = plive p" "all_slots a = []"
    by (rule empty_core[where p = p]; simp add: assms(1) a_def empty_allocator_def)+
  define I where "I s \<longleftrightarrow> slab_inv sz' [] s \<and> foreign s = plive p" for s
  have start: "I (a, p)" using E sz' by (auto simp: I_def slab_inv_def a_def empty_allocator_def free_addrs_def)
  have step: "I t'" if It: "I t" and add: "add_to_free_stack alloc_page t = (q, t')" for t q t'
  proof -
    obtain F where F: "m_size (fst t) = sz'" "core F [] t" "mset (free_addrs F (fst t)) \<subseteq># mset (all_slots (fst t))"
      using It unfolding I_def slab_inv_def by auto
    obtain F' where F': "core F' [] t'" "foreign t' = foreign t" "m_size (fst t') = sz'"
      "mset (free_addrs F' (fst t')) + mset (all_slots (fst t)) \<subseteq># mset (free_addrs F (fst t)) + mset (all_slots (fst t'))"
      using add_to_free_stack_core[OF F(2,1) sz' add] by blast
    have "mset (free_addrs F' (fst t')) + mset (all_slots (fst t)) \<subseteq># mset (all_slots (fst t)) + mset (all_slots (fst t'))"
      using F'(4) F(3) by (meson subset_mset.add_right_mono subset_mset.order_trans)
    then show ?thesis using F' sz' It by (auto simp: I_def slab_inv_def ac_simps)
  qed
  have "I s'"
  proof (cases "max_pages = 0")
    case True
    then show ?thesis using loop start by simp
  next
    case False
    then have "forE [0 ..< unat max_pages] (\<lambda>i. add_to_free_stack alloc_page) (a, p) = (r', s')"
      using loop by simp
    then show ?thesis using forE_keeps[of I, OF start] step by metis
  qed
  then show ?thesis by (simp add: I_def sz'_def)
qed

lemma free_pages:
  assumes "pinv (snd s)" "distinct qs" "\<forall>q \<in> set qs. page_block q \<in> plive (snd s)"
  shows "\<exists>p'. forE qs (\<lambda>q. provE (free_page q)) s = (Inr (), (fst s, p')) \<and> pinv p' \<and>
     plive p' = plive (snd s) - page_block ` set qs"
  using assms
proof (induction qs arbitrary: s)
  case (Cons q qs)
  obtain p1 where p1: "free_page q (snd s) = (Inr (), p1)" "pinv p1" "plive p1 = plive (snd s) - {page_block q}"
    using page_free[OF Cons.prems(1), of q] Cons.prems(3) by (auto simp: page_block_def)
  have "\<forall>r \<in> set qs. page_block r \<in> plive p1" using Cons.prems(2,3) p1(3) by auto
  then obtain p' where p': "forE qs (\<lambda>q. provE (free_page q)) (fst s, p1) = (Inr (), (fst s, p'))" "pinv p'"
      "plive p' = plive p1 - page_block ` set qs"
    using Cons.IH[of "(fst s, p1)"] Cons.prems(2) p1(2) by auto
  have "forE (q # qs) (\<lambda>q. provE (free_page q)) s = forE qs (\<lambda>q. provE (free_page q)) (fst s, p1)"
    by (rule forE_Cons_Inr) (simp add: provE_def p1(1))
  moreover have "plive (snd s) - {page_block q} - page_block ` set qs = plive (snd s) - page_block ` set (q # qs)"
    by auto
  ultimately show ?case using p' p1(3) by (intro exI[of _ p']) simp
next
  case Nil
  then show ?case by (intro exI[of _ "snd s"]) simp
qed

definition stack_pages :: "page_stack_t \<Rightarrow> u64 list" where
  "stack_pages tp = page_list tp @ [ps_page tp]"

lemma cleanup_page_stack:
  assumes "pinv (snd s)" "m_page_stack (fst s) = st @ rest" "distinct (concat (map stack_pages st))"
    "\<forall>q \<in> set (concat (map stack_pages st)). page_block q \<in> plive (snd s)"
  shows "\<exists>p'. forE st (\<lambda>tp.
         seqE (forE (take (ps_index tp) (ps_pool tp)) (\<lambda>page. provE (free_page (page_addr page))))
        (seqE (oa_free free_page (ps_page tp))
              (putE (\<lambda>a. a\<lparr>m_page_stack := tl (m_page_stack a)\<rparr>)))) s
     = (Inr (), ((fst s)\<lparr>m_page_stack := rest\<rparr>, p')) \<and> pinv p' \<and>
     plive p' = plive (snd s) - page_block ` set (concat (map stack_pages st))"
    (is "\<exists>p'. forE st ?F s = _ \<and> _")
  using assms
proof (induction st arbitrary: s)
  case Nil
  then have "(fst s)\<lparr>m_page_stack := rest\<rparr> = fst s" by (cases "fst s") simp
  then show ?case using Nil(1) by (intro exI[of _ "snd s"]) (simp add: prod_eq_iff)
next
  case (Cons tp st)
  have D: "distinct (stack_pages tp)" "\<forall>q \<in> set (stack_pages tp). page_block q \<in> plive (snd s)"
    using Cons.prems(3,4) by simp_all
  obtain p1 where p1: "forE (stack_pages tp) (\<lambda>q. provE (free_page q)) s = (Inr (), (fst s, p1))" "pinv p1"
      "plive p1 = plive (snd s) - page_block ` set (stack_pages tp)"
    using free_pages[OF Cons.prems(1) D] by blast
  let ?s1 = "((fst s)\<lparr>m_page_stack := st @ rest\<rparr>, p1)"
  have "seqE (forE (page_list tp) (\<lambda>q. provE (free_page q))) (provE (free_page (ps_page tp))) s = (Inr (), (fst s, p1))"
    using p1(1) by (simp add: stack_pages_def forE_append seqE_returnE)
  then obtain s2 where s2: "forE (page_list tp) (\<lambda>q. provE (free_page q)) s = (Inr (), s2)"
      "provE (free_page (ps_page tp)) s2 = (Inr (), (fst s, p1))"
    by (rule seqE_InrE) simp
  have run: "seqE (forE (take (ps_index tp) (ps_pool tp)) (\<lambda>page. provE (free_page (page_addr page))))
        (seqE (oa_free free_page (ps_page tp))
              (putE (\<lambda>a. a\<lparr>m_page_stack := tl (m_page_stack a)\<rparr>))) s = (Inr (), ?s1)"
    using s2 Cons.prems(2) unfolding page_list_def forE_map oa_free_def
    by (simp add: putE_def seqE_def bindE_def)
  have ps: "page_block ` set (concat (map stack_pages (tp # st))) =
      page_block ` set (stack_pages tp) \<union> page_block ` set (concat (map stack_pages st))"
    by (simp add: image_Un)
  have "page_block q \<in> plive p1" if "q \<in> set (concat (map stack_pages st))" for q
  proof -
    have "q \<notin> set (stack_pages tp)" using that Cons.prems(3) by auto
    then show ?thesis using Cons.prems(4) that p1(3) by (simp add: image_iff)
  qed
  then obtain p' where p': "forE st ?F ?s1 = (Inr (), ((fst s)\<lparr>m_page_stack := rest\<rparr>, p'))" "pinv p'"
      "plive p' = plive p1 - page_block ` set (concat (map stack_pages st))"
    using Cons.IH[of ?s1] Cons.prems(3) p1(2) by simp blast
  have "forE (tp # st) ?F s = forE st ?F ?s1" by (rule forE_Cons_Inr) (rule run)
  then show ?case using p' p1(3) unfolding ps by (intro exI[of _ p']) (simp add: Diff_Un set_diff_eq)
qed

lemma cleanup_objt_stack:
  assumes "pinv (snd s)" "m_objt_stack (fst s) = ot @ rest" "distinct (map os_page ot)"
    "\<forall>x \<in> set ot. page_block (os_page x) \<in> plive (snd s)"
  shows "\<exists>p'. forE ot (\<lambda>tp. seqE (oa_free free_page (os_page tp))
              (putE (\<lambda>a. a\<lparr>m_objt_stack := tl (m_objt_stack a)\<rparr>))) s
     = (Inr (), ((fst s)\<lparr>m_objt_stack := rest\<rparr>, p')) \<and> pinv p' \<and>
     plive p' = plive (snd s) - page_block ` set (map os_page ot)"
    (is "\<exists>p'. forE ot ?F s = _ \<and> _")
  using assms
proof (induction ot arbitrary: s)
  case Nil
  then have "(fst s)\<lparr>m_objt_stack := rest\<rparr> = fst s" by (cases "fst s") simp
  then show ?case using Nil(1) by (intro exI[of _ "snd s"]) (simp add: prod_eq_iff)
next
  case (Cons tp ot)
  obtain p1 where p1: "free_page (os_page tp) (snd s) = (Inr (), p1)" "pinv p1"
      "plive p1 = plive (snd s) - {page_block (os_page tp)}"
    using page_free[OF Cons.prems(1), of "os_page tp"] Cons.prems(4) by (auto simp: page_block_def)
  let ?s1 = "((fst s)\<lparr>m_objt_stack := ot @ rest\<rparr>, p1)"
  have "\<forall>x \<in> set ot. os_page x \<noteq> os_page tp" using Cons.prems(3) by (auto simp: image_iff)
  then have "\<forall>x \<in> set ot. page_block (os_page x) \<in> plive p1" using Cons.prems(4) p1(3) by simp
  then obtain p' where p': "forE ot ?F ?s1 = (Inr (), ((fst s)\<lparr>m_objt_stack := rest\<rparr>, p'))" "pinv p'"
      "plive p' = plive p1 - page_block ` set (map os_page ot)"
    using Cons.IH[of ?s1] Cons.prems(3) p1(2) by simp blast
  have "forE (tp # ot) ?F s = forE ot ?F ?s1"
    by (rule forE_Cons_Inr) (simp add: oa_free_def provE_def putE_def seqE_def bindE_def p1(1) Cons.prems(2))
  moreover have "plive (snd s) - {page_block (os_page tp)} - page_block ` set (map os_page ot) =
      plive (snd s) - page_block ` set (map os_page (tp # ot))" by auto
  ultimately show ?case using p' p1(3) by (intro exI[of _ p']) simp
qed

lemma stack_pages_mset: "mset (concat (map stack_pages st)) = mset (map ps_page st) + mset (concat (map page_list st))"
  by (induction st) (simp_all add: stack_pages_def)

theorem destroy_slab_inv:
  assumes "slab_inv sz [] s"
  shows "\<exists>p'. destroy_slab free_page s = (Inr (), (empty_allocator, p')) \<and> pinv p' \<and> plive p' = foreign s"
proof -
  let ?st = "m_page_stack (fst s)" and ?ot = "m_objt_stack (fst s)"
  obtain F where c: "core F [] s" using assms by (auto simp: slab_inv_def)
  then have inv: "pinv (snd s)" and D: "distinct (owned (fst s))"
    and L: "\<forall>q \<in> set (owned (fst s)). page_block q \<in> plive (snd s)"
    and none: "m_used_stack_top (fst s) = None" by (auto simp: core_def cells_def)
  have own: "mset (owned (fst s)) = mset (concat (map stack_pages ?st) @ map os_page ?ot)"
    by (simp add: owned_def data_pages_def stack_pages_mset)
  then have d2: "distinct (concat (map stack_pages ?st) @ map os_page ?ot)"
    using D mset_eq_imp_distinct_iff by blast
  have set2: "set (owned (fst s)) = set (concat (map stack_pages ?st)) \<union> set (map os_page ?ot)"
    using own by (metis set_append set_mset_mset)
  obtain p1 where p1: "forE ?st (\<lambda>tp.
         seqE (forE (take (ps_index tp) (ps_pool tp)) (\<lambda>page. provE (free_page (page_addr page))))
        (seqE (oa_free free_page (ps_page tp))
              (putE (\<lambda>a. a\<lparr>m_page_stack := tl (m_page_stack a)\<rparr>)))) s
     = (Inr (), ((fst s)\<lparr>m_page_stack := []\<rparr>, p1))" "pinv p1"
     "plive p1 = plive (snd s) - page_block ` set (concat (map stack_pages ?st))"
    using cleanup_page_stack[OF inv, of ?st "[]"] d2 L set2 by auto
  let ?s1 = "((fst s)\<lparr>m_page_stack := []\<rparr>, p1)"
  have "page_block (os_page x) \<in> plive p1" if "x \<in> set ?ot" for x
  proof -
    have "os_page x \<notin> set (concat (map stack_pages ?st))" using d2 that by auto
    then show ?thesis using p1(3) L set2 that by (auto simp: image_iff)
  qed
  then obtain p2 where p2: "forE ?ot (\<lambda>tp. seqE (oa_free free_page (os_page tp))
              (putE (\<lambda>a. a\<lparr>m_objt_stack := tl (m_objt_stack a)\<rparr>))) ?s1
     = (Inr (), ((fst ?s1)\<lparr>m_objt_stack := []\<rparr>, p2))" "pinv p2"
     "plive p2 = plive p1 - page_block ` set (map os_page ?ot)"
    using cleanup_objt_stack[of ?s1 ?ot "[]"] p1(2) d2 by auto
  have ot: "m_objt_stack (fst ?s1) = ?ot" by simp
  have "cleanup free_page s = (Inr (), (empty_allocator, p2))"
    unfolding cleanup_def
    by (rule tryE_Inr, subst bindE_slabE, subst seqE_Inr, rule p1(1), subst bindE_slabE,
      subst ot, subst seqE_Inr, rule p2(1)) (simp add: putE_def)
  moreover have "plive p2 = foreign s"
    using p1(3) p2(3) set2 by (auto simp: foreign_def)
  ultimately show ?thesis using none p2(2) by (simp add: destroy_slab_def bindE_slabE)
qed

end

end
