(* ===== verification/Memory_Manager.thy ===== *)
theory Memory_Manager
  imports Buddy_Spec Slab_Spec "HOL-Library.AList"
begin

text \<open>
  The memory manager, \<open>src/bareflank/bfvmm/src/memory_manager/memory_manager.cpp\<close>: three buddy
  allocators, nine slab allocators on top of the page pool, the C allocation functions that call
  it, and the two maps that translate between virtual and physical addresses.

  The nine slab members are a function from their names.  The unordered maps are association lists
  with distinct keys; the order of \<open>descriptors\<close> is unspecified in the source.  The mutexes
  are not modelled: each operation is one step.
\<close>

datatype slab_id = slab010 | slab020 | slab030 | slab040 | slab080 | slab100 | slab200 | slab400 | slab800

fun slab_bytes :: "slab_id \<Rightarrow> u64" where
  "slab_bytes slab010 = 0x010"
| "slab_bytes slab020 = 0x020"
| "slab_bytes slab030 = 0x030"
| "slab_bytes slab040 = 0x040"
| "slab_bytes slab080 = 0x080"
| "slab_bytes slab100 = 0x100"
| "slab_bytes slab200 = 0x200"
| "slab_bytes slab400 = 0x400"
| "slab_bytes slab800 = 0x800"

record virt_t =
  vt_phys :: u64
  vt_attr :: u64

record phys_t =
  pt_virt :: u64
  pt_attr :: u64

record memory_manager =
  g_page_pool :: buddy_allocator
  g_huge_pool :: buddy_allocator
  g_mem_map_pool :: buddy_allocator
  slabs :: "slab_id \<Rightarrow> basic_object_allocator"
  m_virt_map :: "(u64 \<times> virt_t) list"
  m_phys_map :: "(u64 \<times> phys_t) list"

section \<open>Running an operation on a member\<close>

definition page_poolE :: "(buddy_allocator, 'a) op \<Rightarrow> (memory_manager, 'a) op" where
  "page_poolE m = (\<lambda>s. case m (g_page_pool s) of (r, b) \<Rightarrow> (r, s\<lparr>g_page_pool := b\<rparr>))"

definition huge_poolE :: "(buddy_allocator, 'a) op \<Rightarrow> (memory_manager, 'a) op" where
  "huge_poolE m = (\<lambda>s. case m (g_huge_pool s) of (r, b) \<Rightarrow> (r, s\<lparr>g_huge_pool := b\<rparr>))"

definition mem_map_poolE :: "(buddy_allocator, 'a) op \<Rightarrow> (memory_manager, 'a) op" where
  "mem_map_poolE m = (\<lambda>s. case m (g_mem_map_pool s) of (r, b) \<Rightarrow> (r, s\<lparr>g_mem_map_pool := b\<rparr>))"

text \<open>A slab works on its own book-keeping and on the page pool.\<close>

definition on_slab :: "slab_id \<Rightarrow> (buddy_allocator slab, 'a) op \<Rightarrow> (memory_manager, 'a) op" where
  "on_slab i m = (\<lambda>s. case m (slabs s i, g_page_pool s) of
     (r, (a, b)) \<Rightarrow> (r, s\<lparr>slabs := (slabs s)(i := a), g_page_pool := b\<rparr>))"

section \<open>Pages\<close>

text \<open>\<open>memory_manager::alloc_page\<close> returns null on failure.\<close>

definition mm_alloc_page :: "(buddy_allocator, u64) op" where
  "mm_alloc_page = tryE (allocate BAREFLANK_PAGE_SIZE) (returnE 0)"

text \<open>
  The C function \<open>alloc_page\<close> clears the page it gets; clearing through a null pointer is
  undefined behaviour.
\<close>

definition c_alloc_page :: "(buddy_allocator, u64) op" where
  "c_alloc_page = bindE mm_alloc_page (\<lambda>p. if p = 0 then throwE Null_deref else returnE p)"

definition mm_free_page :: "u64 \<Rightarrow> (buddy_allocator, unit) op" where
  "mm_free_page p = deallocate p"

definition c_free_page :: "u64 \<Rightarrow> (buddy_allocator, unit) op" where
  "c_free_page p = mm_free_page p"

section \<open>The heap\<close>

definition mm_slab_alloc :: "slab_id \<Rightarrow> (memory_manager, u64) op" where
  "mm_slab_alloc i = on_slab i (slab_allocate c_alloc_page)"

definition alloc :: "u64 \<Rightarrow> (memory_manager, u64) op" where
  "alloc sz =
     (if sz = 0 then returnE 0
      else tryE
        (if sz \<le> 0x010 then mm_slab_alloc slab010
         else if sz \<le> 0x020 then mm_slab_alloc slab020
         else if sz \<le> 0x030 then mm_slab_alloc slab030
         else if sz \<le> 0x040 then mm_slab_alloc slab040
         else if sz \<le> 0x080 then mm_slab_alloc slab080
         else if sz \<le> 0x100 then mm_slab_alloc slab100
         else if sz \<le> 0x200 then mm_slab_alloc slab200
         else if sz \<le> 0x400 then mm_slab_alloc slab400
         else if sz \<le> 0x800 then mm_slab_alloc slab800
         else if sz > BAREFLANK_PAGE_SIZE then huge_poolE (allocate sz)
         else page_poolE mm_alloc_page)
        (returnE 0))"

definition alloc_map :: "u64 \<Rightarrow> (memory_manager, u64) op" where
  "alloc_map sz = tryE (mem_map_poolE (allocate sz)) (returnE 0)"

text \<open>The slab whose pages contain a pointer, tried in the order of the source.\<close>

definition all_slabs :: "slab_id list" where
  "all_slabs = [slab010, slab020, slab030, slab040, slab080, slab100, slab200, slab400, slab800]"

definition owner :: "memory_manager \<Rightarrow> u64 \<Rightarrow> slab_id option" where
  "owner s ptr = find (\<lambda>i. slab_contains (slabs s i) ptr) all_slabs"

definition free :: "u64 \<Rightarrow> (memory_manager, unit) op" where
  "free ptr = bindE (getE (\<lambda>s. owner s ptr)) (\<lambda>own.
     case own of
       Some i \<Rightarrow> on_slab i (slab_deallocate c_alloc_page ptr)
     | None \<Rightarrow>
         bindE (getE (\<lambda>s. contains (g_huge_pool s) ptr)) (\<lambda>huge.
           if huge then huge_poolE (deallocate ptr) else page_poolE (mm_free_page ptr)))"

definition free_map :: "u64 \<Rightarrow> (memory_manager, unit) op" where
  "free_map ptr = mem_map_poolE (deallocate ptr)"

definition size_page :: "u64 \<Rightarrow> (memory_manager, u64) op" where
  "size_page ptr = bindE (getE (\<lambda>s. contains (g_page_pool s) ptr)) (\<lambda>c.
     if c then page_poolE (size_of ptr) else returnE 0)"

definition size_map :: "u64 \<Rightarrow> (memory_manager, u64) op" where
  "size_map ptr = bindE (getE (\<lambda>s. contains (g_mem_map_pool s) ptr)) (\<lambda>c.
     if c then mem_map_poolE (size_of ptr) else returnE 0)"

definition mm_size :: "u64 \<Rightarrow> (memory_manager, u64) op" where
  "mm_size ptr = bindE (getE (\<lambda>s. (owner s ptr, s))) (\<lambda>(own, s).
     case own of
       Some i \<Rightarrow> returnE (slab_size (slabs s i) ptr)
     | None \<Rightarrow> if contains (g_huge_pool s) ptr then huge_poolE (size_of ptr) else size_page ptr)"

section \<open>Address translation\<close>

definition virtint_to_physint :: "u64 \<Rightarrow> (memory_manager, u64) op" where
  "virtint_to_physint virt = bindE (getE m_virt_map) (\<lambda>m.
     case map_of m (upper virt) of
       Some e \<Rightarrow> returnE (vt_phys e OR lower virt)
     | None \<Rightarrow> throwE Runtime_error)"

definition physint_to_virtint :: "u64 \<Rightarrow> (memory_manager, u64) op" where
  "physint_to_virtint phys = bindE (getE m_phys_map) (\<lambda>m.
     case map_of m (upper phys) of
       Some e \<Rightarrow> returnE (pt_virt e OR lower phys)
     | None \<Rightarrow> throwE Runtime_error)"

definition erase_md :: "u64 \<Rightarrow> u64 \<Rightarrow> memory_manager \<Rightarrow> memory_manager" where
  "erase_md virt phys s = s\<lparr>m_virt_map := AList.delete virt (m_virt_map s),
                            m_phys_map := AList.delete phys (m_phys_map s)\<rparr>"

definition add_md :: "u64 \<Rightarrow> u64 \<Rightarrow> u64 \<Rightarrow> (memory_manager, unit) op" where
  "add_md virt phys attr = on_failureE (erase_md virt phys)
     (seqE (expectsE (lower virt = 0))
     (seqE (expectsE (lower phys = 0))
     (bindE (getE m_virt_map) (\<lambda>vm.
      if map_of vm virt \<noteq> None then throwE Runtime_error
      else
        bindE (getE m_phys_map) (\<lambda>pm.
        if map_of pm phys \<noteq> None then throwE Runtime_error
        else
          seqE (modifyE (\<lambda>s. s\<lparr>m_virt_map := AList.update virt \<lparr>vt_phys = phys, vt_attr = attr\<rparr> (m_virt_map s)\<rparr>))
               (modifyE (\<lambda>s. s\<lparr>m_phys_map := AList.update phys \<lparr>pt_virt = virt, pt_attr = attr\<rparr> (m_phys_map s)\<rparr>)))))))"

definition remove_md :: "u64 \<Rightarrow> u64 \<Rightarrow> (memory_manager, unit) op" where
  "remove_md virt phys =
     seqE (expectsE (lower virt = 0))
    (seqE (expectsE (lower phys = 0))
          (modifyE (erase_md virt phys)))"

text \<open>A descriptor is physical address, virtual address and attributes.\<close>

definition descriptors :: "memory_manager \<Rightarrow> (u64 \<times> u64 \<times> u64) list" where
  "descriptors s = map (\<lambda>(virt, e). (vt_phys e, virt, vt_attr e)) (m_virt_map s)"

text \<open>
  The constructor, over the static buffers and their node arrays.  The pool sizes are build-time
  constants with these defaults.
\<close>

definition PAGE_POOL_K :: nat where "PAGE_POOL_K = 15"
definition HUGE_POOL_K :: nat where "HUGE_POOL_K = 15"
definition MEM_MAP_POOL_K :: nat where "MEM_MAP_POOL_K = 15"
definition MEM_MAP_POOL_START :: u64 where "MEM_MAP_POOL_START = 0x200000"

definition make_memory_manager ::
  "nat \<Rightarrow> u64 \<Rightarrow> node_t list \<Rightarrow> nat \<Rightarrow> u64 \<Rightarrow> node_t list \<Rightarrow> nat \<Rightarrow> node_t list \<Rightarrow> memory_manager" where
  "make_memory_manager page_pool_k page_buffer page_nodes huge_pool_k huge_buffer huge_nodes map_pool_k map_nodes =
     \<lparr>g_page_pool = make_buddy page_buffer page_pool_k page_nodes,
      g_huge_pool = make_buddy huge_buffer huge_pool_k huge_nodes,
      g_mem_map_pool = make_buddy MEM_MAP_POOL_START map_pool_k map_nodes,
      slabs = (\<lambda>i. fst (snd (make_slab c_alloc_page (slab_bytes i) 0
                               (empty_allocator, make_buddy page_buffer page_pool_k page_nodes)))),
      m_virt_map = [], m_phys_map = []\<rparr>"

section \<open>The C library interface\<close>

text \<open>
  \<open>_calloc_r\<close> and \<open>_realloc_r\<close> clear and copy memory; the contents of memory are
  not part of this state, so the model returns, next to the pointer, the number of bytes cleared or
  copied.
\<close>

definition malloc_r :: "u64 \<Rightarrow> (memory_manager, u64) op" where
  "malloc_r sz = alloc sz"

definition free_r :: "u64 \<Rightarrow> (memory_manager, unit) op" where
  "free_r ptr = free ptr"

definition calloc_r :: "u64 \<Rightarrow> u64 \<Rightarrow> (memory_manager, u64 \<times> u64) op" where
  "calloc_r nmemb sz = bindE (alloc (nmemb * sz)) (\<lambda>ptr.
     if ptr \<noteq> 0 then returnE (ptr, nmemb * sz) else returnE (0, 0))"

definition realloc_r :: "u64 \<Rightarrow> u64 \<Rightarrow> (memory_manager, u64 \<times> u64) op" where
  "realloc_r ptr sz =
     bindE (mm_size ptr) (\<lambda>old_sze.
     bindE (alloc sz) (\<lambda>new_ptr.
     if new_ptr = 0 \<or> old_sze = 0 then returnE (0, 0)
     else if ptr \<noteq> 0 then
       seqE (free ptr) (returnE (new_ptr, if sz > old_sze then old_sze else sz))
     else returnE (new_ptr, 0)))"

end
