(* ===== verification/Memory_Spec.thy ===== *)
theory Memory_Spec
  imports Memory_Manager
begin

text \<open>
  Correctness of the memory manager: the page pool provides pages to the slabs, the regions handed
  out by the heap never overlap, each is as large as asked for, and releasing a region finds the
  allocator it came from.  For the address maps: they stay inverse to each other, so translations
  round-trip.
\<close>

section \<open>The page pool provides pages\<close>

lemma block_bytes_page: "block_bytes 0x1000 = 4096"
  by code_simp

lemma c_alloc_page_cases:
  assumes "buddy_inv k p" "c_alloc_page p = (r, p')"
  obtains (ok) q where "r = Inr q" "allocate 0x1000 p = (Inr q, p')" "q \<noteq> 0"
    | (fail) "r = Inl Null_deref" "allocate 0x1000 p = (Inl Bad_alloc, p')"
proof (cases "fst (allocate 0x1000 p)")
  case (Inl e)
  then obtain p1 where a: "allocate 0x1000 p = (Inl e, p1)" by (metis prod.collapse)
  then have "e = Bad_alloc" by (rule allocate_error(1)[OF assms(1)])
  then show thesis
    using a assms(2) fail by (simp add: c_alloc_page_def mm_alloc_page_def bindE_def tryE_def catchable_def)
next
  case (Inr q)
  then obtain p1 where a: "allocate 0x1000 p = (Inr q, p1)" by (metis prod.collapse)
  have "m_buffer p \<noteq> 0" using assms(1) by (auto simp: buddy_inv_def buddy_tree_def)
  then have "q \<noteq> 0" using allocate_live(8)[OF assms(1) a] unat_gt_0[of "m_buffer p"] by auto
  moreover from this have "r = Inr q" "p' = p1"
    using a assms(2) by (simp_all add: c_alloc_page_def mm_alloc_page_def bindE_def tryE_def)
  ultimately show thesis using a ok by blast
qed

lemma live_blocks_apart:
  assumes "buddy_inv k p" "b \<in> live_blocks p" "c \<in> live_blocks p" "b \<noteq> c"
  shows "extent b \<inter> extent c = {}"
proof -
  obtain t where t: "buddy_tree k p t" using assms(1) by (auto simp: buddy_inv_def)
  then have "t_inv k t" by (simp add: buddy_tree_def)
  moreover obtain b' where b: "b = bytes_of b'" "b' \<in> blocks k (unat (m_buffer p)) t"
    using assms(2) unfolding live_blocks_tree[OF t] by (rule imageE)
  moreover obtain c' where c: "c = bytes_of c'" "c' \<in> blocks k (unat (m_buffer p)) t"
    using assms(3) unfolding live_blocks_tree[OF t] by (rule imageE)
  ultimately have "rng b' \<inter> rng c' = {}" using assms(4) by (intro blocks_disjoint[of k t]) auto
  then show ?thesis using b c by simp
qed

lemma live_blocks_range:
  assumes "buddy_inv k p" "b \<in> live_blocks p"
  shows "extent b \<subseteq> {unat (m_buffer p) ..< unat (m_buffer p) + bsize k}"
proof -
  obtain t where t: "buddy_tree k p t" using assms(1) by (auto simp: buddy_inv_def)
  then show ?thesis using assms(2) live_blocks_tree[OF t] rng_subset by (fastforce simp: image_iff)
qed

text \<open>A pool at a fixed address.\<close>

definition pool_inv :: "nat \<Rightarrow> u64 \<Rightarrow> buddy_allocator \<Rightarrow> bool" where
  "pool_inv k base b \<longleftrightarrow> buddy_inv k b \<and> m_buffer b = base"

interpretation pool: page_provider "pool_inv k base" live_blocks c_alloc_page c_free_page "{Null_deref}"
proof unfold_locales
  fix p q p' assume P: "pool_inv k base p" and c: "c_alloc_page p = (Inr q, p')"
  then have A: "buddy_inv k p" "m_buffer p = base" by (simp_all add: pool_inv_def)
  have a: "allocate 0x1000 p = (Inr q, p')" "q \<noteq> 0" using c_alloc_page_cases[OF A(1) c] by auto
  note L = allocate_live[OF A(1) a(1), unfolded block_bytes_page]
  have "unat (m_buffer p) + bsize k \<le> 2 ^ 64" using A(1) unfolding buddy_inv_def buddy_tree_def by blast
  then show "pool_inv k base p' \<and> q \<noteq> 0 \<and> unat q + 4096 \<le> 2 ^ 64 \<and>
      live_blocks p' = insert (unat q, 4096) (live_blocks p) \<and>
      (\<forall>b \<in> live_blocks p. extent b \<inter> extent (unat q, 4096) = {})"
    using L a(2) A(2) by (auto simp: pool_inv_def)
next
  fix p e p' assume P: "pool_inv k base p" and c: "c_alloc_page p = (Inl e, p')"
  then have A: "buddy_inv k p" "m_buffer p = base" by (simp_all add: pool_inv_def)
  have "allocate 0x1000 p = (Inl Bad_alloc, p')" "e = Null_deref" using c_alloc_page_cases[OF A(1) c] by auto
  then show "pool_inv k base p' \<and> live_blocks p' = live_blocks p \<and> e \<in> {Null_deref}"
    using allocate_error[OF A(1)] A(2) by (auto simp: pool_inv_def)
next
  fix p and q :: u64 assume "pool_inv k base p" "(unat q, 4096) \<in> live_blocks p"
  then show "\<exists>p'. c_free_page q p = (Inr (), p') \<and> pool_inv k base p' \<and> live_blocks p' = live_blocks p - {(unat q, 4096)}"
    using deallocate_live[of k p "unat q" 4096 q]
    by (auto simp: c_free_page_def mm_free_page_def extent_def pool_inv_def)
next
  fix p b c assume "pool_inv k base p" "b \<in> live_blocks p" "c \<in> live_blocks p" "b \<noteq> c"
  then show "extent b \<inter> extent c = {}" by (intro live_blocks_apart[of k p]) (simp_all add: pool_inv_def)
qed

section \<open>Regions of the heap\<close>

text \<open>A region names the allocator it was taken from.\<close>

datatype region = RSlab slab_id u64 | RHuge u64 nat | RPage u64

fun region_ptr :: "region \<Rightarrow> u64" where
  "region_ptr (RSlab i q) = q"
| "region_ptr (RHuge q n) = q"
| "region_ptr (RPage q) = q"

fun region_bytes :: "region \<Rightarrow> nat" where
  "region_bytes (RSlab i q) = unat (slab_bytes i)"
| "region_bytes (RHuge q n) = n"
| "region_bytes (RPage q) = 4096"

definition region_block :: "region \<Rightarrow> nat \<times> nat" where
  "region_block x = (unat (region_ptr x), region_bytes x)"

fun slab_part :: "slab_id \<Rightarrow> region list \<Rightarrow> u64 list" where
  "slab_part i [] = []"
| "slab_part i (RSlab j q # L) = (if i = j then q # slab_part i L else slab_part i L)"
| "slab_part i (_ # L) = slab_part i L"

fun page_part :: "region list \<Rightarrow> u64 list" where
  "page_part [] = []"
| "page_part (RPage q # L) = q # page_part L"
| "page_part (_ # L) = page_part L"

fun huge_part :: "region list \<Rightarrow> (nat \<times> nat) list" where
  "huge_part [] = []"
| "huge_part (RHuge q n # L) = (unat q, n) # huge_part L"
| "huge_part (_ # L) = huge_part L"


lemma parts_iff:
  "q \<in> set (slab_part i L) \<longleftrightarrow> RSlab i q \<in> set L"
  by (induction i L rule: slab_part.induct) auto

lemma page_part_iff: "q \<in> set (page_part L) \<longleftrightarrow> RPage q \<in> set L"
  by (induction L rule: page_part.induct) auto

lemma huge_part_iff: "(unat q, n) \<in> set (huge_part L) \<longleftrightarrow> RHuge q n \<in> set L"
  by (induction L rule: huge_part.induct) (auto simp: word_unat_eq_iff)

lemmas part_iffs = parts_iff page_part_iff huge_part_iff

lemma distinct_parts:
  "(\<forall>i. distinct (slab_part i L)) \<Longrightarrow> distinct (page_part L) \<Longrightarrow> distinct (huge_part L) \<Longrightarrow> distinct L"
proof (induction L)
  case (Cons x L)
  have "distinct (slab_part i L)" for i using Cons.prems(1)[rule_format, of i] by (cases x) (auto split: if_splits)
  moreover have "distinct (page_part L)" "distinct (huge_part L)" using Cons.prems(2,3) by (cases x; simp)+
  moreover have "x \<notin> set L"
  proof (cases x)
    case (RSlab i q)
    then show ?thesis using Cons.prems(1)[rule_format, of i] by (simp add: parts_iff)
  next
    case (RHuge q n)
    then show ?thesis using Cons.prems(3) by (simp add: huge_part_iff)
  next
    case (RPage q)
    then show ?thesis using Cons.prems(2) by (simp add: page_part_iff)
  qed
  ultimately show ?case using Cons.IH by simp
qed simp

lemma remove1_slab [simp]:
  "slab_part i (remove1 (RSlab i q) L) = remove1 q (slab_part i L)"
  "i \<noteq> j \<Longrightarrow> slab_part i (remove1 (RSlab j q) L) = slab_part i L"
  "page_part (remove1 (RSlab j q) L) = page_part L" "huge_part (remove1 (RSlab j q) L) = huge_part L"
  by (induction i L rule: slab_part.induct) auto

lemma remove1_huge [simp]:
  "slab_part i (remove1 (RHuge q n) L) = slab_part i L" "page_part (remove1 (RHuge q n) L) = page_part L"
  "huge_part (remove1 (RHuge q n) L) = remove1 (unat q, n) (huge_part L)"
  by (induction i L rule: slab_part.induct) (auto simp: word_unat_eq_iff)

lemma remove1_page [simp]:
  "slab_part i (remove1 (RPage q) L) = slab_part i L"
  "page_part (remove1 (RPage q) L) = remove1 q (page_part L)" "huge_part (remove1 (RPage q) L) = huge_part L"
  by (induction i L rule: slab_part.induct) auto

section \<open>The invariant\<close>

abbreviation slab_ok :: "nat \<Rightarrow> u64 \<Rightarrow> u64 \<Rightarrow> u64 list \<Rightarrow> buddy_allocator slab \<Rightarrow> bool" where
  "slab_ok k base \<equiv> page_provider.slab_inv (pool_inv k base) live_blocks"

abbreviation outside :: "buddy_allocator slab \<Rightarrow> (nat \<times> nat) set" where
  "outside \<equiv> page_provider.foreign live_blocks"

text \<open>The sizes and addresses of the two pools of the heap.\<close>

record layout =
  page_k :: nat
  page_base :: u64
  huge_k :: nat
  huge_base :: u64

definition page_range :: "layout \<Rightarrow> nat set" where
  "page_range C = {unat (page_base C) ..< unat (page_base C) + bsize (page_k C)}"

definition huge_range :: "layout \<Rightarrow> nat set" where
  "huge_range C = {unat (huge_base C) ..< unat (huge_base C) + bsize (huge_k C)}"

definition layout_ok :: "layout \<Rightarrow> bool" where
  "layout_ok C \<longleftrightarrow> unat (page_base C) + bsize (page_k C) < 2 ^ 64 \<and>
     unat (huge_base C) + bsize (huge_k C) < 2 ^ 64 \<and> page_range C \<inter> huge_range C = {}"

definition mm_inv :: "layout \<Rightarrow> region list \<Rightarrow> memory_manager \<Rightarrow> bool" where
  "mm_inv C L s \<longleftrightarrow>
     pool_inv (page_k C) (page_base C) (g_page_pool s) \<and>
     pool_inv (huge_k C) (huge_base C) (g_huge_pool s) \<and> layout_ok C \<and>
     (\<forall>i. slab_ok (page_k C) (page_base C) (slab_bytes i) (slab_part i L) (slabs s i, g_page_pool s)) \<and>
     (\<forall>i j. i \<noteq> j \<longrightarrow> set (owned (slabs s i)) \<inter> set (owned (slabs s j)) = {}) \<and>
     distinct (page_part L) \<and>
     (\<forall>q \<in> set (page_part L). page_block q \<in> live_blocks (g_page_pool s) \<and>
        (\<forall>i. q \<notin> set (owned (slabs s i)))) \<and>
     distinct (huge_part L) \<and> set (huge_part L) = live_blocks (g_huge_pool s)"

text \<open>The page of the page pool a region of a slab or a whole page lies in, and who owns it.\<close>

lemma slab_region:
  assumes "mm_inv C L s" "RSlab i q \<in> set L"
  obtains p where "p \<in> set (data_pages (slabs s i))" "page_block p \<in> live_blocks (g_page_pool s)"
    "extent (unat q, unat (slab_bytes i)) \<subseteq> extent (page_block p)"
proof -
  have "slab_ok (page_k C) (page_base C) (slab_bytes i) (slab_part i L) (slabs s i, g_page_pool s)"
    using assms(1) by (simp add: mm_inv_def)
  from pool.slab_inv_held(2)[OF this, of q] assms(2) show thesis
    using that by (auto simp: part_iffs)
qed

lemma slab_bytes_pos: "0 < unat (slab_bytes i)"
  by (cases i) simp_all

lemma slab_bytes_le: "unat (slab_bytes i) \<le> 4096"
  by (cases i) simp_all

lemma data_pages_owned: "set (data_pages a) \<subseteq> set (owned a)"
  by (auto simp: owned_def)

lemma page_pool_disjoint:
  assumes "mm_inv C L s" "page_block p \<in> live_blocks (g_page_pool s)" "page_block q \<in> live_blocks (g_page_pool s)" "p \<noteq> q"
  shows "extent (page_block p) \<inter> extent (page_block q) = {}"
  using live_blocks_apart[of "page_k C" "g_page_pool s" "page_block p" "page_block q"] assms
  by (simp add: mm_inv_def pool_inv_def)

lemma pools_disjoint:
  assumes "mm_inv C L s" "b \<in> live_blocks (g_page_pool s)" "c \<in> live_blocks (g_huge_pool s)"
  shows "extent b \<inter> extent c = {}"
proof -
  have "extent b \<subseteq> page_range C" "extent c \<subseteq> huge_range C" "page_range C \<inter> huge_range C = {}"
    using assms live_blocks_range[of "page_k C" "g_page_pool s" b] live_blocks_range[of "huge_k C" "g_huge_pool s" c]
    by (simp_all add: mm_inv_def pool_inv_def layout_ok_def page_range_def huge_range_def)
  then show ?thesis by blast
qed

text \<open>The block of a pool that a region occupies or lies in.\<close>

lemma region_disjoint:
  assumes I: "mm_inv C L s" and x: "x \<in> set L" and y: "y \<in> set L" and "x \<noteq> y"
  shows "extent (region_block x) \<inter> extent (region_block y) = {}"
proof -
  have page: "page_block q \<in> live_blocks (g_page_pool s)" "q \<notin> set (owned (slabs s i))" if "RPage q \<in> set L" for q i
    using I that page_part_iff[of q L] by (simp_all add: mm_inv_def)
  have huge: "(unat q, n) \<in> live_blocks (g_huge_pool s)" if "RHuge q n \<in> set L" for q n
    using I that huge_part_iff by (auto simp: mm_inv_def)
  have slab_slab: "extent (region_block (RSlab i q)) \<inter> extent (region_block (RSlab j r)) = {}"
    if h1: "RSlab i q \<in> set L" and h2: "RSlab j r \<in> set L" and h3: "i \<noteq> j \<or> q \<noteq> r" for i q j r
  proof (cases "i = j")
    case True
    have "slab_ok (page_k C) (page_base C) (slab_bytes i) (slab_part i L) (slabs s i, g_page_pool s)" using I by (simp add: mm_inv_def)
    note apart = pool.slab_inv_held(1)[OF this]
    have "q \<in> set (slab_part i L)" "r \<in> set (slab_part i L)" "q \<noteq> r"
      using h1 h2 h3 True by (simp_all add: parts_iff)
    then show ?thesis using apart True unfolding apart_def
      by (simp add: region_block_def word_unat_eq_iff)
  next
    case False
    obtain p where p: "p \<in> set (data_pages (slabs s i))" "page_block p \<in> live_blocks (g_page_pool s)"
        "extent (unat q, unat (slab_bytes i)) \<subseteq> extent (page_block p)" by (rule slab_region[OF I h1])
    obtain p' where p': "p' \<in> set (data_pages (slabs s j))" "page_block p' \<in> live_blocks (g_page_pool s)"
        "extent (unat r, unat (slab_bytes j)) \<subseteq> extent (page_block p')" by (rule slab_region[OF I h2])
    have "set (owned (slabs s i)) \<inter> set (owned (slabs s j)) = {}" using I False by (simp add: mm_inv_def)
    then have "p \<noteq> p'" using p(1) p'(1) data_pages_owned by blast
    then show ?thesis using page_pool_disjoint[OF I p(2) p'(2)] p(3) p'(3) by (auto simp: region_block_def)
  qed
  have slab_page: "extent (region_block (RSlab i q)) \<inter> extent (region_block (RPage r)) = {}"
    if h1: "RSlab i q \<in> set L" and h2: "RPage r \<in> set L" for i q r
  proof -
    obtain p where p: "p \<in> set (data_pages (slabs s i))" "page_block p \<in> live_blocks (g_page_pool s)"
        "extent (unat q, unat (slab_bytes i)) \<subseteq> extent (page_block p)" by (rule slab_region[OF I h1])
    have "p \<noteq> r" using p(1) page(2)[OF h2, of i] data_pages_owned by blast
    then show ?thesis using page_pool_disjoint[OF I p(2) page(1)[OF h2]] p(3)
      by (auto simp: region_block_def page_block_def)
  qed
  have slab_huge: "extent (region_block (RSlab i q)) \<inter> extent (region_block (RHuge r n)) = {}"
    if h1: "RSlab i q \<in> set L" and h2: "RHuge r n \<in> set L" for i q r n
  proof -
    obtain p where p: "page_block p \<in> live_blocks (g_page_pool s)"
        "extent (unat q, unat (slab_bytes i)) \<subseteq> extent (page_block p)" by (rule slab_region[OF I h1])
    then show ?thesis using pools_disjoint[OF I p(1) huge[OF h2]] by (auto simp: region_block_def)
  qed
  have page_page: "extent (region_block (RPage q)) \<inter> extent (region_block (RPage r)) = {}"
    if "RPage q \<in> set L" "RPage r \<in> set L" "q \<noteq> r" for q r
    using page_pool_disjoint[OF I page(1)[OF that(1)] page(1)[OF that(2)] that(3)]
    by (simp add: region_block_def page_block_def)
  have page_huge: "extent (region_block (RPage q)) \<inter> extent (region_block (RHuge r n)) = {}"
    if "RPage q \<in> set L" "RHuge r n \<in> set L" for q r n
    using pools_disjoint[OF I page(1)[OF that(1)] huge[OF that(2)]] by (simp add: region_block_def page_block_def)
  have huge_huge: "extent (region_block (RHuge q m)) \<inter> extent (region_block (RHuge r n)) = {}"
    if "RHuge q m \<in> set L" "RHuge r n \<in> set L" "q \<noteq> r \<or> m \<noteq> n" for q m r n
    using live_blocks_apart[of "huge_k C" "g_huge_pool s", OF _ huge[OF that(1)] huge[OF that(2)]] that(3) I
    by (auto simp: region_block_def mm_inv_def pool_inv_def word_unat_eq_iff)
  show ?thesis
  proof (cases x)
    case X: (RSlab i q)
    show ?thesis
    proof (cases y)
      case (RSlab j r)
      then show ?thesis using X x y \<open>x \<noteq> y\<close> slab_slab[of i q j r] by simp
    next
      case (RHuge r n)
      then show ?thesis using X x y slab_huge[of i q r n] by simp
    next
      case (RPage r)
      then show ?thesis using X x y slab_page[of i q r] by simp
    qed
  next
    case X: (RHuge q m)
    show ?thesis
    proof (cases y)
      case (RSlab j r)
      then show ?thesis using X x y slab_huge[of j r q m] by (simp add: Int_commute)
    next
      case (RHuge r n)
      then show ?thesis using X x y \<open>x \<noteq> y\<close> huge_huge[of q m r n] by simp
    next
      case (RPage r)
      then show ?thesis using X x y page_huge[of r q m] by (simp add: Int_commute)
    qed
  next
    case X: (RPage q)
    show ?thesis
    proof (cases y)
      case (RSlab j r)
      then show ?thesis using X x y slab_page[of j r q] by (simp add: Int_commute)
    next
      case (RHuge r n)
      then show ?thesis using X x y page_huge[of q r n] by simp
    next
      case (RPage r)
      then show ?thesis using X x y \<open>x \<noteq> y\<close> page_page[of q r] by simp
    qed
  qed
qed

lemma mm_inv_regions:
  assumes "mm_inv C L s"
  shows "apart (map region_block L)"
proof -
  have "distinct (slab_part i L)" for i
  proof -
    have "slab_ok (page_k C) (page_base C) (slab_bytes i) (slab_part i L) (slabs s i, g_page_pool s)"
      using assms by (simp add: mm_inv_def)
    from pool.slab_inv_held(1)[OF this] show ?thesis by (simp add: apart_def distinct_map)
  qed
  then have d: "distinct L" using assms by (intro distinct_parts) (simp_all add: mm_inv_def)
  have ne: "extent (region_block x) \<noteq> {}" if "x \<in> set L" for x
  proof (cases x)
    case (RHuge q n)
    then have "(unat q, n) \<in> live_blocks (g_huge_pool s)" using assms that huge_part_iff by (auto simp: mm_inv_def)
    moreover obtain t where "buddy_tree (huge_k C) (g_huge_pool s) t"
      using assms by (auto simp: mm_inv_def pool_inv_def buddy_inv_def)
    ultimately have "0 < n" using live_blocks_tree by (fastforce simp: bytes_of_def)
    then show ?thesis using RHuge by (simp add: region_block_def)
  qed (simp_all add: region_block_def slab_bytes_pos)
  show ?thesis by (rule apart_mapI[OF d region_disjoint[OF assms] ne])
qed

section \<open>Steps of the heap\<close>

lemma foreign_simp: "outside (a, p) = live_blocks p - page_block ` set (owned a)"
  by (simp add: pool.foreign_def)

lemma mm_slab_step:
  assumes I: "mm_inv C L s" and ok: "slab_ok (page_k C) (page_base C) (slab_bytes i) (slab_part i L') (a, b)"
    and fr: "outside (a, b) = outside (slabs s i, g_page_pool s)"
    and L': "\<And>j. j \<noteq> i \<Longrightarrow> slab_part j L' = slab_part j L" "page_part L' = page_part L" "huge_part L' = huge_part L"
  shows "mm_inv C L' (s\<lparr>slabs := (slabs s)(i := a), g_page_pool := b\<rparr>)"
proof -
  have P: "pool_inv (page_k C) (page_base C) b" using pool.slab_inv_pages(1)[OF ok] by simp
  have slab: "slab_ok (page_k C) (page_base C) (slab_bytes j) (slab_part j L) (slabs s j, g_page_pool s)" for j
    using I by (simp add: mm_inv_def)
  have keep: "page_block q \<in> live_blocks b \<and> q \<notin> set (owned a)"
    if "page_block q \<in> live_blocks (g_page_pool s)" "q \<notin> set (owned (slabs s i))" for q
  proof -
    have "page_block q \<in> outside (slabs s i, g_page_pool s)" using that by (auto simp: foreign_simp)
    then have "page_block q \<in> outside (a, b)" using fr by simp
    then show ?thesis by (auto simp: foreign_simp)
  qed
  have other: "page_block q \<in> live_blocks b \<and> q \<notin> set (owned a)" if "j \<noteq> i" "q \<in> set (owned (slabs s j))" for j q
  proof (rule keep)
    show "page_block q \<in> live_blocks (g_page_pool s)" using pool.slab_inv_pages(2)[OF slab[of j]] that(2) by auto
    have "set (owned (slabs s j)) \<inter> set (owned (slabs s i)) = {}" using I that(1) by (simp add: mm_inv_def)
    then show "q \<notin> set (owned (slabs s i))" using that(2) by blast
  qed
  have "slab_ok (page_k C) (page_base C) (slab_bytes j) (slab_part j L') (((slabs s)(i := a)) j, b)" for j
  proof (cases "j = i")
    case False
    then have "page_block ` set (owned (slabs s j)) \<subseteq> live_blocks b" using other by blast
    from pool.slab_inv_frame[OF slab P this] show ?thesis using False L'(1) by simp
  qed (use ok in simp)
  moreover have "set (owned (((slabs s)(i := a)) j)) \<inter> set (owned (((slabs s)(i := a)) m)) = {}" if "j \<noteq> m" for j m
  proof -
    have "set (owned (slabs s j)) \<inter> set (owned (slabs s m)) = {}" using I that by (simp add: mm_inv_def)
    then show ?thesis using other[of j] other[of m] that by (cases "j = i"; cases "m = i") auto
  qed
  moreover have "page_block q \<in> live_blocks b \<and> q \<notin> set (owned (((slabs s)(i := a)) j))" if "q \<in> set (page_part L')" for q j
  proof -
    have "page_block q \<in> live_blocks (g_page_pool s)" "\<And>j. q \<notin> set (owned (slabs s j))"
      using I that L'(2) by (simp_all add: mm_inv_def)
    then show ?thesis using keep[of q] by simp
  qed
  ultimately show ?thesis using I P L'(2,3) by (simp add: mm_inv_def)
qed

lemma mm_slab_alloc_step:
  assumes "mm_inv C L s" "mm_slab_alloc i s = (r, s')"
  shows "case r of Inl e \<Rightarrow> (e = Runtime_error \<or> e = Null_deref) \<and> mm_inv C L s' | Inr q \<Rightarrow> mm_inv C (RSlab i q # L) s'"
proof -
  have ok: "slab_ok (page_k C) (page_base C) (slab_bytes i) (slab_part i L) (slabs s i, g_page_pool s)"
    using assms(1) by (simp add: mm_inv_def)
  obtain r' a b where run: "slab_allocate c_alloc_page (slabs s i, g_page_pool s) = (r', (a, b))"
    by (metis prod_cases3)
  then have s': "r = r'" "s' = s\<lparr>slabs := (slabs s)(i := a), g_page_pool := b\<rparr>"
    using assms(2) by (auto simp: mm_slab_alloc_def on_slab_def)
  note A = pool.slab_allocate_inv[OF ok run]
  show ?thesis
  proof (cases r')
    case (Inl e)
    then have "mm_inv C L s'" unfolding s'(2) using A by (intro mm_slab_step[OF assms(1)]) simp_all
    then show ?thesis using A Inl s'(1) by simp
  next
    case (Inr q)
    then have "mm_inv C (RSlab i q # L) s'"
      unfolding s'(2) using A by (intro mm_slab_step[OF assms(1)]) simp_all
    then show ?thesis using Inr s'(1) by simp
  qed
qed

lemma mm_page_step:
  assumes I: "mm_inv C L s" and P: "pool_inv (page_k C) (page_base C) b"
    and keep: "\<And>i q. q \<in> set (owned (slabs s i)) \<Longrightarrow> page_block q \<in> live_blocks b"
    and L': "\<And>j. slab_part j L' = slab_part j L" "huge_part L' = huge_part L" "distinct (page_part L')"
      "\<And>q i. q \<in> set (page_part L') \<Longrightarrow> page_block q \<in> live_blocks b \<and> q \<notin> set (owned (slabs s i))"
  shows "mm_inv C L' (s\<lparr>g_page_pool := b\<rparr>)"
proof -
  have "slab_ok (page_k C) (page_base C) (slab_bytes j) (slab_part j L') (slabs s j, b)" for j
  proof (rule pool.slab_inv_frame[OF _ P])
    show "slab_ok (page_k C) (page_base C) (slab_bytes j) (slab_part j L') (slabs s j, g_page_pool s)"
      using I L'(1) by (simp add: mm_inv_def)
  qed (use keep in auto)
  then show ?thesis using assms by (simp add: mm_inv_def)
qed

lemma owned_live:
  assumes "mm_inv C L s" "q \<in> set (owned (slabs s i))"
  shows "page_block q \<in> live_blocks (g_page_pool s)"
proof -
  have "slab_ok (page_k C) (page_base C) (slab_bytes i) (slab_part i L) (slabs s i, g_page_pool s)"
    using assms(1) by (simp add: mm_inv_def)
  from pool.slab_inv_pages(2)[OF this] assms(2) show ?thesis by auto
qed

lemma mm_alloc_page_step:
  assumes "mm_inv C L s" "mm_alloc_page (g_page_pool s) = (r, b)"
  shows "\<exists>q. r = Inr q \<and> mm_inv C (if q = 0 then L else RPage q # L) (s\<lparr>g_page_pool := b\<rparr>)"
proof -
  have B: "buddy_inv (page_k C) (g_page_pool s)" "m_buffer (g_page_pool s) = page_base C"
    using assms(1) by (simp_all add: mm_inv_def pool_inv_def)
  show ?thesis
  proof (cases "fst (allocate 0x1000 (g_page_pool s))")
    case (Inl e)
    then obtain b1 where a: "allocate 0x1000 (g_page_pool s) = (Inl e, b1)" by (metis prod.collapse)
    note E = allocate_error[OF B(1) a]
    have r: "r = Inr 0" "b = b1" using a E(1) assms(2) by (auto simp: mm_alloc_page_def tryE_def catchable_def)
    have "mm_inv C L (s\<lparr>g_page_pool := b1\<rparr>)"
      by (rule mm_page_step[OF assms(1)]) (use E B(2) assms(1) owned_live[OF assms(1)] in \<open>auto simp: pool_inv_def mm_inv_def\<close>)
    then show ?thesis using r by simp
  next
    case (Inr q)
    then obtain b1 where a: "allocate 0x1000 (g_page_pool s) = (Inr q, b1)" by (metis prod.collapse)
    note A = allocate_live[OF B(1) a, unfolded block_bytes_page]
    have r: "r = Inr q" "b = b1" using a assms(2) by (auto simp: mm_alloc_page_def tryE_def)
    have "m_buffer (g_page_pool s) \<noteq> 0" using B(1) by (auto simp: buddy_inv_def buddy_tree_def)
    then have "q \<noteq> 0" using A(8) unat_gt_0[of "m_buffer (g_page_pool s)"] by auto
    have new: "page_block q \<notin> live_blocks (g_page_pool s)" using A(4) by (auto simp: page_block_def)
    have "mm_inv C (RPage q # L) (s\<lparr>g_page_pool := b1\<rparr>)"
    proof (rule mm_page_step[OF assms(1)])
      show "pool_inv (page_k C) (page_base C) b1" using A(1,2) B(2) by (simp add: pool_inv_def)
      show "page_block x \<in> live_blocks b1" if "x \<in> set (owned (slabs s i))" for i x
        using owned_live[OF assms(1) that] A(3) by simp
      show "distinct (page_part (RPage q # L))" using assms(1) new by (auto simp: mm_inv_def)
      show "page_block x \<in> live_blocks b1 \<and> x \<notin> set (owned (slabs s i))" if "x \<in> set (page_part (RPage q # L))" for x i
      proof (cases "x = q")
        case True
        then show ?thesis using A(3) new owned_live[OF assms(1), of q i] by (auto simp: page_block_def)
      next
        case False
        then show ?thesis using that assms(1) A(3) by (auto simp: mm_inv_def)
      qed
    qed simp_all
    then show ?thesis using r \<open>q \<noteq> 0\<close> by simp
  qed
qed

lemma mm_huge_step:
  assumes I: "mm_inv C L s" and P: "pool_inv (huge_k C) (huge_base C) b"
    and L': "\<And>j. slab_part j L' = slab_part j L" "page_part L' = page_part L" "distinct (huge_part L')"
      "set (huge_part L') = live_blocks b"
  shows "mm_inv C L' (s\<lparr>g_huge_pool := b\<rparr>)"
  using assms by (simp add: mm_inv_def)

lemma mm_huge_alloc_step:
  assumes "mm_inv C L s" "allocate n (g_huge_pool s) = (r, b)"
  shows "case r of Inl e \<Rightarrow> e = Bad_alloc \<and> mm_inv C L (s\<lparr>g_huge_pool := b\<rparr>)
     | Inr q \<Rightarrow> unat n \<le> block_bytes n \<and> mm_inv C (RHuge q (block_bytes n) # L) (s\<lparr>g_huge_pool := b\<rparr>)"
proof -
  have B: "buddy_inv (huge_k C) (g_huge_pool s)" "m_buffer (g_huge_pool s) = huge_base C"
    using assms(1) by (simp_all add: mm_inv_def pool_inv_def)
  have H: "distinct (huge_part L)" "set (huge_part L) = live_blocks (g_huge_pool s)"
    using assms(1) by (simp_all add: mm_inv_def)
  show ?thesis
  proof (cases r)
    case (Inl e)
    note E = allocate_error[OF B(1) assms(2)[unfolded Inl]]
    have "mm_inv C L (s\<lparr>g_huge_pool := b\<rparr>)"
      by (rule mm_huge_step[OF assms(1)]) (use E B(2) H in \<open>simp_all add: pool_inv_def\<close>)
    then show ?thesis using Inl E(1) by simp
  next
    case (Inr q)
    note A = allocate_live[OF B(1) assms(2)[unfolded Inr]]
    have "(unat q, block_bytes n) \<notin> live_blocks (g_huge_pool s)"
      using A(4) extent_ne[of "block_bytes n" "unat q"] A(5,6) by fastforce
    then have "mm_inv C (RHuge q (block_bytes n) # L) (s\<lparr>g_huge_pool := b\<rparr>)"
      by (intro mm_huge_step[OF assms(1)]) (use A B(2) H in \<open>simp_all add: pool_inv_def\<close>)
    then show ?thesis using Inr A(6) by simp
  qed
qed

text \<open>Which slab serves a size.\<close>

definition slab_for :: "u64 \<Rightarrow> slab_id option" where
  "slab_for n = find (\<lambda>i. n \<le> slab_bytes i) all_slabs"

lemma slab_for_le: "slab_for n = Some i \<Longrightarrow> n \<le> slab_bytes i"
  by (auto simp: slab_for_def all_slabs_def split: if_splits)

lemma alloc_unfold:
  "alloc n = (if n = 0 then returnE 0 else tryE
     (case slab_for n of
        Some i \<Rightarrow> mm_slab_alloc i
      | None \<Rightarrow> if n > 0x1000 then huge_poolE (allocate n) else page_poolE mm_alloc_page) (returnE 0))"
  by (simp add: alloc_def slab_for_def all_slabs_def)

lemma slab_ptr_nonzero:
  assumes "mm_inv C L s" "RSlab i q \<in> set L"
  shows "q \<noteq> 0"
proof -
  obtain p where p: "page_block p \<in> live_blocks (g_page_pool s)"
      "extent (unat q, unat (slab_bytes i)) \<subseteq> extent (page_block p)" by (rule slab_region[OF assms])
  have B: "buddy_inv (page_k C) (g_page_pool s)" using assms(1) by (simp add: mm_inv_def pool_inv_def)
  then have "0 < unat (m_buffer (g_page_pool s))" by (auto simp: buddy_inv_def buddy_tree_def unat_gt_0)
  moreover have "unat q \<in> extent (unat q, unat (slab_bytes i))" using slab_bytes_pos by (simp add: extent_def)
  ultimately show ?thesis using p(2) live_blocks_range[OF B p(1)] by fastforce
qed

lemma huge_ptr_nonzero:
  assumes "mm_inv C L s" "RHuge q n \<in> set L"
  shows "q \<noteq> 0"
proof -
  have b: "(unat q, n) \<in> live_blocks (g_huge_pool s)" using assms huge_part_iff by (auto simp: mm_inv_def)
  have B: "buddy_inv (huge_k C) (g_huge_pool s)" using assms(1) by (simp add: mm_inv_def pool_inv_def)
  then have "0 < unat (m_buffer (g_huge_pool s))" by (auto simp: buddy_inv_def buddy_tree_def unat_gt_0)
  moreover obtain t where "buddy_tree (huge_k C) (g_huge_pool s) t" using B by (auto simp: buddy_inv_def)
  then have "0 < n" using live_blocks_tree b by (fastforce simp: bytes_of_def)
  then have "unat q \<in> extent (unat q, n)" by (simp add: extent_def)
  ultimately show ?thesis using live_blocks_range[OF B b] by fastforce
qed

lemma alloc_inv:
  assumes "mm_inv C L s" "alloc n s = (r, s')"
  shows "case r of
      Inl e \<Rightarrow> e = Null_deref \<and> mm_inv C L s'
    | Inr q \<Rightarrow> if q = 0 then mm_inv C L s'
        else \<exists>x. region_ptr x = q \<and> unat n \<le> region_bytes x \<and> mm_inv C (x # L) s'"
proof (cases "n = 0")
  case True
  then show ?thesis using assms by (auto simp: alloc_def)
next
  case False
  show ?thesis
  proof (cases "slab_for n")
    case (Some i)
    obtain r1 s1 where run: "mm_slab_alloc i s = (r1, s1)" by (rule prod.exhaust)
    note A = mm_slab_alloc_step[OF assms(1) run]
    have r: "(r, s') = (case r1 of Inl e \<Rightarrow> if catchable e then (Inr 0, s1) else (Inl e, s1) | Inr q \<Rightarrow> (Inr q, s1))"
      using assms(2) False Some run by (cases r1) (auto simp: alloc_unfold tryE_def split: if_splits)
    show ?thesis
    proof (cases r1)
      case (Inl e)
      then show ?thesis using r A by (auto simp: catchable_def)
    next
      case (Inr q)
      then have I: "mm_inv C (RSlab i q # L) s'" and rq: "r = Inr q" using r A by auto
      moreover have "q \<noteq> 0" using slab_ptr_nonzero[OF I, of i q] by simp
      moreover have "unat n \<le> unat (slab_bytes i)" using slab_for_le[OF Some] by (simp add: word_le_nat_alt)
      ultimately show ?thesis by (auto intro!: exI[of _ "RSlab i q"])
    qed
  next
    case None
    show ?thesis
    proof (cases "n > 0x1000")
      case True
      obtain r1 b where run: "allocate n (g_huge_pool s) = (r1, b)" by (rule prod.exhaust)
      note A = mm_huge_alloc_step[OF assms(1) run]
      have r: "(r, s') = (case r1 of Inl e \<Rightarrow> if catchable e then (Inr 0, s\<lparr>g_huge_pool := b\<rparr>) else (Inl e, s\<lparr>g_huge_pool := b\<rparr>)
          | Inr q \<Rightarrow> (Inr q, s\<lparr>g_huge_pool := b\<rparr>))"
        using assms(2) False None True run
        by (cases r1) (auto simp: alloc_unfold tryE_def huge_poolE_def split: if_splits)
      show ?thesis
      proof (cases r1)
        case (Inl e)
        then show ?thesis using r A by (auto simp: catchable_def)
      next
        case (Inr q)
        then have I: "mm_inv C (RHuge q (block_bytes n) # L) s'" and rq: "r = Inr q" "unat n \<le> block_bytes n" using r A by auto
        moreover have "q \<noteq> 0" using huge_ptr_nonzero[OF I, of q "block_bytes n"] by simp
        ultimately show ?thesis by (auto intro!: exI[of _ "RHuge q (block_bytes n)"])
      qed
    next
      case small: False
      obtain r1 b where run: "mm_alloc_page (g_page_pool s) = (r1, b)" by (rule prod.exhaust)
      obtain q where A: "r1 = Inr q" "mm_inv C (if q = 0 then L else RPage q # L) (s\<lparr>g_page_pool := b\<rparr>)"
        using mm_alloc_page_step[OF assms(1) run] by blast
      have r: "r = Inr q" "s' = s\<lparr>g_page_pool := b\<rparr>"
        using assms(2) False None small run A(1) by (simp_all add: alloc_unfold tryE_def page_poolE_def)
      have "unat n \<le> 4096" using small by (simp add: word_less_nat_alt not_less)
      then show ?thesis using A(2) r by (auto intro!: exI[of _ "RPage q"] split: if_splits)
    qed
  qed
qed

section \<open>Finding the owner of a pointer\<close>

lemma slab_contains_pages:
  assumes "\<forall>q \<in> set (data_pages a). unat q + 4096 < 2 ^ 64"
  shows "slab_contains a x \<longleftrightarrow> (\<exists>q \<in> set (data_pages a). unat x \<in> extent (page_block q))"
proof -
  have "q \<le> x \<and> x < q + 0x1000 \<longleftrightarrow> unat x \<in> extent (page_block q)" if "q \<in> set (data_pages a)" for q
  proof -
    have "unat (q + 0x1000) = unat q + 4096" using unat_add_lem[of q "0x1000"] assms that by simp
    then show ?thesis by (simp add: word_le_nat_alt word_less_nat_alt extent_def page_block_def)
  qed
  moreover have "slab_contains a x \<longleftrightarrow> (\<exists>q \<in> set (data_pages a). q \<le> x \<and> x < q + 0x1000)"
    by (auto simp: slab_contains_def list_ex_iff in_page_def data_pages_def page_list_def)
  ultimately show ?thesis by auto
qed

lemma contains_range:
  assumes "buddy_inv k b" "unat (m_buffer b) + bsize k < 2 ^ 64"
  shows "contains b x \<longleftrightarrow> unat x \<in> {unat (m_buffer b) ..< unat (m_buffer b) + bsize k}"
proof -
  have k: "k < 48" "m_buffer_size b = of_nat (bsize k)" using assms(1) by (auto simp: buddy_inv_def buddy_tree_def)
  then have "unat (m_buffer_size b) = bsize k" using unat_of_nat_u64[OF bsize_less[OF k(1)]] by simp
  then have "unat (m_buffer b + m_buffer_size b) = unat (m_buffer b) + bsize k"
    using unat_add_lem[of "m_buffer b" "m_buffer_size b"] assms(2) by simp
  then show ?thesis by (simp add: contains_def word_le_nat_alt word_less_nat_alt)
qed

lemma owner_Some: "(\<And>j. slab_contains (slabs s j) x \<longleftrightarrow> j = i) \<Longrightarrow> owner s x = Some i"
  by (cases i) (simp_all add: owner_def all_slabs_def)

lemma owner_None: "(\<And>j. \<not> slab_contains (slabs s j) x) \<Longrightarrow> owner s x = None"
  by (simp add: owner_def all_slabs_def)

lemma page_bounds:
  assumes "mm_inv C L s" "page_block q \<in> live_blocks (g_page_pool s)"
  shows "unat q + 4096 < 2 ^ 64" "extent (page_block q) \<subseteq> page_range C"
proof -
  have B: "buddy_inv (page_k C) (g_page_pool s)" "m_buffer (g_page_pool s) = page_base C" "layout_ok C"
    using assms(1) by (simp_all add: mm_inv_def pool_inv_def)
  show sub: "extent (page_block q) \<subseteq> page_range C"
    using live_blocks_range[OF B(1) assms(2)] B(2) by (simp add: page_range_def)
  have "unat q + 4095 \<in> extent (page_block q)" by (simp add: extent_def page_block_def)
  then have "unat q + 4095 < unat (page_base C) + bsize (page_k C)" using sub by (auto simp: page_range_def)
  moreover have "unat (page_base C) + bsize (page_k C) < 2 ^ 64" using B(3) unfolding layout_ok_def by blast
  ultimately show "unat q + 4096 < 2 ^ 64" by linarith
qed

lemma slab_contains_iff_page:
  assumes "mm_inv C L s"
  shows "slab_contains (slabs s i) x \<longleftrightarrow> (\<exists>q \<in> set (data_pages (slabs s i)). unat x \<in> extent (page_block q))"
  by (rule slab_contains_pages)
    (use owned_live[OF assms] page_bounds(1)[OF assms] data_pages_owned in blast)

lemma huge_contains:
  assumes "mm_inv C L s"
  shows "contains (g_huge_pool s) x \<longleftrightarrow> unat x \<in> huge_range C"
proof -
  have B: "buddy_inv (huge_k C) (g_huge_pool s)" "m_buffer (g_huge_pool s) = huge_base C" "layout_ok C"
    using assms(1) by (simp_all add: mm_inv_def pool_inv_def)
  have "unat (m_buffer (g_huge_pool s)) + bsize (huge_k C) < 2 ^ 64"
    using B(2,3) unfolding layout_ok_def by simp
  from contains_range[OF B(1) this] show ?thesis by (simp add: huge_range_def B(2))
qed

lemma owner_slab:
  assumes "mm_inv C L s" "RSlab i q \<in> set L"
  shows "owner s q = Some i"
proof (rule owner_Some)
  fix j
  obtain p where p: "p \<in> set (data_pages (slabs s i))" "page_block p \<in> live_blocks (g_page_pool s)"
      "extent (unat q, unat (slab_bytes i)) \<subseteq> extent (page_block p)" by (rule slab_region[OF assms])
  have q: "unat q \<in> extent (page_block p)" using p(3) slab_bytes_pos[of i] by (auto simp: extent_def)
  show "slab_contains (slabs s j) q \<longleftrightarrow> j = i"
  proof
    assume "slab_contains (slabs s j) q"
    then obtain p' where p': "p' \<in> set (data_pages (slabs s j))" "unat q \<in> extent (page_block p')"
      using slab_contains_iff_page[OF assms(1)] by blast
    then have "page_block p' \<in> live_blocks (g_page_pool s)" using owned_live[OF assms(1)] data_pages_owned by blast
    from page_pool_disjoint[OF assms(1) p(2) this] q p'(2) have "p = p'" by blast
    moreover have "j \<noteq> i \<Longrightarrow> set (owned (slabs s j)) \<inter> set (owned (slabs s i)) = {}"
      using assms(1) by (simp add: mm_inv_def)
    ultimately show "j = i" using p(1) p'(1) data_pages_owned by blast
  next
    assume "j = i"
    then show "slab_contains (slabs s j) q" using slab_contains_iff_page[OF assms(1)] p(1) q by blast
  qed
qed

lemma owner_page:
  assumes "mm_inv C L s" "RPage q \<in> set L"
  shows "owner s q = None" "\<not> contains (g_huge_pool s) q"
proof -
  have live: "page_block q \<in> live_blocks (g_page_pool s)" "\<And>i. q \<notin> set (owned (slabs s i))"
    using assms page_part_iff[of q L] by (simp_all add: mm_inv_def)
  have q: "unat q \<in> extent (page_block q)" by (simp add: extent_def page_block_def)
  show "owner s q = None"
  proof (rule owner_None)
    fix j
    show "\<not> slab_contains (slabs s j) q"
    proof
      assume "slab_contains (slabs s j) q"
      then obtain p where p: "p \<in> set (owned (slabs s j))" "unat q \<in> extent (page_block p)"
        using slab_contains_iff_page[OF assms(1)] data_pages_owned by blast
      from page_pool_disjoint[OF assms(1) owned_live[OF assms(1) p(1)] live(1)] p(2) q have "p = q" by blast
      then show False using p(1) live(2) by blast
    qed
  qed
  have "page_range C \<inter> huge_range C = {}" using assms(1) by (simp add: mm_inv_def layout_ok_def)
  then show "\<not> contains (g_huge_pool s) q"
    using huge_contains[OF assms(1)] page_bounds(2)[OF assms(1) live(1)] q by blast
qed

lemma owner_huge:
  assumes "mm_inv C L s" "RHuge q n \<in> set L"
  shows "owner s q = None" "contains (g_huge_pool s) q" "(unat q, n) \<in> live_blocks (g_huge_pool s)"
    "unat q \<in> extent (unat q, n)"
proof -
  show b: "(unat q, n) \<in> live_blocks (g_huge_pool s)" using assms huge_part_iff by (auto simp: mm_inv_def)
  have B: "buddy_inv (huge_k C) (g_huge_pool s)" "m_buffer (g_huge_pool s) = huge_base C"
    using assms(1) by (simp_all add: mm_inv_def pool_inv_def)
  then obtain t where "buddy_tree (huge_k C) (g_huge_pool s) t" by (auto simp: buddy_inv_def)
  then have "0 < n" using live_blocks_tree b by (fastforce simp: bytes_of_def)
  then show q: "unat q \<in> extent (unat q, n)" by (simp add: extent_def)
  then have h: "unat q \<in> huge_range C" using live_blocks_range[OF B(1) b] B(2) by (auto simp: huge_range_def)
  then show "contains (g_huge_pool s) q" using huge_contains[OF assms(1)] by blast
  have dis: "page_range C \<inter> huge_range C = {}" using assms(1) by (simp add: mm_inv_def layout_ok_def)
  show "owner s q = None"
  proof (rule owner_None)
    fix j
    show "\<not> slab_contains (slabs s j) q"
    proof
      assume "slab_contains (slabs s j) q"
      then obtain p where p: "p \<in> set (owned (slabs s j))" "unat q \<in> extent (page_block p)"
        using slab_contains_iff_page[OF assms(1)] data_pages_owned by blast
      then show False using page_bounds(2)[OF assms(1) owned_live[OF assms(1) p(1)]] h dis by blast
    qed
  qed
qed

section \<open>Release and size\<close>

lemma free_inv:
  assumes "mm_inv C L s" "x \<in> set L"
  shows "\<exists>s'. free (region_ptr x) s = (Inr (), s') \<and> mm_inv C (remove1 x L) s'"
proof (cases x)
  case (RSlab i q)
  have ok: "slab_ok (page_k C) (page_base C) (slab_bytes i) (slab_part i L) (slabs s i, g_page_pool s)"
    using assms(1) by (simp add: mm_inv_def)
  have "q \<in> set (slab_part i L)" using assms(2) RSlab by (simp add: parts_iff)
  then obtain a b where d: "slab_deallocate c_alloc_page q (slabs s i, g_page_pool s) = (Inr (), (a, b))"
      "slab_ok (page_k C) (page_base C) (slab_bytes i) (remove1 q (slab_part i L)) (a, b)"
      "outside (a, b) = outside (slabs s i, g_page_pool s)"
    using pool.slab_deallocate_inv[OF ok] by (metis surj_pair)
  have "mm_inv C (remove1 x L) (s\<lparr>slabs := (slabs s)(i := a), g_page_pool := b\<rparr>)"
    by (rule mm_slab_step[OF assms(1)]) (use d RSlab in simp_all)
  moreover have "owner s q = Some i" using owner_slab[OF assms(1)] assms(2) RSlab by simp
  then have "free q s = (Inr (), s\<lparr>slabs := (slabs s)(i := a), g_page_pool := b\<rparr>)"
    using d(1) by (simp add: free_def on_slab_def)
  ultimately show ?thesis using RSlab by simp
next
  case (RHuge q n)
  note O = owner_huge[OF assms(1), of q n, OF assms(2)[unfolded RHuge]]
  have B: "buddy_inv (huge_k C) (g_huge_pool s)" "m_buffer (g_huge_pool s) = huge_base C"
    "distinct (huge_part L)" "set (huge_part L) = live_blocks (g_huge_pool s)"
    using assms(1) by (simp_all add: mm_inv_def pool_inv_def)
  obtain b where d: "deallocate q (g_huge_pool s) = (Inr (), b)" "buddy_inv (huge_k C) b"
      "m_buffer b = m_buffer (g_huge_pool s)" "live_blocks b = live_blocks (g_huge_pool s) - {(unat q, n)}"
    using deallocate_live[OF B(1) O(3,4)] by blast
  have "mm_inv C (remove1 x L) (s\<lparr>g_huge_pool := b\<rparr>)"
    by (rule mm_huge_step[OF assms(1)]) (use d B RHuge in \<open>simp_all add: pool_inv_def\<close>)
  moreover have "free q s = (Inr (), s\<lparr>g_huge_pool := b\<rparr>)"
    using O(1,2) d(1) by (simp add: free_def huge_poolE_def)
  ultimately show ?thesis using RHuge by simp
next
  case (RPage q)
  note O = owner_page[OF assms(1) assms(2)[unfolded RPage]]
  have live: "page_block q \<in> live_blocks (g_page_pool s)" "\<And>i. q \<notin> set (owned (slabs s i))"
    using assms RPage page_part_iff[of q L] by (simp_all add: mm_inv_def)
  have B: "buddy_inv (page_k C) (g_page_pool s)" "m_buffer (g_page_pool s) = page_base C"
    "distinct (page_part L)" using assms(1) by (simp_all add: mm_inv_def pool_inv_def)
  have "unat q \<in> extent (unat q, 4096)" by (simp add: extent_def)
  then obtain b where d: "deallocate q (g_page_pool s) = (Inr (), b)" "buddy_inv (page_k C) b"
      "m_buffer b = m_buffer (g_page_pool s)" "live_blocks b = live_blocks (g_page_pool s) - {page_block q}"
    using deallocate_live[OF B(1), of "unat q" 4096 q] live(1) by (auto simp: page_block_def)
  have "mm_inv C (remove1 x L) (s\<lparr>g_page_pool := b\<rparr>)"
  proof (rule mm_page_step[OF assms(1)])
    show "pool_inv (page_k C) (page_base C) b" using d B(2) by (simp add: pool_inv_def)
    show "page_block r \<in> live_blocks b" if "r \<in> set (owned (slabs s i))" for i r
      using owned_live[OF assms(1) that] live(2) that d(4) by auto
    show "page_block r \<in> live_blocks b \<and> r \<notin> set (owned (slabs s i))" if "r \<in> set (page_part (remove1 x L))" for r i
      using that assms(1) B(3) d(4) RPage by (auto simp: mm_inv_def)
  qed (use RPage B(3) in simp_all)
  moreover have "free q s = (Inr (), s\<lparr>g_page_pool := b\<rparr>)"
    using O d(1) by (simp add: free_def page_poolE_def mm_free_page_def)
  ultimately show ?thesis using RPage by simp
qed

lemma size_inv:
  assumes "mm_inv C L s" "x \<in> set L"
  shows "mm_size (region_ptr x) s = (Inr (of_nat (region_bytes x)), s)"
proof (cases x)
  case (RSlab i q)
  have "slab_ok (page_k C) (page_base C) (slab_bytes i) (slab_part i L) (slabs s i, g_page_pool s)"
    using assms(1) by (simp add: mm_inv_def)
  then have "m_size (slabs s i) = slab_bytes i" by (simp add: pool.slab_inv_def)
  then show ?thesis using owner_slab[OF assms(1)] assms(2) RSlab by (simp add: mm_size_def slab_size_def)
next
  case (RHuge q n)
  note O = owner_huge[OF assms(1), of q n, OF assms(2)[unfolded RHuge]]
  have "buddy_inv (huge_k C) (g_huge_pool s)" using assms(1) by (simp add: mm_inv_def pool_inv_def)
  from size_of_block[OF this O(3,4)] show ?thesis using O(1,2) RHuge by (simp add: mm_size_def huge_poolE_def)
next
  case (RPage q)
  note O = owner_page[OF assms(1) assms(2)[unfolded RPage]]
  have B: "buddy_inv (page_k C) (g_page_pool s)" "m_buffer (g_page_pool s) = page_base C" "layout_ok C"
    using assms(1) by (simp_all add: mm_inv_def pool_inv_def)
  have live: "page_block q \<in> live_blocks (g_page_pool s)"
    using assms RPage page_part_iff[of q L] by (simp add: mm_inv_def)
  have q: "unat q \<in> extent (unat q, 4096)" by (simp add: extent_def)
  have "contains (g_page_pool s) q"
    using contains_range[OF B(1)] B(2,3) page_bounds(2)[OF assms(1) live] q
    by (auto simp: layout_ok_def page_range_def page_block_def)
  moreover have "size_of q (g_page_pool s) = (Inr (of_nat 4096), g_page_pool s)"
    by (rule size_of_block[OF B(1) _ q]) (use live in \<open>simp add: page_block_def\<close>)
  ultimately show ?thesis using O RPage by (simp add: mm_size_def size_page_def page_poolE_def)
qed

lemma size_null:
  assumes "mm_inv C L s"
  shows "mm_size 0 s = (Inr 0, s)"
proof -
  have B: "buddy_inv (page_k C) (g_page_pool s)" "m_buffer (g_page_pool s) = page_base C"
      "buddy_inv (huge_k C) (g_huge_pool s)" "m_buffer (g_huge_pool s) = huge_base C" "layout_ok C"
    using assms(1) by (simp_all add: mm_inv_def pool_inv_def)
  then have nz: "0 < unat (page_base C)" "0 < unat (huge_base C)"
    by (auto simp: buddy_inv_def buddy_tree_def unat_gt_0)
  have "owner s 0 = None"
  proof (rule owner_None)
    fix j
    show "\<not> slab_contains (slabs s j) 0"
    proof
      assume "slab_contains (slabs s j) 0"
      then obtain p where p: "p \<in> set (owned (slabs s j))" "unat (0 :: u64) \<in> extent (page_block p)"
        using slab_contains_iff_page[OF assms(1)] data_pages_owned by blast
      then show False using page_bounds(2)[OF assms(1) owned_live[OF assms(1) p(1)]] nz(1) by (auto simp: page_range_def)
    qed
  qed
  moreover have "\<not> contains (g_huge_pool s) 0" using huge_contains[OF assms] nz(2) by (simp add: huge_range_def)
  moreover have "\<not> contains (g_page_pool s) 0"
    using contains_range[OF B(1)] B(2,5) nz(1) by (simp add: layout_ok_def)
  ultimately show ?thesis by (simp add: mm_size_def size_page_def)
qed

section \<open>Construction\<close>

definition nodes_for :: "nat \<Rightarrow> node_t list \<Rightarrow> bool" where
  "nodes_for k ns \<longleftrightarrow> 2 ^ Suc k \<le> Suc (length ns) \<and> (\<forall>n \<in> set ns. child0 n = None \<and> child1 n = None)"

definition layout_of :: "nat \<Rightarrow> u64 \<Rightarrow> nat \<Rightarrow> u64 \<Rightarrow> layout" where
  "layout_of kp bp kh bh = \<lparr>page_k = kp, page_base = bp, huge_k = kh, huge_base = bh\<rparr>"

lemma make_memory_manager_inv:
  assumes "kp < 48" "kh < 48" "bp \<noteq> 0" "bh \<noteq> 0" "nodes_for kp np" "nodes_for kh nh" "layout_ok (layout_of kp bp kh bh)"
  shows "mm_inv (layout_of kp bp kh bh) [] (make_memory_manager kp bp np kh bh nh km nm)"
proof -
  have le: "unat bp + bsize kp \<le> 2 ^ 64" "unat bh + bsize kh \<le> 2 ^ 64"
    using assms(7) by (simp_all add: layout_ok_def layout_of_def)
  let ?p = "make_buddy bp kp np" and ?h = "make_buddy bh kh nh"
  have P: "buddy_inv kp ?p" "live_blocks ?p = {}" and H: "buddy_inv kh ?h" "live_blocks ?h = {}"
    using make_buddy_inv[OF assms(1,3) le(1)] make_buddy_inv[OF assms(2,4) le(2)] assms(5,6)
    by (simp_all add: nodes_for_def)
  have base: "m_buffer ?p = bp" "m_buffer ?h = bh" by (simp_all add: make_buddy_def)
  have pool: "pool_inv kp bp ?p" using P(1) base(1) by (simp add: pool_inv_def)
  have run: "make_slab c_alloc_page (slab_bytes i) 0 (empty_allocator, ?p) =
      (Inr (), (empty_allocator\<lparr>m_size := slab_bytes i\<rparr>, ?p))" for i
    using slab_bytes_pos[of i] by (auto simp: make_slab_def putE_def tryE_def empty_allocator_def unat_gt_0)
  have "slab_ok kp bp (slab_bytes i) [] (empty_allocator\<lparr>m_size := slab_bytes i\<rparr>, ?p)" for i
    using pool.make_slab_inv[OF pool slab_bytes_le run[of i]] slab_bytes_pos[of i] by (auto split: if_splits)
  moreover have "owned (empty_allocator\<lparr>m_size := sz\<rparr>) = []" for sz
    by (simp add: owned_def data_pages_def empty_allocator_def)
  ultimately show ?thesis
    using pool H base assms(7) by (simp add: mm_inv_def make_memory_manager_def run layout_of_def pool_inv_def)
qed

section \<open>Clients of the heap\<close>

text \<open>A client holds pointers with the sizes it asked for, and releases only what it holds.\<close>

inductive heap_run :: "memory_manager \<Rightarrow> (u64 \<times> u64) list \<Rightarrow> memory_manager \<Rightarrow> bool" for s0 where
  start: "heap_run s0 [] s0"
| take: "heap_run s0 H s \<Longrightarrow> alloc n s = (Inr q, s') \<Longrightarrow> q \<noteq> 0 \<Longrightarrow> heap_run s0 ((q, n) # H) s'"
| none: "heap_run s0 H s \<Longrightarrow> alloc n s = (Inr 0, s') \<Longrightarrow> heap_run s0 H s'"
| give: "heap_run s0 H s \<Longrightarrow> (q, n) \<in> set H \<Longrightarrow> free q s = (r, s') \<Longrightarrow> heap_run s0 (remove1 (q, n) H) s'"

definition backs :: "region \<Rightarrow> u64 \<times> u64 \<Rightarrow> bool" where
  "backs x h \<longleftrightarrow> region_ptr x = fst h \<and> 0 < unat (snd h) \<and> unat (snd h) \<le> region_bytes x"

lemma region_ptrs_distinct:
  assumes "mm_inv C L s"
  shows "distinct (map region_ptr L)"
proof -
  have A: "apart (map region_block L)" by (rule mm_inv_regions[OF assms])
  have "x = y" if "x \<in> set L" "y \<in> set L" "region_ptr x = region_ptr y" for x y
  proof (rule ccontr)
    assume ne: "x \<noteq> y"
    have "extent (region_block x) \<noteq> {}" "extent (region_block y) \<noteq> {}" using A that by (auto simp: apart_def)
    then have "unat (region_ptr x) \<in> extent (region_block x) \<inter> extent (region_block y)"
      using that(3) by (auto simp: region_block_def extent_def)
    then show False using region_disjoint[OF assms that(1,2) ne] by blast
  qed
  moreover have "distinct L" using A by (simp add: apart_def distinct_map)
  ultimately show ?thesis by (auto simp: distinct_map inj_on_def)
qed

lemma list_all2_remove1:
  assumes "list_all2 R xs ys" "y \<in> set ys" "distinct (map f xs)" "\<And>x y. R x y \<Longrightarrow> f x = g y"
  obtains x where "x \<in> set xs" "R x y" "list_all2 R (remove1 x xs) (remove1 y ys)"
  using assms
proof (induction arbitrary: thesis rule: list_all2_induct)
  case (Cons x xs b ys)
  show ?case
  proof (cases "b = y")
    case True
    then show ?thesis using Cons.prems(1)[of x] Cons.hyps by simp
  next
    case False
    then have "y \<in> set ys" using Cons.prems(2) by simp
    then obtain z where z: "z \<in> set xs" "R z y" "list_all2 R (remove1 z xs) (remove1 y ys)"
      using Cons.IH Cons.prems(3,4) by auto
    have "z \<noteq> x" using z(1) Cons.prems(3) by auto
    then show ?thesis using Cons.prems(1)[of z] z Cons.hyps(1) False by simp
  qed
qed simp

lemma heap_run_inv:
  assumes "heap_run s0 H s" "mm_inv C [] s0"
  shows "\<exists>L. mm_inv C L s \<and> list_all2 backs L H"
  using assms
proof (induction rule: heap_run.induct)
  case start
  then show ?case by (intro exI[of _ "[]"]) simp
next
  case (take H s n q s')
  then obtain L where L: "mm_inv C L s" "list_all2 backs L H" by auto
  obtain x where x: "region_ptr x = q" "unat n \<le> region_bytes x" "mm_inv C (x # L) s'"
    using alloc_inv[OF L(1) take(2)] take(3) by auto
  have "n \<noteq> 0" using take(2,3) by (auto simp: alloc_def)
  then have "list_all2 backs (x # L) ((q, n) # H)" using L(2) x by (simp add: backs_def unat_gt_0)
  then show ?case using x(3) by blast
next
  case (none H s n s')
  then obtain L where L: "mm_inv C L s" "list_all2 backs L H" by auto
  then show ?case using alloc_inv[OF L(1) none(2)] by auto
next
  case (give H s q n r s')
  then obtain L where L: "mm_inv C L s" "list_all2 backs L H" by auto
  obtain x where x: "x \<in> set L" "backs x (q, n)" "list_all2 backs (remove1 x L) (remove1 (q, n) H)"
    by (rule list_all2_remove1[OF L(2) give(2) region_ptrs_distinct[OF L(1)], of fst]) (auto simp: backs_def)
  moreover have "region_ptr x = q" using x(2) by (simp add: backs_def)
  ultimately show ?case using free_inv[OF L(1) x(1)] give(3) by auto
qed

lemma backs_ex: "list_all2 backs L H \<Longrightarrow> h \<in> set H \<Longrightarrow> \<exists>x \<in> set L. backs x h"
  by (induction rule: list_all2_induct) auto

lemma held_apart:
  assumes "mm_inv C L s" "list_all2 backs L H"
  shows "apart (map (\<lambda>(q, n). (unat q, unat n)) H)"
proof -
  have d: "distinct (map region_ptr L)" by (rule region_ptrs_distinct[OF assms(1)])
  have ptrs: "map region_ptr L = map fst H" using assms(2)
    by (induction rule: list_all2_induct) (simp_all add: backs_def)
  note bk = backs_ex[OF assms(2)]
  have dis: "extent (unat (fst h), unat (snd h)) \<inter> extent (unat (fst k), unat (snd k)) = {}"
    if hk: "h \<in> set H" "k \<in> set H" "h \<noteq> k" for h k
  proof -
    obtain x y where xy: "x \<in> set L" "y \<in> set L" "backs x h" "backs y k" using bk hk by blast
    have "fst h \<noteq> fst k" using hk d ptrs by (auto simp: distinct_map inj_on_def)
    then have "x \<noteq> y" using xy(3,4) by (auto simp: backs_def)
    from region_disjoint[OF assms(1) xy(1,2) this] xy(3,4) show ?thesis
      by (fastforce simp: backs_def region_block_def extent_def)
  qed
  have pos: "0 < unat (snd h)" if "h \<in> set H" for h using bk[OF that] by (auto simp: backs_def)
  have "distinct (map fst H)" using d ptrs by simp
  then have "distinct H" by (simp add: distinct_map)
  then show ?thesis
    by (rule apart_mapI) (use dis pos in \<open>auto simp: split_beta extent_def\<close>)
qed

section \<open>The address maps\<close>

definition md_inv :: "memory_manager \<Rightarrow> bool" where
  "md_inv s \<longleftrightarrow>
     (\<forall>v p a. map_of (m_virt_map s) v = Some \<lparr>vt_phys = p, vt_attr = a\<rparr> \<longleftrightarrow>
              map_of (m_phys_map s) p = Some \<lparr>pt_virt = v, pt_attr = a\<rparr>) \<and>
     (\<forall>v e. map_of (m_virt_map s) v = Some e \<longrightarrow> lower v = 0 \<and> lower (vt_phys e) = 0)"

lemma join_parts:
  assumes "lower a = 0"
  shows "upper (a OR lower v) = a" "lower (a OR lower v) = lower v"
proof -
  have a: "\<not> bit a n" if "n < 12" for n
    using arg_cong[OF assms, of "\<lambda>w. bit w n"] that by simp
  show "upper (a OR lower v) = a" by (rule u64_eqI) (use a in \<open>auto simp: bit_or_iff intro: leI\<close>)
  show "lower (a OR lower v) = lower v" by (rule u64_eqI) (use a in \<open>auto simp: bit_or_iff\<close>)
qed

lemma split_join: "upper v OR lower v = v"
  using upper_or_lower[of 12 v] by (simp add: upper_is_upper_from lower_is_lower_from)

lemma virt_entry:
  assumes "md_inv s" "map_of (m_virt_map s) v = Some e"
  shows "map_of (m_phys_map s) (vt_phys e) = Some \<lparr>pt_virt = v, pt_attr = vt_attr e\<rparr>"
    "lower v = 0" "lower (vt_phys e) = 0"
proof -
  have e: "e = \<lparr>vt_phys = vt_phys e, vt_attr = vt_attr e\<rparr>" by simp
  have "map_of (m_virt_map s) v = Some \<lparr>vt_phys = vt_phys e, vt_attr = vt_attr e\<rparr>" using assms(2) e by metis
  then show "map_of (m_phys_map s) (vt_phys e) = Some \<lparr>pt_virt = v, pt_attr = vt_attr e\<rparr>"
    using assms(1) unfolding md_inv_def by blast
  show "lower v = 0" "lower (vt_phys e) = 0" using assms unfolding md_inv_def by blast+
qed

lemma phys_entry:
  assumes "md_inv s" "map_of (m_phys_map s) p = Some e"
  shows "map_of (m_virt_map s) (pt_virt e) = Some \<lparr>vt_phys = p, vt_attr = pt_attr e\<rparr>"
    "lower p = 0" "lower (pt_virt e) = 0"
proof -
  have e: "e = \<lparr>pt_virt = pt_virt e, pt_attr = pt_attr e\<rparr>" by simp
  have "map_of (m_phys_map s) p = Some \<lparr>pt_virt = pt_virt e, pt_attr = pt_attr e\<rparr>" using assms(2) e by metis
  then show v: "map_of (m_virt_map s) (pt_virt e) = Some \<lparr>vt_phys = p, vt_attr = pt_attr e\<rparr>"
    using assms(1) unfolding md_inv_def by blast
  show "lower p = 0" "lower (pt_virt e) = 0" using virt_entry(2,3)[OF assms(1) v] by simp_all
qed

lemma add_md_inv:
  assumes "md_inv s" "add_md v p a s = (Inr (), s')"
  shows "md_inv s'" "map_of (m_virt_map s') = (map_of (m_virt_map s))(v \<mapsto> \<lparr>vt_phys = p, vt_attr = a\<rparr>)"
    "map_of (m_phys_map s') = (map_of (m_phys_map s))(p \<mapsto> \<lparr>pt_virt = v, pt_attr = a\<rparr>)"
proof -
  have R: "lower v = 0" "lower p = 0" "map_of (m_virt_map s) v = None" "map_of (m_phys_map s) p = None"
      "s' = s\<lparr>m_virt_map := AList.update v \<lparr>vt_phys = p, vt_attr = a\<rparr> (m_virt_map s),
             m_phys_map := AList.update p \<lparr>pt_virt = v, pt_attr = a\<rparr> (m_phys_map s)\<rparr>"
    using assms(2) by (auto simp: add_md_def on_failureE_def expectsE_def split: if_splits)
  show vm: "map_of (m_virt_map s') = (map_of (m_virt_map s))(v \<mapsto> \<lparr>vt_phys = p, vt_attr = a\<rparr>)"
    and pm: "map_of (m_phys_map s') = (map_of (m_phys_map s))(p \<mapsto> \<lparr>pt_virt = v, pt_attr = a\<rparr>)"
    using R(5) by (simp_all add: update_conv')
  have "map_of (m_phys_map s) q \<noteq> Some \<lparr>pt_virt = v, pt_attr = b\<rparr>" for q b
    using phys_entry(1)[OF assms(1), of q "\<lparr>pt_virt = v, pt_attr = b\<rparr>"] R(3) by auto
  moreover have "map_of (m_virt_map s) w \<noteq> Some \<lparr>vt_phys = p, vt_attr = b\<rparr>" for w b
    using virt_entry(1)[OF assms(1), of w "\<lparr>vt_phys = p, vt_attr = b\<rparr>"] R(4) by auto
  ultimately show "md_inv s'"
    using assms(1) R(1,2) unfolding md_inv_def vm pm by (auto split: if_splits)
qed

lemma remove_md_inv:
  assumes "md_inv s" "map_of (m_virt_map s) v = Some \<lparr>vt_phys = p, vt_attr = a\<rparr>"
    and "remove_md v p s = (r, s')"
  shows "r = Inr ()" "md_inv s'" "map_of (m_virt_map s') = (map_of (m_virt_map s))(v := None)"
proof -
  note e = virt_entry[OF assms(1,2)]
  have s': "r = Inr ()" "s' = erase_md v p s" using assms(3) e by (auto simp: remove_md_def expectsE_def)
  then show "r = Inr ()" by simp
  have vm: "map_of (m_virt_map s') = (map_of (m_virt_map s))(v := None)"
    and pm: "map_of (m_phys_map s') = (map_of (m_phys_map s))(p := None)"
    using s' by (simp_all add: erase_md_def delete_conv')
  then show "map_of (m_virt_map s') = (map_of (m_virt_map s))(v := None)" by simp
  have "w = v" if "map_of (m_phys_map s) p = Some \<lparr>pt_virt = w, pt_attr = b\<rparr>" for w b using that e(1) by simp
  moreover have "q = p" if "map_of (m_phys_map s) q = Some \<lparr>pt_virt = v, pt_attr = b\<rparr>" for q b
    using phys_entry(1)[OF assms(1) that] assms(2) by simp
  ultimately show "md_inv s'"
    using assms(1) unfolding md_inv_def vm pm by (auto split: if_splits)
qed

end
