(* ===== verification/Memory_Properties.thy ===== *)
theory Memory_Properties
  imports Memory_Spec
begin

text \<open>
  The properties of the memory manager: safety of the heap for its clients, what \<open>size\<close>,
  \<open>realloc\<close> and the address maps do, and the two failure paths that do not behave as meant.
\<close>

section \<open>The heap\<close>

text \<open>
  C7. The hypervisor's heap is safe for every client that releases only what it holds: along every
  interleaving of \<open>alloc\<close> and \<open>free\<close> from construction, the regions held are
  pairwise disjoint over the sizes asked for, \<open>free\<close> of a held pointer succeeds, and a
  further \<open>alloc\<close> returns a pointer or null except for one failure, the null page cleared
  by \<open>alloc_page\<close> (see C10).
\<close>

theorem heap_client_safe:
  assumes "kp < 48" "kh < 48" "bp \<noteq> 0" "bh \<noteq> 0" "nodes_for kp np" "nodes_for kh nh"
    and "layout_ok (layout_of kp bp kh bh)"
    and "heap_run (make_memory_manager kp bp np kh bh nh km nm) H s"
  shows "apart (map (\<lambda>(q, n). (unat q, unat n)) H) \<and>
    (\<forall>(q, n) \<in> set H. fst (free q s) = Inr ()) \<and>
    (\<forall>n e. fst (alloc n s) = Inl e \<longrightarrow> e = Null_deref)"
proof -
  obtain L where L: "mm_inv (layout_of kp bp kh bh) L s" "list_all2 backs L H"
    using heap_run_inv[OF assms(8) make_memory_manager_inv[OF assms(1-7)]] by blast
  have "fst (free q s) = Inr ()" if qn: "(q, n) \<in> set H" for q n
  proof -
    obtain x where "x \<in> set L" "region_ptr x = q"
      using backs_ex[OF L(2) qn] by (auto simp: backs_def)
    then show ?thesis using free_inv[OF L(1)] by fastforce
  qed
  moreover have "e = Null_deref" if "fst (alloc n s) = Inl e" for n e
    using alloc_inv[OF L(1) prod.collapse[symmetric], of n] that by simp
  ultimately show ?thesis using held_apart[OF L] by blast
qed

text \<open>
  C8. \<open>size\<close> of a region the heap handed out is the size of the region, whichever of the
  slabs and pools it came from.
\<close>

theorem heap_size_spec:
  assumes "mm_inv C L s" "x \<in> set L"
  shows "mm_size (region_ptr x) s = (Inr (of_nat (region_bytes x)), s)"
  by (rule size_inv[OF assms])

text \<open>
  C9. \<open>realloc\<close> of a live region to a new size moves it: the new region is large enough,
  the old one is released, and as many bytes are copied as both hold.
\<close>

theorem realloc_spec:
  assumes "mm_inv C L s" "x \<in> set L" "region_bytes x < 2 ^ 64" "alloc n s = (Inr q, s1)" "q \<noteq> 0"
  shows "\<exists>y s'. region_ptr y = q \<and> unat n \<le> region_bytes y \<and> mm_inv C (y # remove1 x L) s' \<and>
    realloc_r (region_ptr x) n s = (Inr (q, of_nat (min (unat n) (region_bytes x))), s')"
proof -
  obtain y where y: "region_ptr y = q" "unat n \<le> region_bytes y" "mm_inv C (y # L) s1"
    using alloc_inv[OF assms(1,4)] assms(5) by auto
  have ne: "x \<noteq> y" using mm_inv_regions[OF y(3)] assms(2) by (auto simp: apart_def)
  obtain s' where f: "free (region_ptr x) s1 = (Inr (), s')" "mm_inv C (y # remove1 x L) s'"
    using free_inv[OF y(3), of x] assms(2) ne by auto
  have pos: "0 < region_bytes x"
    using mm_inv_regions[OF assms(1)] assms(2) by (auto simp: apart_def region_block_def extent_def)
  have old: "mm_size (region_ptr x) s = (Inr (of_nat (region_bytes x)), s)" by (rule size_inv[OF assms(1,2)])
  have u: "unat (of_nat (region_bytes x) :: u64) = region_bytes x" by (rule unat_of_nat_u64[OF assms(3)])
  then have nz: "(of_nat (region_bytes x) :: u64) \<noteq> 0" using pos by (metis less_irrefl unat_0)
  have "region_ptr x \<noteq> 0"
  proof
    assume "region_ptr x = 0"
    then show False using size_null[OF assms(1)] old nz by simp
  qed
  moreover have "(if n > of_nat (region_bytes x) then of_nat (region_bytes x) else n) =
      (of_nat (min (unat n) (region_bytes x)) :: u64)"
    using u by (simp add: word_less_nat_alt min_def)
  ultimately have "realloc_r (region_ptr x) n s = (Inr (q, of_nat (min (unat n) (region_bytes x))), s')"
    using old assms(4,5) f(1) nz by (simp add: realloc_r_def bindE_def seqE_def)
  then show ?thesis using y(1,2) f(2) by blast
qed


text \<open>
  C11. \<open>realloc\<close> of a null pointer, which the C standard defines to be \<open>malloc\<close>,
  returns null and leaks the region it allocated.
\<close>

theorem realloc_null_leaks:
  assumes "mm_inv C L s" "alloc n s = (Inr q, s')" "q \<noteq> 0"
  shows "realloc_r 0 n s = (Inr (0, 0), s') \<and> (\<exists>x. region_ptr x = q \<and> mm_inv C (x # L) s')"
proof -
  have "realloc_r 0 n s = (Inr (0, 0), s')"
    using size_null[OF assms(1)] assms(2) by (simp add: realloc_r_def bindE_def)
  then show ?thesis using alloc_inv[OF assms(1,2)] assms(3) by auto
qed

section \<open>The address maps\<close>

text \<open>
  C12. The address maps stay inverse to each other: after a successful \<open>add_md\<close> every
  address of the page translates to the physical page and back, at any offset, and every
  translation that was defined before is unchanged.
\<close>

theorem add_md_spec:
  assumes "md_inv s" "add_md v p a s = (Inr (), s')" "upper x = v" "upper y \<noteq> v"
  shows "md_inv s' \<and> virtint_to_physint x s' = (Inr (p OR lower x), s') \<and>
    physint_to_virtint (p OR lower x) s' = (Inr x, s') \<and>
    fst (virtint_to_physint y s') = fst (virtint_to_physint y s)"
proof -
  note A = add_md_inv[OF assms(1,2)]
  have "lower p = 0" using virt_entry(3)[OF A(1), of v] A(2) by simp
  then have "upper (p OR lower x) = p" "lower (p OR lower x) = lower x" by (rule join_parts)+
  moreover have "v OR lower x = x" using split_join[of x] assms(3) by simp
  ultimately show ?thesis
    using A assms(3,4) by (simp add: virtint_to_physint_def physint_to_virtint_def split: option.splits)
qed

text \<open>
  C13. Translation is a bijection between the addresses of the mapped pages: a physical address
  obtained from a virtual one translates back to it, and conversely.
\<close>

theorem translate_roundtrip:
  assumes "md_inv s"
  shows "virtint_to_physint v s = (Inr p, s) \<longleftrightarrow> physint_to_virtint p s = (Inr v, s)"
proof
  assume "virtint_to_physint v s = (Inr p, s)"
  then obtain e where e: "map_of (m_virt_map s) (upper v) = Some e" "p = vt_phys e OR lower v"
    by (auto simp: virtint_to_physint_def split: option.splits)
  note E = virt_entry[OF assms e(1)]
  show "physint_to_virtint p s = (Inr v, s)"
    using E(1) join_parts[OF E(3), of v] e(2) split_join[of v] by (simp add: physint_to_virtint_def)
next
  assume "physint_to_virtint p s = (Inr v, s)"
  then obtain e where e: "map_of (m_phys_map s) (upper p) = Some e" "v = pt_virt e OR lower p"
    by (auto simp: physint_to_virtint_def split: option.splits)
  note E = phys_entry[OF assms e(1)]
  show "virtint_to_physint v s = (Inr p, s)"
    using E(1) join_parts[OF E(3), of p] e(2) split_join[of p] by (simp add: virtint_to_physint_def)
qed


section \<open>Concrete runs\<close>

text \<open>A manager with a page pool of four pages and a huge pool of two.\<close>

definition mm0 :: memory_manager where
  "mm0 = make_memory_manager 2 0x100000 (replicate 7 zero_node) 1 0x200000 (replicate 3 zero_node)
           0 (replicate 1 zero_node)"

abbreviation layout0 :: layout where
  "layout0 \<equiv> layout_of 2 0x100000 1 0x200000"

definition mm1 :: memory_manager where
  "mm1 = snd (alloc 0x700 mm0)"

lemma layout0_ok: "layout_ok layout0"
  by (auto simp: layout_ok_def layout_of_def page_range_def huge_range_def bsize_def)

lemma mm0_inv: "mm_inv layout0 [] mm0"
  unfolding mm0_def
  by (rule make_memory_manager_inv[OF _ _ _ _ _ _ layout0_ok]) (simp_all add: nodes_for_def zero_node_def)

lemma mm0_alloc: "alloc 0x700 mm0 = (Inr 0x101800, mm1)"
  unfolding mm1_def prod_eq_iff fst_conv snd_conv by (intro conjI refl) code_simp

lemma mm1_inv: "mm_inv layout0 [RSlab slab800 0x101800] mm1"
proof -
  obtain r s1 where r: "mm_slab_alloc slab800 mm0 = (r, s1)" by (rule prod.exhaust)
  have f: "slab_for 0x700 = Some slab800" by code_simp
  have "r = Inr 0x101800" "s1 = mm1"
    using mm0_alloc r mm_slab_alloc_step[OF mm0_inv r]
    by (auto simp: alloc_unfold f tryE_def catchable_def split: sum.splits if_splits)
  then show ?thesis using mm_slab_alloc_step[OF mm0_inv r] by simp
qed

theorem heap_client_safe_witness:
  "apart [(0x101800, 0x700)] \<and> fst (free 0x101800 mm1) = Inr ()"
proof -
  have run: "heap_run mm0 [(0x101800, 0x700)] mm1"
    by (rule heap_run.take[OF heap_run.start mm0_alloc]) simp
  have "apart (map (\<lambda>(q, n). (unat q, unat n)) [(0x101800 :: u64, 0x700 :: u64)]) \<and>
      (\<forall>(q, n) \<in> set [(0x101800 :: u64, 0x700 :: u64)]. fst (free q mm1) = Inr ())"
    using heap_client_safe[OF _ _ _ _ _ _ layout0_ok run[unfolded mm0_def]] by (simp add: nodes_for_def zero_node_def)
  then show ?thesis by simp
qed

theorem heap_size_spec_witness: "mm_size 0x101800 mm1 = (Inr 0x800, mm1)"
  using heap_size_spec[OF mm1_inv, of "RSlab slab800 0x101800"] by simp

text \<open>The second object of the slab page serves the reallocation.\<close>

definition mm2 :: memory_manager where
  "mm2 = snd (alloc 0x600 mm1)"

lemma mm1_alloc: "alloc 0x600 mm1 = (Inr 0x101000, mm2)"
  unfolding mm2_def mm1_def prod_eq_iff fst_conv snd_conv by (intro conjI refl) code_simp

theorem realloc_spec_witness:
  "\<exists>s'. realloc_r 0x101800 0x600 mm1 = (Inr (0x101000, 0x600), s')"
  using realloc_spec[OF mm1_inv, of "RSlab slab800 0x101800" "0x600" "0x101000" mm2] mm1_alloc by auto

theorem realloc_null_leaks_witness:
  "realloc_r 0 0x600 mm1 = (Inr (0, 0), mm2) \<and> (\<exists>x. region_ptr x = 0x101000)"
  using realloc_null_leaks[OF mm1_inv mm1_alloc] by auto

text \<open>A manager whose page pool is a single page, already taken.\<close>

definition mm_full0 :: memory_manager where
  "mm_full0 = make_memory_manager 0 0x100000 (replicate 1 zero_node) 1 0x200000 (replicate 3 zero_node)
           0 (replicate 1 zero_node)"

definition mm_full :: memory_manager where
  "mm_full = snd (alloc 0x1000 mm_full0)"

lemma mm_full_inv: "mm_inv (layout_of 0 0x100000 1 0x200000) [RPage 0x100000] mm_full"
proof -
  have l: "layout_ok (layout_of 0 0x100000 1 0x200000)"
    by (auto simp: layout_ok_def layout_of_def page_range_def huge_range_def bsize_def)
  have I: "mm_inv (layout_of 0 0x100000 1 0x200000) [] mm_full0"
    unfolding mm_full0_def
    by (rule make_memory_manager_inv[OF _ _ _ _ _ _ l]) (simp_all add: nodes_for_def zero_node_def)
  obtain r b where run: "mm_alloc_page (g_page_pool mm_full0) = (r, b)" by (rule prod.exhaust)
  have f: "slab_for 0x1000 = None" by code_simp
  have "fst (alloc 0x1000 mm_full0) = Inr 0x100000" by code_simp
  then have "r = Inr 0x100000" "mm_full = mm_full0\<lparr>g_page_pool := b\<rparr>"
    using mm_alloc_page_step[OF I run] run by (auto simp: mm_full_def alloc_unfold f page_poolE_def)
  then show ?thesis using mm_alloc_page_step[OF I run] by auto
qed


text \<open>A virtual page mapped to a physical one, and a second attempt to map it.\<close>

definition mm_md :: memory_manager where
  "mm_md = snd (add_md 0x4000 0x9000 7 mm0)"

lemma mm0_md: "md_inv mm0"
  by (simp add: md_inv_def mm0_def make_memory_manager_def)

lemma mm0_add: "add_md 0x4000 0x9000 7 mm0 = (Inr (), mm_md)"
proof -
  have "lower 0x4000 = 0" "lower 0x9000 = 0" by code_simp+
  then show ?thesis
    by (simp add: mm_md_def add_md_def on_failureE_def expectsE_def mm0_def make_memory_manager_def)
qed

theorem add_md_spec_witness:
  "virtint_to_physint 0x4123 mm_md = (Inr 0x9123, mm_md) \<and> physint_to_virtint 0x9123 mm_md = (Inr 0x4123, mm_md)"
proof -
  have e: "upper 0x4123 = 0x4000" "upper 0x8000 \<noteq> 0x4000" "0x9000 OR lower 0x4123 = 0x9123" by code_simp+
  show ?thesis using add_md_spec[OF mm0_md mm0_add e(1,2)] e(3) by simp
qed

lemma mm_md_inv: "md_inv mm_md" "map_of (m_virt_map mm_md) 0x4000 = Some \<lparr>vt_phys = 0x9000, vt_attr = 7\<rparr>"
  using add_md_inv(1,2)[OF mm0_md mm0_add] by simp_all

theorem translate_roundtrip_witness:
  "virtint_to_physint 0x4123 mm_md = (Inr 0x9123, mm_md) \<and> physint_to_virtint 0x9123 mm_md = (Inr 0x4123, mm_md)"
proof -
  have "upper 0x4123 = 0x4000" "0x9000 OR lower 0x4123 = 0x9123" by code_simp+
  then have v: "virtint_to_physint 0x4123 mm_md = (Inr 0x9123, mm_md)"
    using mm_md_inv(2) by (simp add: virtint_to_physint_def)
  then show ?thesis using translate_roundtrip[OF mm_md_inv(1), of "0x4123" "0x9123"] by blast
qed


end
