(* ===== verification/Ept_Entry.thy ===== *)
theory Ept_Entry
  imports Bit_Manip
begin

text \<open>
  The entries of the extended page tables,
  \<open>src/bareflank/bfintrinsics/include/arch/intel_x64/ept.h\<close>.  Each level has a namespace with
  the position of every field; the accessors are the same at every level and take the field as an
  argument here.
\<close>

section \<open>Field layouts\<close>

text \<open>A one-bit field is its bit number, a wider field its mask and shift.\<close>

record bit_field =
  bf_mask :: u64
  bf_from :: nat

record entry_layout =
  read_access :: nat
  write_access :: nat
  execute_access :: nat
  accessed_flag :: nat
  execute_access_user :: nat
  phys_addr :: bit_field
  suppress_ve :: nat

text \<open>The levels whose entries can map a page have more fields.\<close>

record leaf_layout = entry_layout +
  memory_type :: bit_field
  ignore_pat :: nat
  ps :: nat
  dirty :: nat

definition pml4_entry :: entry_layout where
  "pml4_entry = \<lparr>read_access = 0, write_access = 1, execute_access = 2, accessed_flag = 8,
     execute_access_user = 10, phys_addr = \<lparr>bf_mask = 0x0000FFFFFFFFF000, bf_from = 0\<rparr>, suppress_ve = 63\<rparr>"

definition pdpt_entry :: leaf_layout where
  "pdpt_entry = \<lparr>read_access = 0, write_access = 1, execute_access = 2, accessed_flag = 8,
     execute_access_user = 10, phys_addr = \<lparr>bf_mask = 0x0000FFFFFFFFF000, bf_from = 0\<rparr>, suppress_ve = 63,
     memory_type = \<lparr>bf_mask = 0x0000000000000038, bf_from = 3\<rparr>, ignore_pat = 6, ps = 7, dirty = 9\<rparr>"

definition pd_entry :: leaf_layout where
  "pd_entry = \<lparr>read_access = 0, write_access = 1, execute_access = 2, accessed_flag = 8,
     execute_access_user = 10, phys_addr = \<lparr>bf_mask = 0x0000FFFFFFFFF000, bf_from = 0\<rparr>, suppress_ve = 63,
     memory_type = \<lparr>bf_mask = 0x0000000000000038, bf_from = 3\<rparr>, ignore_pat = 6, ps = 7, dirty = 9\<rparr>"

definition pt_entry :: leaf_layout where
  "pt_entry = \<lparr>read_access = 0, write_access = 1, execute_access = 2, accessed_flag = 8,
     execute_access_user = 10, phys_addr = \<lparr>bf_mask = 0x0000FFFFFFFFF000, bf_from = 0\<rparr>, suppress_ve = 63,
     memory_type = \<lparr>bf_mask = 0x0000000000000038, bf_from = 3\<rparr>, ignore_pat = 6, ps = 7, dirty = 9\<rparr>"

lemmas layouts [simp] = pml4_entry_def pdpt_entry_def pd_entry_def pt_entry_def

section \<open>Accessors\<close>

definition flag_is_enabled :: "nat \<Rightarrow> u64 \<Rightarrow> bool" where
  "flag_is_enabled f e = is_bit_set e f"

definition flag_is_disabled :: "nat \<Rightarrow> u64 \<Rightarrow> bool" where
  "flag_is_disabled f e = (\<not> is_bit_set e f)"

definition flag_enable :: "nat \<Rightarrow> u64 \<Rightarrow> u64" where
  "flag_enable f e = set_bit_u64 e f"

definition flag_disable :: "nat \<Rightarrow> u64 \<Rightarrow> u64" where
  "flag_disable f e = clear_bit_u64 e f"

definition field_get :: "bit_field \<Rightarrow> u64 \<Rightarrow> u64" where
  "field_get f e = drop_bit (bf_from f) (get_bits e (bf_mask f))"

definition field_set :: "bit_field \<Rightarrow> u64 \<Rightarrow> u64 \<Rightarrow> u64" where
  "field_set f v e = set_bits e (bf_mask f) (push_bit (bf_from f) v)"

section \<open>Levels and indices\<close>

definition num_entries :: nat where
  "num_entries = 512"

definition pml4_from :: nat where "pml4_from = 39"
definition pdpt_from :: nat where "pdpt_from = 30"
definition pd_from :: nat where "pd_from = 21"
definition pt_from :: nat where "pt_from = 12"

definition pdpt_page_size :: u64 where "pdpt_page_size = 0x40000000"
definition pd_page_size :: u64 where "pd_page_size = 0x200000"
definition pt_page_size :: u64 where "pt_page_size = 0x1000"

definition table_index :: "nat \<Rightarrow> u64 \<Rightarrow> nat" where
  "table_index from virt = unat (drop_bit from (virt AND push_bit from 0x1FF))"

definition pml4_index :: "u64 \<Rightarrow> nat" where "pml4_index virt = table_index pml4_from virt"
definition pdpt_index :: "u64 \<Rightarrow> nat" where "pdpt_index virt = table_index pdpt_from virt"
definition pd_index :: "u64 \<Rightarrow> nat" where "pd_index virt = table_index pd_from virt"
definition pt_index :: "u64 \<Rightarrow> nat" where "pt_index virt = table_index pt_from virt"

section \<open>Facts about the accessors\<close>

lemma bit_1FF: "bit (0x1FF :: u64) n \<longleftrightarrow> n < 9"
proof -
  have "(0x1FF :: u64) = mask 9" by (simp add: mask_eq_exp_minus_1)
  then show ?thesis by (simp only: bit_mask_iff) auto
qed

lemma bit_table_index: "from \<le> 55 \<Longrightarrow> bit (drop_bit from (virt AND push_bit from 0x1FF) :: u64) n \<longleftrightarrow> n < 9 \<and> bit virt (from + n)"
  by (auto simp: bit_drop_bit_eq bit_and_iff bit_push_bit_iff bit_1FF simp del: bit_numeral_word_iff
      dest: bit_imp_le_length)

lemma table_index_less [simp]:
  assumes "from \<le> 55"
  shows "table_index from virt < 512"
proof -
  let ?w = "drop_bit from (virt AND push_bit from 0x1FF) :: u64"
  have "take_bit 9 ?w = ?w"
    by (rule u64_eqI, unfold bit_take_bit_iff bit_table_index[OF assms]) blast
  then have "unat ?w < 2 ^ 9" by (rule take_bit_unat_less)
  then show ?thesis by (simp add: table_index_def)
qed

lemma table_index_eq_iff:
  assumes "from \<le> 55"
  shows "table_index from x = table_index from y \<longleftrightarrow> (\<forall>n. from \<le> n \<longrightarrow> n < from + 9 \<longrightarrow> bit x n = bit y n)"
proof
  assume "table_index from x = table_index from y"
  then have e: "drop_bit from (x AND push_bit from 0x1FF) = (drop_bit from (y AND push_bit from 0x1FF) :: u64)"
    by (simp only: table_index_def word_unat_eq_iff)
  show "\<forall>n. from \<le> n \<longrightarrow> n < from + 9 \<longrightarrow> bit x n = bit y n"
  proof (intro allI impI)
    fix n assume n: "from \<le> n" "n < from + 9"
    have "bit (drop_bit from (x AND push_bit from 0x1FF) :: u64) (n - from) =
        bit (drop_bit from (y AND push_bit from 0x1FF) :: u64) (n - from)" using e by simp
    moreover have "n - from < 9" "from + (n - from) = n" using n by auto
    ultimately show "bit x n = bit y n" unfolding bit_table_index[OF assms] by metis
  qed
next
  assume b: "\<forall>n. from \<le> n \<longrightarrow> n < from + 9 \<longrightarrow> bit x n = bit y n"
  have "drop_bit from (x AND push_bit from 0x1FF) = (drop_bit from (y AND push_bit from 0x1FF) :: u64)"
  proof (rule u64_eqI, unfold bit_table_index[OF assms])
    fix n
    show "(n < 9 \<and> bit x (from + n)) = (n < 9 \<and> bit y (from + n))" using b[rule_format, of "from + n"] by auto
  qed
  then show "table_index from x = table_index from y" by (simp add: table_index_def)
qed

end
