(* ===== verification/Page_Table.thy ===== *)
theory Page_Table
  imports Ept_Entry
begin

text \<open>
  Four-level page tables.  The sources have two classes for them with the same text up to the format
  of an entry: the extended page tables of
  \<open>src/extended_apis/bfvmm/include/hve/arch/intel_x64/ept/mmap.h\<close> and the tables of the
  hypervisor itself, \<open>src/bareflank/bfvmm/include/memory_manager/arch/x64/cr3/mmap.h\<close>.
  The operations are defined here once, over the entry format; \<open>Ept_Map\<close> and
  \<open>Cr3_Map\<close> give the two formats.

  The tables are pages of 512 entries; \<open>mem\<close> gives the contents of each page by its virtual
  address.  The map caches, for each level, the table it looked at last, as a pair of virtual and
  physical address: the members \<open>m_pml4\<close>, \<open>m_pdpt\<close>, \<open>m_pd\<close> and
  \<open>m_pt\<close> are \<open>m_tab\<close> at the four levels.  A reference to an entry is its page and
  index.  Pages and the translation between virtual and physical addresses come from the memory
  manager, whose state is the second component; its operations are an argument.
\<close>

datatype level = PML4 | PDPT | PD | PT

record pair =
  pr_virt :: u64
  pr_phys :: u64

record mmap =
  m_tab :: "level \<Rightarrow> pair"
  mem :: "u64 \<Rightarrow> nat \<Rightarrow> u64"

type_synonym eref = "u64 \<times> nat"

type_synonym 'p tables = "mmap \<times> 'p"

text \<open>What the tables use of the memory manager, and the entry format.\<close>

record 'p page_ops =
  op_alloc :: "('p, u64) op"
  op_free :: "u64 \<Rightarrow> ('p, unit) op"
  op_v2p :: "u64 \<Rightarrow> ('p, u64) op"
  op_p2v :: "u64 \<Rightarrow> ('p, u64) op"

text \<open>
  \<open>tf_phys\<close> is \<open>phys_addr::get\<close>, \<open>tf_ps\<close> is
  \<open>ps::is_enabled\<close>, and \<open>tf_link\<close> is what is written to an entry that is to
  point to the table at a physical address.
\<close>

record 'p paging = "'p page_ops" +
  tf_phys :: "level \<Rightarrow> u64 \<Rightarrow> u64"
  tf_ps :: "level \<Rightarrow> u64 \<Rightarrow> bool"
  tf_link :: "level \<Rightarrow> u64 \<Rightarrow> u64 \<Rightarrow> u64"

section \<open>Access to the state\<close>

definition mmE :: "('p, 'a) op \<Rightarrow> ('p tables, 'a) op" where
  "mmE m = (\<lambda>s. case m (snd s) of (r, p) \<Rightarrow> (r, (fst s, p)))"

definition tabE :: "level \<Rightarrow> ('p tables, pair) op" where
  "tabE l = getE (\<lambda>s. m_tab (fst s) l)"

definition set_tab :: "level \<Rightarrow> pair \<Rightarrow> ('p tables, unit) op" where
  "set_tab l c = modifyE (\<lambda>s. ((fst s)\<lparr>m_tab := (m_tab (fst s))(l := c)\<rparr>, snd s))"

text \<open>
  A \<open>gsl::span\<close> of the entries of a page; \<open>at\<close> checks the index.  The span of a
  default \<open>pair\<close> is empty: it is the one at the null address.
\<close>

definition read_at :: "u64 \<Rightarrow> nat \<Rightarrow> ('p tables, u64) op" where
  "read_at page i =
     (if page \<noteq> 0 \<and> i < num_entries then getE (\<lambda>s. mem (fst s) page i) else throwE Expects_failed)"

definition write_mem :: "u64 \<Rightarrow> nat \<Rightarrow> u64 \<Rightarrow> mmap \<Rightarrow> mmap" where
  "write_mem page i e m = m\<lparr>mem := (mem m)(page := (mem m page)(i := e))\<rparr>"

definition upd_at :: "u64 \<Rightarrow> nat \<Rightarrow> (u64 \<Rightarrow> u64) \<Rightarrow> ('p tables, unit) op" where
  "upd_at page i f =
     (if page \<noteq> 0 \<and> i < num_entries
      then modifyE (\<lambda>s. (write_mem page i (f (mem (fst s) page i)) (fst s), snd s))
      else throwE Expects_failed)"

definition null_pair :: pair where
  "null_pair = \<lparr>pr_virt = 0, pr_phys = 0\<rparr>"

section \<open>Tables\<close>

text \<open>\<open>alloc_page\<close> returns a cleared page.\<close>

definition clear_page :: "u64 \<Rightarrow> mmap \<Rightarrow> mmap" where
  "clear_page q m = m\<lparr>mem := (mem m)(q := (\<lambda>i. 0))\<rparr>"

definition allocate_span :: "('p, 'z) paging_scheme \<Rightarrow> ('p tables, u64) op" where
  "allocate_span E =
     bindE (mmE (op_alloc E)) (\<lambda>q.
     seqE (modifyE (\<lambda>s. (clear_page q (fst s), snd s)))
          (returnE q))"

definition allocate_table :: "('p, 'z) paging_scheme \<Rightarrow> ('p tables, pair) op" where
  "allocate_table E =
     bindE (allocate_span E) (\<lambda>q.
     bindE (mmE (op_v2p E q)) (\<lambda>pa.
     returnE \<lparr>pr_virt = q, pr_phys = pa\<rparr>))"

definition free_table :: "('p, 'z) paging_scheme \<Rightarrow> u64 \<Rightarrow> ('p tables, unit) op" where
  "free_table E q = mmE (op_free E q)"

definition phys_to_pair :: "('p, 'z) paging_scheme \<Rightarrow> u64 \<Rightarrow> ('p tables, pair) op" where
  "phys_to_pair E pa =
     bindE (mmE (op_p2v E pa)) (\<lambda>q. returnE \<lparr>pr_virt = q, pr_phys = pa\<rparr>)"

definition map_table :: "('p, 'z) paging_scheme \<Rightarrow> level \<Rightarrow> level \<Rightarrow> nat \<Rightarrow> ('p tables, unit) op" where
  "map_table E parent child i =
     bindE (tabE parent) (\<lambda>t.
     bindE (read_at (pr_virt t) i) (\<lambda>entry.
     if entry \<noteq> 0 then
       let pa = tf_phys E parent entry in
       bindE (tabE child) (\<lambda>c.
       if pr_phys c = pa then returnE ()
       else bindE (phys_to_pair E pa) (set_tab child))
     else
       bindE (allocate_table E) (\<lambda>c.
       seqE (set_tab child c)
            (upd_at (pr_virt t) i (tf_link E parent (pr_phys c))))))"

definition map_pdpt :: "('p, 'z) paging_scheme \<Rightarrow> nat \<Rightarrow> ('p tables, unit) op" where
  "map_pdpt E pml4i = map_table E PML4 PDPT pml4i"

definition map_pd :: "('p, 'z) paging_scheme \<Rightarrow> nat \<Rightarrow> ('p tables, unit) op" where
  "map_pd E pdpti = map_table E PDPT PD pdpti"

definition map_pt :: "('p, 'z) paging_scheme \<Rightarrow> nat \<Rightarrow> ('p tables, unit) op" where
  "map_pt E pdi = map_table E PD PT pdi"

section \<open>Leaf entries\<close>

text \<open>A leaf is written only over an empty entry; \<open>f\<close> is what the format writes.\<close>

definition map_leaf :: "level \<Rightarrow> nat \<Rightarrow> (u64 \<Rightarrow> u64) \<Rightarrow> ('p tables, eref) op" where
  "map_leaf l i f =
     bindE (tabE l) (\<lambda>t.
     bindE (read_at (pr_virt t) i) (\<lambda>entry.
     if entry \<noteq> 0 then throwE Runtime_error
     else seqE (upd_at (pr_virt t) i f) (returnE (pr_virt t, i))))"

definition map_1g :: "('p, 'z) paging_scheme \<Rightarrow> u64 \<Rightarrow> (u64 \<Rightarrow> u64) \<Rightarrow> ('p tables, eref) op" where
  "map_1g E va f =
     seqE (map_pdpt E (pml4_index va)) (map_leaf PDPT (pdpt_index va) f)"

definition map_2m :: "('p, 'z) paging_scheme \<Rightarrow> u64 \<Rightarrow> (u64 \<Rightarrow> u64) \<Rightarrow> ('p tables, eref) op" where
  "map_2m E va f =
     seqE (map_pdpt E (pml4_index va))
    (seqE (map_pd E (pdpt_index va))
          (map_leaf PD (pd_index va) f))"

definition map_4k :: "('p, 'z) paging_scheme \<Rightarrow> u64 \<Rightarrow> (u64 \<Rightarrow> u64) \<Rightarrow> ('p tables, eref) op" where
  "map_4k E va f =
     seqE (map_pdpt E (pml4_index va))
    (seqE (map_pd E (pdpt_index va))
    (seqE (map_pt E (pd_index va))
          (map_leaf PT (pt_index va) f)))"

section \<open>Removing and finding entries\<close>

definition unmap :: "('p, 'z) paging_scheme \<Rightarrow> u64 \<Rightarrow> ('p tables, unit) op" where
  "unmap E va =
     seqE (map_pdpt E (pml4_index va))
    (bindE (tabE PDPT) (\<lambda>t3.
     bindE (read_at (pr_virt t3) (pdpt_index va)) (\<lambda>pdpte.
     if pdpte = 0 then returnE ()
     else if tf_ps E PDPT pdpte then upd_at (pr_virt t3) (pdpt_index va) (\<lambda>e. 0)
     else
       seqE (map_pd E (pdpt_index va))
      (bindE (tabE PD) (\<lambda>t2.
       bindE (read_at (pr_virt t2) (pd_index va)) (\<lambda>pde.
       if pde = 0 then returnE ()
       else if tf_ps E PD pde then upd_at (pr_virt t2) (pd_index va) (\<lambda>e. 0)
       else
         seqE (map_pt E (pd_index va))
        (bindE (tabE PT) (\<lambda>t1. upd_at (pr_virt t1) (pt_index va) (\<lambda>e. 0)))))))))"

text \<open>
  The walk that \<open>entry\<close>, \<open>virt_to_phys\<close> and \<open>from\<close> share: the entry that maps an
  address, and its level.
\<close>

definition find_entry :: "('p, 'z) paging_scheme \<Rightarrow> u64 \<Rightarrow> ('p tables, eref \<times> level) op" where
  "find_entry E va =
     seqE (map_pdpt E (pml4_index va))
    (bindE (tabE PDPT) (\<lambda>t3.
     bindE (read_at (pr_virt t3) (pdpt_index va)) (\<lambda>pdpte.
     if pdpte = 0 then throwE Runtime_error
     else if tf_ps E PDPT pdpte then returnE ((pr_virt t3, pdpt_index va), PDPT)
     else
       seqE (map_pd E (pdpt_index va))
      (bindE (tabE PD) (\<lambda>t2.
       bindE (read_at (pr_virt t2) (pd_index va)) (\<lambda>pde.
       if pde = 0 then throwE Runtime_error
       else if tf_ps E PD pde then returnE ((pr_virt t2, pd_index va), PD)
       else
         seqE (map_pt E (pd_index va))
        (bindE (tabE PT) (\<lambda>t1.
         bindE (read_at (pr_virt t1) (pt_index va)) (\<lambda>pte.
         if pte = 0 then throwE Runtime_error
         else returnE ((pr_virt t1, pt_index va), PT))))))))))"

definition entry :: "('p, 'z) paging_scheme \<Rightarrow> u64 \<Rightarrow> ('p tables, eref) op" where
  "entry E va = bindE (find_entry E va) (\<lambda>(r, l). returnE r)"

definition virt_to_phys :: "('p, 'z) paging_scheme \<Rightarrow> u64 \<Rightarrow> ('p tables, u64) op" where
  "virt_to_phys E va =
     bindE (find_entry E va) (\<lambda>(r, l).
     bindE (read_at (fst r) (snd r)) (\<lambda>e. returnE (tf_phys E l e)))"

definition from_bits :: "level \<Rightarrow> nat" where
  "from_bits l = (case l of PML4 \<Rightarrow> pml4_from | PDPT \<Rightarrow> pdpt_from | PD \<Rightarrow> pd_from | PT \<Rightarrow> pt_from)"

definition map_from :: "('p, 'z) paging_scheme \<Rightarrow> u64 \<Rightarrow> ('p tables, nat) op" where
  "map_from E va = bindE (find_entry E va) (\<lambda>(r, l). returnE (from_bits l))"

definition is_1g :: "('p, 'z) paging_scheme \<Rightarrow> u64 \<Rightarrow> ('p tables, bool) op" where
  "is_1g E va = bindE (map_from E va) (\<lambda>f. returnE (f = pdpt_from))"

definition is_2m :: "('p, 'z) paging_scheme \<Rightarrow> u64 \<Rightarrow> ('p tables, bool) op" where
  "is_2m E va = bindE (map_from E va) (\<lambda>f. returnE (f = pd_from))"

definition is_4k :: "('p, 'z) paging_scheme \<Rightarrow> u64 \<Rightarrow> ('p tables, bool) op" where
  "is_4k E va = bindE (map_from E va) (\<lambda>f. returnE (f = pt_from))"

section \<open>Releasing tables\<close>

definition table_empty :: "level \<Rightarrow> ('p tables, bool) op" where
  "table_empty l =
     bindE (tabE l) (\<lambda>t.
     if pr_virt t = 0 then throwE Expects_failed
     else getE (\<lambda>s. list_all (\<lambda>i. mem (fst s) (pr_virt t) i = 0) [0 ..< num_entries]))"

text \<open>After the entry is cleared: free the table when it has become empty.\<close>

definition release_if_empty :: "('p, 'z) paging_scheme \<Rightarrow> level \<Rightarrow> ('p tables, bool) op" where
  "release_if_empty E l =
     bindE (table_empty l) (\<lambda>empty.
     if empty then bindE (tabE l) (\<lambda>t. seqE (free_table E (pr_virt t)) (returnE True))
     else returnE False)"

definition release_pte :: "('p, 'z) paging_scheme \<Rightarrow> u64 \<Rightarrow> ('p tables, bool) op" where
  "release_pte E va =
     seqE (map_pt E (pd_index va))
    (bindE (tabE PT) (\<lambda>t.
     seqE (upd_at (pr_virt t) (pt_index va) (\<lambda>e. 0))
          (release_if_empty E PT)))"

definition release_pde :: "('p, 'z) paging_scheme \<Rightarrow> u64 \<Rightarrow> ('p tables, bool) op" where
  "release_pde E va =
     seqE (map_pd E (pdpt_index va))
    (bindE (tabE PD) (\<lambda>t.
     bindE (read_at (pr_virt t) (pd_index va)) (\<lambda>e.
     bindE (if \<not> tf_ps E PD e then release_pte E va else returnE True) (\<lambda>go.
     if \<not> go then returnE False
     else
       seqE (upd_at (pr_virt t) (pd_index va) (\<lambda>e. 0))
            (release_if_empty E PD)))))"

definition release_pdpte :: "('p, 'z) paging_scheme \<Rightarrow> u64 \<Rightarrow> ('p tables, bool) op" where
  "release_pdpte E va =
     seqE (map_pdpt E (pml4_index va))
    (bindE (tabE PDPT) (\<lambda>t.
     bindE (read_at (pr_virt t) (pdpt_index va)) (\<lambda>e.
     bindE (if \<not> tf_ps E PDPT e then release_pde E va else returnE True) (\<lambda>go.
     if \<not> go then returnE False
     else
       seqE (upd_at (pr_virt t) (pdpt_index va) (\<lambda>e. 0))
            (release_if_empty E PDPT)))))"

definition release :: "('p, 'z) paging_scheme \<Rightarrow> u64 \<Rightarrow> ('p tables, unit) op" where
  "release E va =
     bindE (release_pdpte E va) (\<lambda>gone.
     if gone then bindE (tabE PML4) (\<lambda>t. upd_at (pr_virt t) (pml4_index va) (\<lambda>e. 0))
     else returnE ())"

section \<open>Construction and destruction\<close>

definition make_mmap :: "('p, 'z) paging_scheme \<Rightarrow> ('p tables, unit) op" where
  "make_mmap E =
     seqE (modifyE (\<lambda>s. ((fst s)\<lparr>m_tab := (\<lambda>l. null_pair)\<rparr>, snd s)))
    (bindE (allocate_span E) (\<lambda>q. set_tab PML4 \<lparr>pr_virt = q, pr_phys = 0\<rparr>))"

definition root_phys :: "('p, 'z) paging_scheme \<Rightarrow> ('p tables, u64) op" where
  "root_phys E =
     bindE (tabE PML4) (\<lambda>t.
     seqE (if pr_phys t = 0 then bindE (mmE (op_v2p E (pr_virt t))) (\<lambda>pa. set_tab PML4 (t\<lparr>pr_phys := pa\<rparr>))
           else returnE ())
    (bindE (tabE PML4) (\<lambda>t. returnE (pr_phys t))))"

definition clear_pt :: "('p, 'z) paging_scheme \<Rightarrow> nat \<Rightarrow> ('p tables, unit) op" where
  "clear_pt E pdi =
     seqE (map_pt E pdi)
    (bindE (tabE PT) (\<lambda>t.
     seqE (free_table E (pr_virt t)) (set_tab PT null_pair)))"

definition clear_entries ::
  "('p, 'z) paging_scheme \<Rightarrow> level \<Rightarrow> (nat \<Rightarrow> ('p tables, unit) op) \<Rightarrow> ('p tables, unit) op" where
  "clear_entries E l clear_sub =
     forE [0 ..< num_entries] (\<lambda>i.
       bindE (tabE l) (\<lambda>t.
       bindE (read_at (pr_virt t) i) (\<lambda>e.
       if e = 0 then returnE ()
       else
         seqE (if \<not> tf_ps E l e then clear_sub i else returnE ())
              (upd_at (pr_virt t) i (\<lambda>e. 0)))))"

definition clear_pd :: "('p, 'z) paging_scheme \<Rightarrow> nat \<Rightarrow> ('p tables, unit) op" where
  "clear_pd E pdpti =
     seqE (map_pd E pdpti)
    (seqE (clear_entries E PD (clear_pt E))
    (bindE (tabE PD) (\<lambda>t.
     seqE (free_table E (pr_virt t)) (set_tab PD null_pair))))"

definition clear_pdpt :: "('p, 'z) paging_scheme \<Rightarrow> nat \<Rightarrow> ('p tables, unit) op" where
  "clear_pdpt E pml4i =
     seqE (map_pdpt E pml4i)
    (seqE (clear_entries E PDPT (clear_pd E))
    (bindE (tabE PDPT) (\<lambda>t.
     seqE (free_table E (pr_virt t)) (set_tab PDPT null_pair))))"

definition destroy_mmap :: "('p, 'z) paging_scheme \<Rightarrow> ('p tables, unit) op" where
  "destroy_mmap E =
     seqE (forE [0 ..< num_entries] (\<lambda>i.
       bindE (tabE PML4) (\<lambda>t.
       bindE (read_at (pr_virt t) i) (\<lambda>e.
       if e = 0 then returnE () else clear_pdpt E i))))
    (bindE (tabE PML4) (\<lambda>t. free_table E (pr_virt t)))"

end
