(* ===== verification/Page_Table_Spec.thy ===== *)
theory Page_Table_Spec
  imports Page_Table Alloc_Interface
begin

text \<open>
  Correctness of the page tables.  A table is named by the path of indices that leads to it from the
  root; \<open>T\<close> gives the page of each table and \<open>A\<close> the entry of each mapped page, by
  its path.  \<open>tables_ok\<close> says that the pages in memory form such a tree, and the interface
  \<open>page_tables\<close> what the tables rely on: a provider of pages with an invertible translation to
  physical addresses, and an entry format that can hold them.  Every operation of the source is shown
  to change \<open>A\<close> as it should and to keep the tree.
\<close>

section \<open>The tree of tables\<close>

fun level_at :: "nat \<Rightarrow> level" where
  "level_at 0 = PML4"
| "level_at (Suc 0) = PDPT"
| "level_at (Suc (Suc 0)) = PD"
| "level_at n = PT"

definition is_table :: "('p, 'z) paging_scheme \<Rightarrow> nat \<Rightarrow> u64 \<Rightarrow> bool" where
  "is_table E d e \<longleftrightarrow> e \<noteq> 0 \<and> d < 3 \<and> (d = 0 \<or> \<not> tf_ps E (level_at d) e)"

definition cache_ok :: "(u64 \<Rightarrow> u64) \<Rightarrow> u64 set \<Rightarrow> pair \<Rightarrow> bool" where
  "cache_ok frame pages c \<longleftrightarrow> c = null_pair \<or> pr_virt c \<in> pages \<and> pr_phys c = frame (pr_virt c)"

text \<open>The entry \<open>i\<close> of the table at path \<open>\<pi>\<close> points to the page \<open>r\<close>.\<close>

definition linked ::
  "('p, 'z) paging_scheme \<Rightarrow> (u64 \<Rightarrow> u64) \<Rightarrow> (nat list \<Rightarrow> u64 option) \<Rightarrow> mmap \<Rightarrow> nat list \<Rightarrow> nat \<Rightarrow> u64 \<Rightarrow> bool" where
  "linked E frame T m \<pi> i r \<longleftrightarrow>
     (\<exists>q. T \<pi> = Some q \<and> is_table E (length \<pi>) (mem m q i) \<and> tf_phys E (level_at (length \<pi>)) (mem m q i) = frame r)"

text \<open>The paths in \<open>D\<close> are entries that still hold the address of a table already freed.\<close>

definition tables_ok ::
  "('p, 'z) paging_scheme \<Rightarrow> (u64 \<Rightarrow> u64) \<Rightarrow> u64 set \<Rightarrow> nat list set \<Rightarrow> (nat list \<Rightarrow> u64 option) \<Rightarrow> mmap \<Rightarrow> bool" where
  "tables_ok E frame pages D T m \<longleftrightarrow>
     T [] = Some (pr_virt (m_tab m PML4)) \<and>
     pr_phys (m_tab m PML4) \<in> {0, frame (pr_virt (m_tab m PML4))} \<and>
     (\<forall>l. l \<noteq> PML4 \<longrightarrow> cache_ok frame pages (m_tab m l)) \<and>
     ran T \<subseteq> pages \<and>
     (\<forall>\<pi> \<rho> q. T \<pi> = Some q \<longrightarrow> T \<rho> = Some q \<longrightarrow> \<pi> = \<rho>) \<and>
     (\<forall>\<pi> i r. T (\<pi> @ [i]) = Some r \<longrightarrow> \<pi> @ [i] \<notin> D \<and> i < 512 \<and> linked E frame T m \<pi> i r) \<and>
     (\<forall>\<pi> i q. T \<pi> = Some q \<longrightarrow> \<pi> @ [i] \<notin> D \<longrightarrow> i < 512 \<longrightarrow> is_table E (length \<pi>) (mem m q i) \<longrightarrow> T (\<pi> @ [i]) \<noteq> None)"

text \<open>The entries that map a page, by path.\<close>

definition leaves ::
  "('p, 'z) paging_scheme \<Rightarrow> nat list set \<Rightarrow> (nat list \<Rightarrow> u64 option) \<Rightarrow> mmap \<Rightarrow> nat list \<Rightarrow> u64 option" where
  "leaves E D T m \<pi> =
     (if \<pi> = [] \<or> \<pi> \<in> D \<or> \<not> last \<pi> < 512 then None
      else case T (butlast \<pi>) of
        None \<Rightarrow> None
      | Some q \<Rightarrow>
          let e = mem m q (last \<pi>) in
          if e \<noteq> 0 \<and> \<not> is_table E (length (butlast \<pi>)) e then Some e else None)"

lemma leaves_snoc:
  "leaves E D T m (\<pi> @ [i]) = Some e \<longleftrightarrow>
     \<pi> @ [i] \<notin> D \<and> i < 512 \<and> (\<exists>q. T \<pi> = Some q \<and> mem m q i = e \<and> e \<noteq> 0 \<and> \<not> is_table E (length \<pi>) e)"
  by (auto simp: leaves_def Let_def split: option.splits)

lemma leaves_Nil [simp]: "leaves E D T m [] = None"
  by (simp add: leaves_def)

lemma leaves_eqI:
  assumes "A [] = None" "\<And>\<pi> i e. A (\<pi> @ [i]) = Some e \<longleftrightarrow> leaves E D T m (\<pi> @ [i]) = Some e"
  shows "leaves E D T m = A"
proof
  fix \<rho>
  show "leaves E D T m \<rho> = A \<rho>"
  proof (cases \<rho> rule: rev_cases)
    case (snoc \<pi> i)
    then show ?thesis using assms(2)[of \<pi> i] by (metis option.exhaust)
  qed (simp add: assms(1))
qed

lemma tables_okD:
  assumes "tables_ok E frame pages D T m"
  shows tables_root: "T [] = Some (pr_virt (m_tab m PML4))"
    and tables_root_phys: "pr_phys (m_tab m PML4) \<in> {0, frame (pr_virt (m_tab m PML4))}"
    and tables_cache: "l \<noteq> PML4 \<Longrightarrow> cache_ok frame pages (m_tab m l)"
    and tables_pages: "T \<pi> = Some q \<Longrightarrow> q \<in> pages"
    and tables_inj: "T \<pi> = Some q \<Longrightarrow> T \<rho> = Some q \<Longrightarrow> \<pi> = \<rho>"
    and tables_link: "T (\<pi> @ [i]) = Some r \<Longrightarrow> \<pi> @ [i] \<notin> D \<and> i < 512 \<and> linked E frame T m \<pi> i r"
    and tables_total: "T \<pi> = Some q \<Longrightarrow> \<pi> @ [i] \<notin> D \<Longrightarrow> i < 512 \<Longrightarrow> is_table E (length \<pi>) (mem m q i) \<Longrightarrow> T (\<pi> @ [i]) \<noteq> None"
  using assms unfolding tables_ok_def by (blast intro: ranI)+

lemma tables_okI:
  assumes "T [] = Some (pr_virt (m_tab m PML4))"
    and "pr_phys (m_tab m PML4) \<in> {0, frame (pr_virt (m_tab m PML4))}"
    and "\<And>l. l \<noteq> PML4 \<Longrightarrow> cache_ok frame pages (m_tab m l)"
    and "\<And>\<pi> q. T \<pi> = Some q \<Longrightarrow> q \<in> pages"
    and "\<And>\<pi> \<rho> q. T \<pi> = Some q \<Longrightarrow> T \<rho> = Some q \<Longrightarrow> \<pi> = \<rho>"
    and "\<And>\<pi> i r. T (\<pi> @ [i]) = Some r \<Longrightarrow> \<pi> @ [i] \<notin> D \<and> i < 512 \<and> linked E frame T m \<pi> i r"
    and "\<And>\<pi> i q. T \<pi> = Some q \<Longrightarrow> \<pi> @ [i] \<notin> D \<Longrightarrow> i < 512 \<Longrightarrow> is_table E (length \<pi>) (mem m q i) \<Longrightarrow> T (\<pi> @ [i]) \<noteq> None"
  shows "tables_ok E frame pages D T m"
  unfolding tables_ok_def using assms(1-3) by (intro conjI allI impI) (auto simp: ran_def assms(4-7) dest: assms(5-7))

lemma tables_depth:
  assumes "tables_ok E frame pages D T m" "T \<pi> = Some q"
  shows "length \<pi> \<le> 3"
proof (cases \<pi> rule: rev_cases)
  case (snoc \<rho> i)
  then show ?thesis using tables_link[OF assms(1), of \<rho> i q] assms(2) by (auto simp: is_table_def linked_def)
qed simp

lemma tables_leaf_None:
  assumes "tables_ok E frame pages D T m" "T \<pi> = Some q" "\<not> is_table E (length \<pi>) (mem m q i)"
  shows "T (\<pi> @ [i]) = None"
proof (rule ccontr)
  assume "T (\<pi> @ [i]) \<noteq> None"
  then obtain r where "T (\<pi> @ [i]) = Some r" by blast
  then show False using tables_link[OF assms(1), of \<pi> i r] assms(2,3) by (auto simp: linked_def)
qed

text \<open>The caches are not part of the tree.\<close>

lemma tables_set_tab:
  assumes "tables_ok E frame pages D T m" "l \<noteq> PML4" "cache_ok frame pages c"
  shows "tables_ok E frame pages D T (m\<lparr>m_tab := (m_tab m)(l := c)\<rparr>)"
  using assms by (auto simp: tables_ok_def linked_def)

lemma leaves_other:
  assumes "T' \<rho> = T \<rho>" "\<And>q. T \<rho> = Some q \<Longrightarrow> mem m' q j = mem m q j" "\<rho> @ [j] \<in> D' \<longleftrightarrow> \<rho> @ [j] \<in> D"
  shows "leaves E D' T' m' (\<rho> @ [j]) = leaves E D T m (\<rho> @ [j])"
  using assms by (simp add: leaves_def Let_def split: option.splits)

lemma linked_other:
  assumes "T' \<rho> = T \<rho>" "\<And>q. T \<rho> = Some q \<Longrightarrow> mem m' q j = mem m q j"
  shows "linked E frame T' m' \<rho> j x = linked E frame T m \<rho> j x"
  using assms by (auto simp: linked_def)

lemma leaves_mem: "mem m = mem m' \<Longrightarrow> leaves E D T m = leaves E D T m'"
  by (intro ext) (simp add: leaves_def Let_def split: option.splits)

lemma mem_write [simp]: "mem (write_mem q i e m) q' j = (if q' = q \<and> j = i then e else mem m q' j)"
  "m_tab (write_mem q i e m) = m_tab m"
  by (auto simp: write_mem_def)

lemma mem_clear [simp]: "mem (clear_page q m) q' = (if q' = q then (\<lambda>i. 0) else mem m q')"
  "m_tab (clear_page q m) = m_tab m"
  by (auto simp: clear_page_def)

text \<open>Writing an entry that neither was nor becomes a pointer to a table.\<close>

lemma write_leaf:
  assumes ok: "tables_ok E frame pages D T m" and q: "T \<pi> = Some q" "\<pi> @ [i] \<notin> D" "i < 512"
    and e: "\<not> is_table E (length \<pi>) (mem m q i)" "\<not> is_table E (length \<pi>) e"
  shows "tables_ok E frame pages D T (write_mem q i e m)" (is "tables_ok _ _ _ _ _ ?m")
    and "leaves E D T (write_mem q i e m) = (leaves E D T m)(\<pi> @ [i] := if e = 0 then None else Some e)" (is "_ = ?A")
proof -
  have N: "T (\<pi> @ [i]) = None" by (rule tables_leaf_None[OF ok q(1) e(1)])
  have same: "mem ?m q' j = mem m q' j" if "\<rho> @ [j] \<noteq> \<pi> @ [i]" "T \<rho> = Some q'" for \<rho> q' j
    using tables_inj[OF ok q(1), of \<rho>] that by auto
  show "tables_ok E frame pages D T ?m"
  proof (rule tables_okI)
    fix \<rho> j r assume r: "T (\<rho> @ [j]) = Some r"
    then have ne: "\<rho> @ [j] \<noteq> \<pi> @ [i]" using N by auto
    then show "\<rho> @ [j] \<notin> D \<and> j < 512 \<and> linked E frame T ?m \<rho> j r"
      using tables_link[OF ok r] linked_other[where T' = T and T = T, OF refl same[OF ne]] by blast
  next
    fix \<rho> j q' assume r: "T \<rho> = Some q'" "\<rho> @ [j] \<notin> D" "j < 512" "is_table E (length \<rho>) (mem ?m q' j)"
    have ne: "\<rho> @ [j] \<noteq> \<pi> @ [i]" using r(1,4) q(1) e(2) by auto
    then show "T (\<rho> @ [j]) \<noteq> None" using tables_total[OF ok r(1-3)] r(4) unfolding same[OF ne r(1)] by blast
  qed (use tables_okD[OF ok] in auto)
  show "leaves E D T ?m = ?A"
  proof (rule leaves_eqI)
    fix \<rho> j e'
    show "?A (\<rho> @ [j]) = Some e' \<longleftrightarrow> leaves E D T ?m (\<rho> @ [j]) = Some e'"
    proof (cases "\<rho> @ [j] = \<pi> @ [i]")
      case True
      then show ?thesis using q e(2) by (auto simp: leaves_snoc)
    next
      case False
      then have "?A (\<rho> @ [j]) = leaves E D T m (\<rho> @ [j])" by (rule fun_upd_other)
      moreover have "leaves E D T ?m (\<rho> @ [j]) = leaves E D T m (\<rho> @ [j])"
        by (rule leaves_other[OF refl same[OF False] refl])
      ultimately show ?thesis by (simp only:)
    qed
  qed simp
qed

text \<open>Installing a fresh table below an empty entry.\<close>

lemma link_table:
  assumes ok: "tables_ok E frame pages D T m" and q: "T \<pi> = Some q" "\<pi> @ [i] \<notin> D" "i < 512" "mem m q i = 0"
    and r: "r \<in> pages" "r \<notin> ran T" and e: "is_table E (length \<pi>) e" "tf_phys E (level_at (length \<pi>)) e = frame r"
  shows "tables_ok E frame pages D (T(\<pi> @ [i] \<mapsto> r)) (write_mem q i e (clear_page r m))" (is "tables_ok _ _ _ _ ?T ?m")
    and "leaves E D (T(\<pi> @ [i] \<mapsto> r)) (write_mem q i e (clear_page r m)) = leaves E D T m"
proof -
  have N: "T (\<pi> @ [i]) = None" by (rule tables_leaf_None[OF ok q(1)]) (simp add: q(4) is_table_def)
  have N': "T ((\<pi> @ [i]) @ [j]) = None" for j
    using tables_link[OF ok, of "\<pi> @ [i]" j] N by (cases "T ((\<pi> @ [i]) @ [j])") (auto simp: linked_def)
  have qr: "q' \<noteq> r" if "T \<rho> = Some q'" for \<rho> q' using that r(2) by (auto simp: ran_def)
  have same: "mem ?m q' j = mem m q' j" if "\<rho> @ [j] \<noteq> \<pi> @ [i]" "T \<rho> = Some q'" for \<rho> q' j
    using tables_inj[OF ok q(1), of \<rho>] that qr[OF that(2)] by auto
  have new: "mem ?m r j = 0" for j using qr[OF q(1)] by auto
  have at: "mem ?m q i = e" by simp
  have T: "?T \<rho> = (if \<rho> = \<pi> @ [i] then Some r else T \<rho>)" for \<rho> by simp
  have T': "?T \<pi> = Some q" using q(1) by (simp add: T)
  show "tables_ok E frame pages D ?T ?m"
  proof (rule tables_okI)
    fix \<rho> \<rho>' x assume "?T \<rho> = Some x" "?T \<rho>' = Some x"
    then show "\<rho> = \<rho>'" unfolding T using qr tables_inj[OF ok, of \<rho> x \<rho>'] by (auto split: if_splits)
  next
    fix \<rho> j x assume x: "?T (\<rho> @ [j]) = Some x"
    show "\<rho> @ [j] \<notin> D \<and> j < 512 \<and> linked E frame ?T ?m \<rho> j x"
    proof (cases "\<rho> @ [j] = \<pi> @ [i]")
      case True
      then have "\<rho> = \<pi>" "j = i" "x = r" using x by simp_all
      moreover have "linked E frame ?T ?m \<pi> i r" unfolding linked_def using T' at e by metis
      ultimately show ?thesis using q(2,3) by simp
    next
      case False
      then have x': "T (\<rho> @ [j]) = Some x" using x unfolding T by (auto split: if_splits)
      then have "?T \<rho> = T \<rho>" using N' by (auto simp: T)
      then show ?thesis using tables_link[OF ok x'] linked_other[OF _ same[OF False], of ?T] by blast
    qed
  next
    fix \<rho> j q' assume r: "?T \<rho> = Some q'" "\<rho> @ [j] \<notin> D" "j < 512" "is_table E (length \<rho>) (mem ?m q' j)"
    show "?T (\<rho> @ [j]) \<noteq> None"
    proof (cases "\<rho> = \<pi> @ [i]")
      case True
      then have "q' = r" using r(1) by simp
      then show ?thesis using r(4) by (simp only: new is_table_def) simp
    next
      case False
      then have r1: "T \<rho> = Some q'" using r(1) unfolding T by simp
      then show ?thesis using tables_total[OF ok r1 r(2,3)] r(4) same[OF _ r1, of j] unfolding T
        by (cases "\<rho> @ [j] = \<pi> @ [i]") (simp_all only: if_True if_False simp_thms option.simps)
    qed
  qed (use tables_okD[OF ok] r(1) in \<open>auto split: if_splits\<close>)
  show "leaves E D ?T ?m = leaves E D T m"
  proof (rule leaves_eqI)
    fix \<rho> j e'
    consider "\<rho> = \<pi>" "j = i" | "\<rho> = \<pi> @ [i]" "\<rho> @ [j] \<noteq> \<pi> @ [i]" | "\<rho> \<noteq> \<pi> @ [i]" "\<rho> @ [j] \<noteq> \<pi> @ [i]" by auto
    then show "leaves E D T m (\<rho> @ [j]) = Some e' \<longleftrightarrow> leaves E D ?T ?m (\<rho> @ [j]) = Some e'"
    proof cases
      case 1
      then show ?thesis using q(1,4) e(1) T' at unfolding leaves_snoc by (metis option.sel)
    next
      case 2
      then have "?T \<rho> = Some r" "T \<rho> = None" using N by simp_all
      then show ?thesis unfolding leaves_snoc using new by (metis option.distinct(1) option.inject)
    next
      case 3
      then have "?T \<rho> = T \<rho>" by (simp add: T)
      then show ?thesis using leaves_other[OF _ same[OF 3(2)] refl, of ?T] by metis
    qed
  qed simp
qed

lemma ran_drop:
  assumes "T \<kappa> = Some r" "\<And>\<rho>. T \<rho> = Some r \<Longrightarrow> \<rho> = \<kappa>"
  shows "ran (T(\<kappa> := None)) = ran T - {r}"
proof
  show "ran (T(\<kappa> := None)) \<subseteq> ran T - {r}" by (auto simp: ran_def dest: assms(2) split: if_splits)
  show "ran T - {r} \<subseteq> ran (T(\<kappa> := None))"
  proof
    fix x assume "x \<in> ran T - {r}"
    then obtain \<rho> where "T \<rho> = Some x" "x \<noteq> r" by (auto simp: ran_def)
    then show "x \<in> ran (T(\<kappa> := None))" using assms(1) by (intro ranI[of _ \<rho>]) auto
  qed
qed

text \<open>Freeing a table without tables below it leaves its entry in the parent dangling.\<close>

lemma drop_table:
  assumes ok: "tables_ok E frame pages D T m" and r: "T (\<pi> @ [i]) = Some r" "\<And>j. T ((\<pi> @ [i]) @ [j]) = None"
  shows "tables_ok E frame pages (insert (\<pi> @ [i]) D) (T(\<pi> @ [i] := None)) m" (is "tables_ok _ _ _ ?D ?T _")
    and "leaves E (insert (\<pi> @ [i]) D) (T(\<pi> @ [i] := None)) m =
      (\<lambda>\<rho>. if \<rho> \<noteq> [] \<and> butlast \<rho> = \<pi> @ [i] then None else leaves E D T m \<rho>)"
proof -
  have T: "?T \<rho> = (if \<rho> = \<pi> @ [i] then None else T \<rho>)" for \<rho> by simp
  show "tables_ok E frame pages ?D ?T m"
  proof (rule tables_okI)
    fix \<rho> \<rho>' x assume "?T \<rho> = Some x" "?T \<rho>' = Some x"
    then show "\<rho> = \<rho>'" unfolding T using tables_inj[OF ok, of \<rho> x \<rho>'] by (auto split: if_splits)
  next
    fix \<rho> j x assume x: "?T (\<rho> @ [j]) = Some x"
    then have x': "T (\<rho> @ [j]) = Some x" "\<rho> @ [j] \<noteq> \<pi> @ [i]" unfolding T by (auto split: if_splits)
    then have "?T \<rho> = T \<rho>" using r(2) by (auto simp: T)
    then show "\<rho> @ [j] \<notin> ?D \<and> j < 512 \<and> linked E frame ?T m \<rho> j x"
      using tables_link[OF ok x'(1)] x'(2) linked_other[of ?T \<rho> T m j m E frame x] by blast
  next
    fix \<rho> j q' assume r: "?T \<rho> = Some q'" "\<rho> @ [j] \<notin> ?D" "j < 512" "is_table E (length \<rho>) (mem m q' j)"
    then have "T \<rho> = Some q'" unfolding T by (auto split: if_splits)
    then show "?T (\<rho> @ [j]) \<noteq> None" using tables_total[OF ok _ _ r(3,4)] r(2) unfolding T by auto
  qed (use tables_okD[OF ok] in \<open>auto split: if_splits\<close>)
  have nl: "leaves E D T m (\<pi> @ [i]) = None"
    using tables_link[OF ok r(1)] by (auto simp: leaves_def Let_def linked_def)
  show "leaves E ?D ?T m = (\<lambda>\<rho>. if \<rho> \<noteq> [] \<and> butlast \<rho> = \<pi> @ [i] then None else leaves E D T m \<rho>)"
    (is "_ = ?A")
  proof (rule leaves_eqI)
    fix \<rho> j e'
    consider "\<rho> = \<pi> @ [i]" | "\<rho> @ [j] = \<pi> @ [i]" "\<rho> \<noteq> \<pi> @ [i]" | "\<rho> \<noteq> \<pi> @ [i]" "\<rho> @ [j] \<noteq> \<pi> @ [i]" by blast
    then show "?A (\<rho> @ [j]) = Some e' \<longleftrightarrow> leaves E ?D ?T m (\<rho> @ [j]) = Some e'"
    proof cases
      case 1
      then show ?thesis unfolding leaves_snoc butlast_snoc by simp
    next
      case 2
      then have "?A (\<rho> @ [j]) = None" using nl by simp
      moreover have "leaves E ?D ?T m (\<rho> @ [j]) = None" using 2 by (simp add: leaves_def)
      ultimately show ?thesis by simp
    next
      case 3
      then have "?A (\<rho> @ [j]) = leaves E D T m (\<rho> @ [j])" by simp
      moreover have "leaves E ?D ?T m (\<rho> @ [j]) = leaves E D T m (\<rho> @ [j])" by (rule leaves_other) (use 3 in auto)
      ultimately show ?thesis by (simp only:)
    qed
  qed simp
qed

text \<open>Clearing a dangling entry.\<close>

lemma clear_dangling:
  assumes ok: "tables_ok E frame pages D T m" and q: "T \<pi> = Some q" "\<pi> @ [i] \<in> D"
  shows "tables_ok E frame pages (D - {\<pi> @ [i]}) T (write_mem q i 0 m)" (is "tables_ok _ _ _ ?D _ ?m")
    and "leaves E (D - {\<pi> @ [i]}) T (write_mem q i 0 m) = leaves E D T m"
proof -
  have same: "mem ?m q' j = mem m q' j" if "\<rho> @ [j] \<noteq> \<pi> @ [i]" "T \<rho> = Some q'" for \<rho> q' j
    using tables_inj[OF ok q(1), of \<rho>] that by auto
  show "tables_ok E frame pages ?D T ?m"
  proof (rule tables_okI)
    fix \<rho> j x assume x: "T (\<rho> @ [j]) = Some x"
    have ne: "\<rho> @ [j] \<noteq> \<pi> @ [i]" using tables_link[OF ok x] q(2) by auto
    show "\<rho> @ [j] \<notin> ?D \<and> j < 512 \<and> linked E frame T ?m \<rho> j x"
      using tables_link[OF ok x] linked_other[where T' = T and T = T, OF refl same[OF ne]] by blast
  next
    fix \<rho> j q' assume r: "T \<rho> = Some q'" "\<rho> @ [j] \<notin> ?D" "j < 512" "is_table E (length \<rho>) (mem ?m q' j)"
    have ne: "\<rho> @ [j] \<noteq> \<pi> @ [i]" using r(1,4) q(1) by (auto simp: is_table_def)
    then show "T (\<rho> @ [j]) \<noteq> None" using tables_total[OF ok r(1) _ r(3)] r(2,4) unfolding same[OF ne r(1)] by blast
  qed (use tables_okD[OF ok] in auto)
  show "leaves E ?D T ?m = leaves E D T m"
  proof (rule leaves_eqI)
    fix \<rho> j e'
    show "leaves E D T m (\<rho> @ [j]) = Some e' \<longleftrightarrow> leaves E ?D T ?m (\<rho> @ [j]) = Some e'"
    proof (cases "\<rho> @ [j] = \<pi> @ [i]")
      case True
      then show ?thesis using q unfolding leaves_snoc by auto
    next
      case False
      have "leaves E ?D T ?m (\<rho> @ [j]) = leaves E D T m (\<rho> @ [j])"
        by (rule leaves_other[OF refl same[OF False]]) (use False in auto)
      then show ?thesis by (simp only:)
    qed
  qed simp
qed

end
