(* ===== verification/Page_Table_Ops.thy ===== *)
theory Page_Table_Ops
  imports Page_Table_Spec
begin

text \<open>
  The operations on page tables against the tree of \<open>Page_Table_Spec\<close>: finding or making the
  tables of an address, writing and removing entries, and looking addresses up.
\<close>

section \<open>Stepping through the operations\<close>

lemma bindE_tabE [simp]: "bindE (tabE l) k s = k (m_tab (fst s) l) s"
  by (simp add: tabE_def)

lemma bindE_read_at [simp]: "q \<noteq> 0 \<Longrightarrow> i < 512 \<Longrightarrow> bindE (read_at q i) k s = k (mem (fst s) q i) s"
  by (simp add: read_at_def num_entries_def)

lemma set_tab_apply [simp]:
  "set_tab l c s = (Inr (), ((fst s)\<lparr>m_tab := (m_tab (fst s))(l := c)\<rparr>, snd s))"
  "seqE (set_tab l c) n s = n ((fst s)\<lparr>m_tab := (m_tab (fst s))(l := c)\<rparr>, snd s)"
  by (simp_all add: set_tab_def)

lemma upd_at_apply [simp]:
  "q \<noteq> 0 \<Longrightarrow> i < 512 \<Longrightarrow> upd_at q i f s = (Inr (), (write_mem q i (f (mem (fst s) q i)) (fst s), snd s))"
  "q \<noteq> 0 \<Longrightarrow> i < 512 \<Longrightarrow> seqE (upd_at q i f) n s = n (write_mem q i (f (mem (fst s) q i)) (fst s), snd s)"
  by (simp_all add: upd_at_def num_entries_def)

lemma bindE_mmE:
  "m (snd s) = (Inr a, p) \<Longrightarrow> bindE (mmE m) k s = k a (fst s, p)"
  "m (snd s) = (Inl e, p) \<Longrightarrow> bindE (mmE m) k s = (Inl e, (fst s, p))"
  by (simp_all add: mmE_def bindE_def)

lemma bindE_phys_to_pair:
  "op_p2v E pa (snd s) = (Inr q, p) \<Longrightarrow> bindE (phys_to_pair E pa) k s = k \<lparr>pr_virt = q, pr_phys = pa\<rparr> (fst s, p)"
  by (simp add: phys_to_pair_def mmE_def bindE_def)

section \<open>The indices of an address\<close>

definition va_path :: "u64 \<Rightarrow> nat list" where
  "va_path va = [pml4_index va, pdpt_index va, pd_index va, pt_index va]"

lemma index_less [simp]: "pml4_index va < 512" "pdpt_index va < 512" "pd_index va < 512" "pt_index va < 512"
  by (simp_all add: pml4_index_def pdpt_index_def pd_index_def pt_index_def pml4_from_def pdpt_from_def pd_from_def pt_from_def)

lemma va_path_take [simp]:
  "take (Suc 0) (va_path va) = [pml4_index va]"
  "take 2 (va_path va) = [pml4_index va, pdpt_index va]"
  "take 3 (va_path va) = [pml4_index va, pdpt_index va, pd_index va]"
  "take 4 (va_path va) = va_path va"
  by (simp_all add: va_path_def numeral_eq_Suc)

text \<open>The entry that maps an address, with the length of its path.\<close>

definition lookup :: "(nat list \<Rightarrow> u64 option) \<Rightarrow> u64 \<Rightarrow> (nat \<times> u64) option" where
  "lookup A va =
     (case A (take 2 (va_path va)) of Some e \<Rightarrow> Some (2, e)
      | None \<Rightarrow> (case A (take 3 (va_path va)) of Some e \<Rightarrow> Some (3, e)
      | None \<Rightarrow> (case A (va_path va) of Some e \<Rightarrow> Some (4, e) | None \<Rightarrow> None)))"

text \<open>The mapping that an entry makes: none when it is zero.\<close>

abbreviation entry_of :: "u64 \<Rightarrow> u64 option" where
  "entry_of e \<equiv> (if e = 0 then None else Some e)"

text \<open>Removing the entry of an address removes that mapping and no other.\<close>

definition unmapped_at :: "(nat list \<Rightarrow> u64 option) \<Rightarrow> u64 \<Rightarrow> nat list \<Rightarrow> u64 option" where
  "unmapped_at A va = (case lookup A va of None \<Rightarrow> A | Some (d, e) \<Rightarrow> A(take d (va_path va) := None))"

text \<open>The walk that \<open>unmap\<close>, \<open>entry\<close>, \<open>virt_to_phys\<close> and \<open>from\<close> share.\<close>

definition descend_pd ::
  "'p paging \<Rightarrow> u64 \<Rightarrow> ('p tables, 'a) op \<Rightarrow> (eref \<Rightarrow> level \<Rightarrow> ('p tables, 'a) op) \<Rightarrow> (eref \<Rightarrow> ('p tables, 'a) op) \<Rightarrow> ('p tables, 'a) op" where
  "descend_pd E va z h n =
     seqE (map_pd E (pdpt_index va))
    (bindE (tabE PD) (\<lambda>t2.
     bindE (read_at (pr_virt t2) (pd_index va)) (\<lambda>pde.
     if pde = 0 then z
     else if tf_ps E PD pde then h (pr_virt t2, pd_index va) PD
     else
       seqE (map_pt E (pd_index va))
      (bindE (tabE PT) (\<lambda>t1. n (pr_virt t1, pt_index va))))))"

definition descend ::
  "'p paging \<Rightarrow> u64 \<Rightarrow> ('p tables, 'a) op \<Rightarrow> (eref \<Rightarrow> level \<Rightarrow> ('p tables, 'a) op) \<Rightarrow> (eref \<Rightarrow> ('p tables, 'a) op) \<Rightarrow> ('p tables, 'a) op" where
  "descend E va z h n =
     seqE (map_pdpt E (pml4_index va))
    (bindE (tabE PDPT) (\<lambda>t3.
     bindE (read_at (pr_virt t3) (pdpt_index va)) (\<lambda>pdpte.
     if pdpte = 0 then z
     else if tf_ps E PDPT pdpte then h (pr_virt t3, pdpt_index va) PDPT
     else descend_pd E va z h n)))"

lemma find_entry_descend:
  "find_entry E va = descend E va (throwE Runtime_error) (\<lambda>r l. returnE (r, l))
     (\<lambda>r. bindE (read_at (fst r) (snd r)) (\<lambda>pte. if pte = 0 then throwE Runtime_error else returnE (r, PT)))"
  unfolding find_entry_def descend_def descend_pd_def fst_conv snd_conv ..

lemma unmap_descend:
  "unmap E va = descend E va (returnE ()) (\<lambda>r l. upd_at (fst r) (snd r) (\<lambda>e. 0)) (\<lambda>r. upd_at (fst r) (snd r) (\<lambda>e. 0))"
  unfolding unmap_def descend_def descend_pd_def fst_conv snd_conv ..

section \<open>The interface\<close>

text \<open>Every page overlaps a block that is in use.\<close>

definition pages_full :: "u64 set \<Rightarrow> (nat \<times> nat) set \<Rightarrow> bool" where
  "pages_full pages L \<longleftrightarrow> (\<forall>q \<in> pages. \<exists>b \<in> L. extent b \<inter> extent (page_block q) \<noteq> {})"

definition pt_inv ::
  "('p \<Rightarrow> bool) \<Rightarrow> ('p \<Rightarrow> (nat \<times> nat) set) \<Rightarrow> 'p paging \<Rightarrow> (u64 \<Rightarrow> u64) \<Rightarrow> u64 set \<Rightarrow> (nat \<times> nat) set \<Rightarrow>
    nat list set \<Rightarrow> (nat list \<Rightarrow> u64 option) \<Rightarrow> (nat list \<Rightarrow> u64 option) \<Rightarrow> 'p tables \<Rightarrow> bool" where
  "pt_inv pinv plive E frame pages G D T A s \<longleftrightarrow>
     pinv (snd s) \<and> plive (snd s) = G \<union> page_block ` ran T \<and> G \<inter> page_block ` ran T = {} \<and>
     tables_ok E frame pages D T (fst s) \<and> A = leaves E D T (fst s)"

locale page_tables =
  page_provider pinv plive "op_alloc E" "op_free E" perr
  for pinv :: "'p \<Rightarrow> bool" and plive :: "'p \<Rightarrow> (nat \<times> nat) set" and E :: "'p paging" and perr :: "error set" +
  fixes frame :: "u64 \<Rightarrow> u64"
    and pages :: "u64 set"
  assumes v2p: "pinv p \<Longrightarrow> page_block q \<in> plive p \<Longrightarrow> op_v2p E q p = (Inr (frame q), p)"
    and p2v: "pinv p \<Longrightarrow> page_block q \<in> plive p \<Longrightarrow> op_p2v E (frame q) p = (Inr q, p)"
    and live_pages: "pinv p \<Longrightarrow> page_block q \<in> plive p \<Longrightarrow> q \<in> pages"
    and page_nz: "pinv p \<Longrightarrow> q \<in> pages \<Longrightarrow> q \<noteq> 0"
    and frame_nz: "pinv p \<Longrightarrow> q \<in> pages \<Longrightarrow> frame q \<noteq> 0"
    and frame_inj: "pinv p \<Longrightarrow> q \<in> pages \<Longrightarrow> r \<in> pages \<Longrightarrow> frame q = frame r \<Longrightarrow> q = r"
    and no_pages: "pinv p \<Longrightarrow> op_alloc E p = (Inl e, p') \<Longrightarrow> pages_full pages (plive p)"
    and ps_zero: "\<not> tf_ps E l 0"
    and link_ok: "pinv p \<Longrightarrow> q \<in> pages \<Longrightarrow> d < 3 \<Longrightarrow> is_table E d (tf_link E (level_at d) (frame q) 0)"
    and link_phys: "pinv p \<Longrightarrow> q \<in> pages \<Longrightarrow> d < 3 \<Longrightarrow> tf_phys E (level_at d) (tf_link E (level_at d) (frame q) 0) = frame q"
begin

abbreviation inv where
  "inv \<equiv> pt_inv pinv plive E frame pages"

text \<open>The errors of a failed allocation, possible only when there is no page left.\<close>

definition exhausted :: "'p tables \<Rightarrow> error set" where
  "exhausted s = {e \<in> perr. pages_full pages (plive (snd s))}"

lemma invD:
  assumes "inv G D T A s"
  shows inv_p: "pinv (snd s)" and inv_live: "plive (snd s) = G \<union> page_block ` ran T"
    and inv_apart: "G \<inter> page_block ` ran T = {}" and inv_ok: "tables_ok E frame pages D T (fst s)"
    and inv_leaves: "A = leaves E D T (fst s)"
  using assms by (simp_all add: pt_inv_def)

lemma table_live: "inv G D T A s \<Longrightarrow> T \<pi> = Some q \<Longrightarrow> page_block q \<in> plive (snd s)"
  using inv_live by (fastforce simp: ran_def)

lemma table_nz: "inv G D T A s \<Longrightarrow> T \<pi> = Some q \<Longrightarrow> q \<noteq> 0"
  using page_nz[OF inv_p] tables_pages[OF inv_ok] by blast

lemma allocate_span_cases:
  assumes I: "pinv (snd s)" and run: "allocate_span E s = (r, s')"
  obtains (fail) e p' where "r = Inl e" "e \<in> exhausted s'" "s' = (fst s, p')" "pinv p'" "plive p' = plive (snd s)"
    | (ok) q p' where "r = Inr q" "s' = (clear_page q (fst s), p')" "pinv p'" "q \<in> pages"
        "page_block q \<notin> plive (snd s)" "plive p' = insert (page_block q) (plive (snd s))"
proof -
  obtain x p' where a: "op_alloc E (snd s) = (x, p')" by (rule prod.exhaust)
  show thesis
  proof (cases x)
    case (Inl e)
    then show ?thesis using page_err[OF I, of e p'] no_pages[OF I, of e p'] a run
      by (intro fail[of e p']) (auto simp: allocate_span_def mmE_def bindE_def exhausted_def)
  next
    case (Inr q)
    then have L: "pinv p'" "plive p' = insert (page_block q) (plive (snd s))" "page_block q \<notin> plive (snd s)"
      using page_ok[OF I, of q p'] page_new[OF I, of q p'] a by (auto simp: page_block_def)
    moreover have "q \<in> pages" using live_pages[OF L(1)] L(2) by simp
    ultimately show ?thesis using a run Inr
      by (intro ok[of q p']) (auto simp: allocate_span_def mmE_def bindE_def)
  qed
qed

lemma allocate_table_cases:
  assumes I: "pinv (snd s)" and run: "allocate_table E s = (r, s')"
  obtains (fail) e p' where "r = Inl e" "e \<in> exhausted s'" "s' = (fst s, p')" "pinv p'" "plive p' = plive (snd s)"
    | (ok) q p' where "r = Inr \<lparr>pr_virt = q, pr_phys = frame q\<rparr>" "s' = (clear_page q (fst s), p')" "pinv p'" "q \<in> pages"
        "page_block q \<notin> plive (snd s)" "plive p' = insert (page_block q) (plive (snd s))"
  using run[unfolded allocate_table_def]
proof (cases rule: bindE_cases)
  case (fail e)
  then show ?thesis using that(1) by (auto elim: allocate_span_cases[OF I])
next
  case (ok q s1)
  from allocate_span_cases[OF I ok(1)] obtain p' where
    A: "s1 = (clear_page q (fst s), p')" "pinv p'" "q \<in> pages" "page_block q \<notin> plive (snd s)"
      "plive p' = insert (page_block q) (plive (snd s))" by auto
  have "op_v2p E q p' = (Inr (frame q), p')" by (rule v2p[OF A(2)]) (simp add: A(5))
  then show ?thesis using ok(2) A by (intro that(2)[of q p']) (auto simp: mmE_def bindE_def)
qed

section \<open>Finding or making a table\<close>

lemma level_at_ne: "d < 3 \<Longrightarrow> level_at (Suc d) \<noteq> PML4" "d < 3 \<Longrightarrow> level_at (Suc d) \<noteq> level_at d"
  by (cases d rule: level_at.cases; simp)+

text \<open>The entry already points to a table, which is looked up unless it is the cached one.\<close>

lemma map_table_link:
  assumes I: "inv G D T A s" and \<pi>: "T \<pi> = Some (pr_virt (m_tab (fst s) l))" "l = level_at (length \<pi>)"
    and c: "child \<noteq> PML4" "child \<noteq> l" and i: "i < 512" "T (\<pi> @ [i]) = Some r0"
  obtains c' where "map_table E l child i s = (Inr (), ((fst s)\<lparr>m_tab := (m_tab (fst s))(child := c')\<rparr>, snd s))"
    "pr_virt c' = r0" "inv G D T A ((fst s)\<lparr>m_tab := (m_tab (fst s))(child := c')\<rparr>, snd s)"
proof -
  let ?m = "fst s" and ?q = "pr_virt (m_tab (fst s) l)"
  note ok = inv_ok[OF I]
  have nz: "?q \<noteq> 0" by (rule table_nz[OF I \<pi>(1)])
  have ph: "mem ?m ?q i \<noteq> 0" "tf_phys E l (mem ?m ?q i) = frame r0"
    using tables_link[OF ok i(2)] \<pi> by (auto simp: linked_def is_table_def)
  have pg: "r0 \<in> pages" by (rule tables_pages[OF ok i(2)])
  show thesis
  proof (cases "pr_phys (m_tab ?m child) = frame r0")
    case True
    then have "pr_virt (m_tab ?m child) = r0"
      using tables_cache[OF ok c(1)] frame_nz[OF inv_p[OF I] pg] frame_inj[OF inv_p[OF I] _ pg]
      by (auto simp: cache_ok_def null_pair_def)
    moreover have "map_table E l child i s = (Inr (), s)" using ph nz i(1) True by (simp add: map_table_def Let_def)
    ultimately show ?thesis using I by (intro that[of "m_tab ?m child"]) simp_all
  next
    case False
    let ?c = "\<lparr>pr_virt = r0, pr_phys = frame r0\<rparr>"
    have "op_p2v E (frame r0) (snd s) = (Inr r0, snd s)" by (rule p2v[OF inv_p[OF I] table_live[OF I i(2)]])
    then have "map_table E l child i s = (Inr (), (?m\<lparr>m_tab := (m_tab ?m)(child := ?c)\<rparr>, snd s))"
      using False ph nz i(1) by (simp add: map_table_def bindE_phys_to_pair Let_def)
    moreover have "inv G D T A (?m\<lparr>m_tab := (m_tab ?m)(child := ?c)\<rparr>, snd s)"
      using I tables_set_tab[OF ok c(1), of ?c] pg by (auto simp: pt_inv_def cache_ok_def intro: leaves_mem)
    ultimately show ?thesis by (intro that[of ?c]) simp_all
  qed
qed

text \<open>The entry is empty, and a new table is installed.\<close>

lemma map_table_new:
  assumes I: "inv G D T A s" and \<pi>: "T \<pi> = Some (pr_virt (m_tab (fst s) l))" "l = level_at (length \<pi>)" "length \<pi> < 3"
    and c: "child \<noteq> PML4" "child \<noteq> l" and i: "i < 512" "\<pi> @ [i] \<notin> D" "mem (fst s) (pr_virt (m_tab (fst s) l)) i = 0"
    and run: "map_table E l child i s = (r, s')"
  obtains (fail) e where "r = Inl e" "e \<in> exhausted s'" "inv G D T A s'" "fst s' = fst s"
    | (ok) q where "r = Inr ()" "inv G D (T(\<pi> @ [i] \<mapsto> q)) A s'" "T (\<pi> @ [i]) = None"
        "pr_virt (m_tab (fst s') child) = q" "\<And>l. l \<noteq> child \<Longrightarrow> m_tab (fst s') l = m_tab (fst s) l"
proof -
  let ?m = "fst s" and ?q = "pr_virt (m_tab (fst s) l)"
  have nz: "?q \<noteq> 0" by (rule table_nz[OF I \<pi>(1)])
  have N: "T (\<pi> @ [i]) = None" by (rule tables_leaf_None[OF inv_ok[OF I] \<pi>(1)]) (simp add: i(3) is_table_def)
  obtain x s1 where a: "allocate_table E s = (x, s1)" by (rule prod.exhaust)
  from inv_p[OF I] a show thesis
  proof (cases rule: allocate_table_cases)
    case (fail e p')
    then have "r = Inl e" "s' = s1" using run a i(1,3) nz by (auto simp: map_table_def bindE_Inl)
    then show ?thesis using fail I by (intro that(1)[of e]) (auto simp: pt_inv_def)
  next
    case (ok q p')
    let ?c = "\<lparr>pr_virt = q, pr_phys = frame q\<rparr>" and ?k = "tf_link E l (frame q) 0"
    let ?m1 = "?m\<lparr>m_tab := (m_tab ?m)(child := ?c)\<rparr>"
    have fr: "q \<notin> ran T" "page_block q \<notin> G" using ok(5) inv_live[OF I] by auto
    then have qq: "?q \<noteq> q" using \<pi>(1) by (auto simp: ran_def)
    have t1: "tables_ok E frame pages D T ?m1"
      by (rule tables_set_tab[OF inv_ok[OF I] c(1)]) (simp add: cache_ok_def ok(4))
    have m1: "mem ?m1 ?q i = 0" using i(3) by simp
    have k: "is_table E (length \<pi>) ?k" "tf_phys E (level_at (length \<pi>)) ?k = frame q"
      using link_ok[OF inv_p[OF I] ok(4) \<pi>(3)] link_phys[OF inv_p[OF I] ok(4) \<pi>(3)] \<pi>(2) by simp_all
    have s': "r = Inr ()" "s' = (write_mem ?q i ?k (clear_page q ?m1), p')"
      using run a ok(1,2) nz i(1,3) qq
      by (auto simp: map_table_def bindE_Inr clear_page_def write_mem_def fun_eq_iff)
    note L = link_table[OF t1 \<pi>(1) i(2,1) m1 ok(4) fr(1) k]
    have "leaves E D T ?m1 = A" using inv_leaves[OF I] by (simp add: leaves_mem[of ?m1 ?m])
    then have "inv G D (T(\<pi> @ [i] \<mapsto> q)) A s'"
      using L ok(3,6) inv_live[OF I] inv_apart[OF I] fr N unfolding s'(2) by (auto simp: pt_inv_def)
    then show ?thesis using N c by (intro that(2)[of q]) (auto simp: s')
  qed
qed

lemma map_table_cases:
  assumes I: "inv G D T A s" and \<pi>: "T \<pi> = Some (pr_virt (m_tab (fst s) l))" "l = level_at (length \<pi>)"
    and c: "child = level_at (Suc (length \<pi>))" "length \<pi> < 3"
    and i: "i < 512" "\<pi> @ [i] \<notin> D" "A (\<pi> @ [i]) = None"
    and run: "map_table E l child i s = (r, s')"
  obtains (fail) e where "r = Inl e" "e \<in> exhausted s'" "T (\<pi> @ [i]) = None" "inv G D T A s'" "fst s' = fst s"
    | (ok) T' where "r = Inr ()" "inv G D T' A s'" "T \<subseteq>\<^sub>m T'" "T (\<pi> @ [i]) \<noteq> None \<Longrightarrow> T' = T" "\<And>\<rho>. \<rho> \<noteq> \<pi> @ [i] \<Longrightarrow> T' \<rho> = T \<rho>"
        "T' (\<pi> @ [i]) = Some (pr_virt (m_tab (fst s') child))" "\<And>l. l \<noteq> child \<Longrightarrow> m_tab (fst s') l = m_tab (fst s) l"
proof -
  let ?q = "pr_virt (m_tab (fst s) l)"
  have lne: "child \<noteq> PML4" "child \<noteq> l" using c \<pi>(2) level_at_ne by auto
  show thesis
  proof (cases "mem (fst s) ?q i = 0")
    case False
    then have "is_table E (length \<pi>) (mem (fst s) ?q i)"
      using i \<pi>(1) inv_leaves[OF I] leaves_snoc[of E D T "fst s" \<pi> i "mem (fst s) ?q i"] by auto
    then obtain r0 where r0: "T (\<pi> @ [i]) = Some r0" using tables_total[OF inv_ok[OF I] \<pi>(1) i(2,1)] by blast
    obtain c' where c': "map_table E l child i s = (Inr (), ((fst s)\<lparr>m_tab := (m_tab (fst s))(child := c')\<rparr>, snd s))"
      "pr_virt c' = r0" "inv G D T A ((fst s)\<lparr>m_tab := (m_tab (fst s))(child := c')\<rparr>, snd s)"
      by (rule map_table_link[OF I \<pi> lne i(1) r0])
    then show ?thesis using run r0 by (intro that(2)[of T]) auto
  next
    case True
    have N: "T (\<pi> @ [i]) = None" by (rule tables_leaf_None[OF inv_ok[OF I] \<pi>(1)]) (simp add: True is_table_def)
    from I \<pi> c(2) lne i(1,2) True run show ?thesis
    proof (cases rule: map_table_new)
      case (fail e)
      then show ?thesis using N that(1) by blast
    next
      case (ok q)
      then show ?thesis by (intro that(2)[of "T(\<pi> @ [i] \<mapsto> q)"]) (auto simp: map_le_def)
    qed
  qed
qed

lemma leaf_entry:
  assumes "inv G D T A s" "A (\<pi> @ [i]) = Some e"
  shows "\<exists>q. T \<pi> = Some q \<and> mem (fst s) q i = e \<and> e \<noteq> 0 \<and> \<not> is_table E (length \<pi>) e \<and> i < 512 \<and> \<pi> @ [i] \<notin> D"
  using assms by (auto simp: pt_inv_def leaves_snoc)

lemma no_root_leaf: "inv G D T A s \<Longrightarrow> A [i] = None"
  using leaf_entry[of G D T A s "[]" i] by (cases "A [i]") (auto simp: is_table_def)

lemma table_parent: "inv G D T A s \<Longrightarrow> T (\<pi> @ [i]) = Some r \<Longrightarrow> T \<pi> \<noteq> None"
  using tables_link[OF inv_ok, of G D T A s \<pi> i r] by (auto simp: linked_def)

lemma table_no_leaf: "inv G D T A s \<Longrightarrow> T (\<pi> @ [i]) = Some r \<Longrightarrow> A (\<pi> @ [i]) = None"
  using tables_link[OF inv_ok, of G D T A s \<pi> i r] leaf_entry[of G D T A s \<pi> i]
  by (cases "A (\<pi> @ [i])") (auto simp: linked_def)

text \<open>The three tables below the root, in sequence with what follows.\<close>

lemma seq_map_table:
  assumes "inv G D T A s" "T \<pi> = Some (pr_virt (m_tab (fst s) l))" "l = level_at (length \<pi>)"
    "child = level_at (Suc (length \<pi>))" "length \<pi> < 3" "i < 512" "\<pi> @ [i] \<notin> D" "A (\<pi> @ [i]) = None"
    "seqE (map_table E l child i) k s = (r, s')"
  obtains (fail) e where "r = Inl e" "e \<in> exhausted s'" "T (\<pi> @ [i]) = None" "inv G D T A s'" "fst s' = fst s"
    | (ok) T1 s1 where "k s1 = (r, s')" "inv G D T1 A s1" "T1 (\<pi> @ [i]) = Some (pr_virt (m_tab (fst s1) child))" "T \<subseteq>\<^sub>m T1"
        "T (\<pi> @ [i]) \<noteq> None \<Longrightarrow> T1 = T" "\<And>\<rho>. \<rho> \<noteq> \<pi> @ [i] \<Longrightarrow> T1 \<rho> = T \<rho>" "\<And>l. l \<noteq> child \<Longrightarrow> m_tab (fst s1) l = m_tab (fst s) l"
  using assms(9)
proof (cases rule: seqE_cases)
  case (fail e)
  show ?thesis by (rule map_table_cases[OF assms(1-8) fail(1)]) (use fail(2) that(1) in auto)
next
  case (ok u s1)
  show ?thesis by (rule map_table_cases[OF assms(1-8) ok(1)]) (use ok(2) that(2) in auto)
qed

lemma seq_map_pdpt:
  assumes "inv G D T A s" "i < 512" "[i] \<notin> D" "seqE (map_pdpt E i) k s = (r, s')"
  obtains (fail) e where "r = Inl e" "e \<in> exhausted s'" "T [i] = None" "inv G D T A s'" "fst s' = fst s"
    | (ok) T1 s1 where "k s1 = (r, s')" "inv G D T1 A s1" "T1 [i] = Some (pr_virt (m_tab (fst s1) PDPT))" "T \<subseteq>\<^sub>m T1"
        "T [i] \<noteq> None \<Longrightarrow> T1 = T" "\<And>\<rho>. \<rho> \<noteq> [i] \<Longrightarrow> T1 \<rho> = T \<rho>" "\<And>l. l \<noteq> PDPT \<Longrightarrow> m_tab (fst s1) l = m_tab (fst s) l"
proof (rule seq_map_table[of G D T A s "[]" PML4 PDPT i k r s', unfolded append.simps])
  show "T [] = Some (pr_virt (m_tab (fst s) PML4))" by (rule tables_root[OF inv_ok[OF assms(1)]])
  show "A [i] = None" by (rule no_root_leaf[OF assms(1)])
  show "seqE (map_table E PML4 PDPT i) k s = (r, s')" using assms(4) by (simp add: map_pdpt_def)
qed (fact that | use assms(1-3) in simp)+

lemma seq_map_pd:
  assumes "inv G D T A s" "T [i] = Some (pr_virt (m_tab (fst s) PDPT))" "j < 512" "[i, j] \<notin> D" "A [i, j] = None"
    "seqE (map_pd E j) k s = (r, s')"
  obtains (fail) e where "r = Inl e" "e \<in> exhausted s'" "T [i, j] = None" "inv G D T A s'" "fst s' = fst s"
    | (ok) T1 s1 where "k s1 = (r, s')" "inv G D T1 A s1" "T1 [i, j] = Some (pr_virt (m_tab (fst s1) PD))" "T \<subseteq>\<^sub>m T1"
        "T [i, j] \<noteq> None \<Longrightarrow> T1 = T" "\<And>\<rho>. \<rho> \<noteq> [i, j] \<Longrightarrow> T1 \<rho> = T \<rho>" "\<And>l. l \<noteq> PD \<Longrightarrow> m_tab (fst s1) l = m_tab (fst s) l"
proof (rule seq_map_table[of G D T A s "[i]" PDPT PD j k r s', unfolded append.simps])
  show "seqE (map_table E PDPT PD j) k s = (r, s')" using assms(6) by (simp add: map_pd_def)
qed (fact that | use assms(1-5) in simp)+

lemma seq_map_pt:
  assumes "inv G D T A s" "T [i, j] = Some (pr_virt (m_tab (fst s) PD))" "k < 512" "[i, j, k] \<notin> D" "A [i, j, k] = None"
    "seqE (map_pt E k) n s = (r, s')"
  obtains (fail) e where "r = Inl e" "e \<in> exhausted s'" "T [i, j, k] = None" "inv G D T A s'" "fst s' = fst s"
    | (ok) T1 s1 where "n s1 = (r, s')" "inv G D T1 A s1" "T1 [i, j, k] = Some (pr_virt (m_tab (fst s1) PT))" "T \<subseteq>\<^sub>m T1"
        "T [i, j, k] \<noteq> None \<Longrightarrow> T1 = T" "\<And>\<rho>. \<rho> \<noteq> [i, j, k] \<Longrightarrow> T1 \<rho> = T \<rho>" "\<And>l. l \<noteq> PT \<Longrightarrow> m_tab (fst s1) l = m_tab (fst s) l"
proof (rule seq_map_table[of G D T A s "[i, j]" PD PT k n r s', unfolded append.simps])
  show "seqE (map_table E PD PT k) n s = (r, s')" using assms(6) by (simp add: map_pt_def)
qed (fact that | use assms(1-5) in simp)+

section \<open>Writing entries\<close>

lemma write_entry:
  assumes I: "inv G D T A s" and q: "T \<pi> = Some q" "\<pi> @ [i] \<notin> D" "i < 512" "T (\<pi> @ [i]) = None"
    and e: "\<not> is_table E (length \<pi>) e"
  shows "inv G D T (A(\<pi> @ [i] := entry_of e)) (write_mem q i e (fst s), snd s)"
proof -
  have "\<not> is_table E (length \<pi>) (mem (fst s) q i)" using tables_total[OF inv_ok[OF I] q(1,2,3)] q(4) by blast
  from write_leaf[OF inv_ok[OF I] q(1,2,3) this e] show ?thesis
    using I unfolding pt_inv_def by simp
qed

lemma map_leaf_cases:
  assumes I: "inv G D T A s" and q: "T \<pi> = Some (pr_virt (m_tab (fst s) l))" "\<pi> @ [i] \<notin> D" "i < 512"
    and e: "\<not> is_table E (length \<pi>) (f 0)" and run: "map_leaf l i f s = (r, s')"
  obtains (mapped) "r = Inl Runtime_error" "s' = s" "A (\<pi> @ [i]) \<noteq> None \<or> T (\<pi> @ [i]) \<noteq> None"
    | (ok) q where "r = Inr (q, i)" "A (\<pi> @ [i]) = None" "T (\<pi> @ [i]) = None" "T \<pi> = Some q"
        "mem (fst s') q i = f 0" "inv G D T (A(\<pi> @ [i] := entry_of (f 0))) s'"
proof -
  let ?q = "pr_virt (m_tab (fst s) l)"
  have nz: "?q \<noteq> 0" by (rule table_nz[OF I q(1)])
  show thesis
  proof (cases "mem (fst s) ?q i = 0")
    case False
    then have "A (\<pi> @ [i]) \<noteq> None \<or> T (\<pi> @ [i]) \<noteq> None"
      using tables_total[OF inv_ok[OF I] q] q inv_leaves[OF I] leaves_snoc[of E D T "fst s" \<pi> i "mem (fst s) ?q i"] by auto
    moreover have "r = Inl Runtime_error" "s' = s" using run False nz q(3) by (auto simp: map_leaf_def)
    ultimately show ?thesis using that(1) by blast
  next
    case True
    have N: "T (\<pi> @ [i]) = None" by (rule tables_leaf_None[OF inv_ok[OF I] q(1)]) (simp add: True is_table_def)
    moreover have "A (\<pi> @ [i]) = None" using q True inv_leaves[OF I] leaves_snoc[of E D T "fst s" \<pi> i] by (cases "A (\<pi> @ [i])") auto
    moreover have "r = Inr (?q, i)" "s' = (write_mem ?q i (f 0) (fst s), snd s)"
      using run True nz q(3) by (auto simp: map_leaf_def)
    ultimately show ?thesis using q(1) write_entry[OF I q N e] by (intro that(2)[of ?q]) auto
  qed
qed

text \<open>
  What a mapping operation does: it fails without a mapping change when a page is missing or the
  address is already mapped at that level, and otherwise adds exactly its entry.
\<close>

definition map_result where
  "map_result G T A \<pi> i e r s' \<longleftrightarrow>
     (\<exists>T'. T \<subseteq>\<^sub>m T' \<and>
       (case r of
          Inl x \<Rightarrow> inv G {} T' A s' \<and> (x \<in> exhausted s' \<or> x = Runtime_error \<and> (A (\<pi> @ [i]) \<noteq> None \<or> T (\<pi> @ [i]) \<noteq> None))
        | Inr (q, j) \<Rightarrow> inv G {} T' (A(\<pi> @ [i] := entry_of e)) s' \<and> A (\<pi> @ [i]) = None \<and> T (\<pi> @ [i]) = None \<and>
            T' \<pi> = Some q \<and> j = i \<and> mem (fst s') q i = e))"

lemma map_result_fail: "inv G {} T1 A s' \<Longrightarrow> x \<in> exhausted s' \<Longrightarrow> T \<subseteq>\<^sub>m T1 \<Longrightarrow> map_result G T A \<pi> i e (Inl x) s'"
  unfolding map_result_def by auto

lemma map_leaf_result:
  assumes I: "inv G {} T1 A s" "T \<subseteq>\<^sub>m T1" "T1 \<pi> = Some (pr_virt (m_tab (fst s) l))" "i < 512"
    and e: "\<not> is_table E (length \<pi>) (f 0)" and c: "T1 (\<pi> @ [i]) = T (\<pi> @ [i])" and run: "map_leaf l i f s = (r, s')"
  shows "map_result G T A \<pi> i (f 0) r s'"
proof -
  have d: "\<pi> @ [i] \<notin> {}" by simp
  from I(1,3) d I(4) e run show ?thesis
  proof (cases rule: map_leaf_cases)
    case mapped
    then show ?thesis using I(1,2) c unfolding map_result_def by (intro exI[of _ T1]) auto
  next
    case (ok q)
    then show ?thesis using I(2) c unfolding map_result_def by (intro exI[of _ T1]) auto
  qed
qed

theorem map_1g_result:
  assumes "inv G {} T A s" "\<not> is_table E 1 (f 0)" "map_1g E va f s = (r, s')"
  shows "map_result G T A [pml4_index va] (pdpt_index va) (f 0) r s'"
proof -
  have d: "[pml4_index va] \<notin> {}" by simp
  from assms(1) index_less(1) d assms(3)[unfolded map_1g_def] show ?thesis
  proof (cases rule: seq_map_pdpt)
    case (fail e)
    then show ?thesis using map_result_fail[OF fail(4,2) map_le_refl] by simp
  next
    case (ok T1 s1)
    show ?thesis by (rule map_leaf_result[OF ok(2,4,3) index_less(2) _ _ ok(1)]) (use ok(6) assms(2) in auto)
  qed
qed

theorem map_2m_result:
  assumes "inv G {} T A s" "A [pml4_index va, pdpt_index va] = None" "\<not> is_table E 2 (f 0)" "map_2m E va f s = (r, s')"
  shows "map_result G T A [pml4_index va, pdpt_index va] (pd_index va) (f 0) r s'"
proof -
  have d: "[pml4_index va] \<notin> {}" "[pml4_index va, pdpt_index va] \<notin> {}" by simp_all
  from assms(1) index_less(1) d(1) assms(4)[unfolded map_2m_def] show ?thesis
  proof (cases rule: seq_map_pdpt)
    case (fail e)
    then show ?thesis using map_result_fail[OF fail(4,2) map_le_refl] by simp
  next
    case 1: (ok T1 s1)
    from 1(2,3) index_less(2) d(2) assms(2) 1(1) show ?thesis
    proof (cases rule: seq_map_pd)
      case (fail e)
      then show ?thesis using map_result_fail[OF fail(4,2) 1(4)] by simp
    next
      case (ok T2 s2)
      show ?thesis
        by (rule map_leaf_result[OF ok(2) map_le_trans[OF 1(4) ok(4)] ok(3) index_less(3) _ _ ok(1)])
          (use ok(6) 1(6) assms(3) in \<open>auto simp: numeral_eq_Suc\<close>)
    qed
  qed
qed

theorem map_4k_result:
  assumes "inv G {} T A s" "A (take 2 (va_path va)) = None" "A (take 3 (va_path va)) = None" "map_4k E va f s = (r, s')"
  shows "map_result G T A (take 3 (va_path va)) (pt_index va) (f 0) r s'"
proof -
  let ?p = "[pml4_index va, pdpt_index va, pd_index va]"
  have d: "[pml4_index va] \<notin> {}" "[pml4_index va, pdpt_index va] \<notin> {}" "?p \<notin> {}" by simp_all
  note A = assms(2,3)[unfolded va_path_take]
  from assms(1) index_less(1) d(1) assms(4)[unfolded map_4k_def] show ?thesis unfolding va_path_take
  proof (cases rule: seq_map_pdpt)
    case (fail e)
    then show "map_result G T A ?p (pt_index va) (f 0) r s'" using map_result_fail[OF fail(4,2) map_le_refl] by simp
  next
    case 1: (ok T1 s1)
    from 1(2,3) index_less(2) d(2) A(1) 1(1) show "map_result G T A ?p (pt_index va) (f 0) r s'"
    proof (cases rule: seq_map_pd)
      case (fail e)
      then show ?thesis using map_result_fail[OF fail(4,2) 1(4)] by simp
    next
      case 2: (ok T2 s2)
      from 2(2,3) index_less(3) d(3) A(2) 2(1) show ?thesis
      proof (cases rule: seq_map_pt)
        case (fail e)
        then show ?thesis using map_result_fail[OF fail(4,2) map_le_trans[OF 1(4) 2(4)]] by simp
      next
        case (ok T3 s3)
        show ?thesis
          by (rule map_leaf_result[OF ok(2) map_le_trans[OF 1(4) map_le_trans[OF 2(4) ok(4)]] ok(3) index_less(4) _ _ ok(1)])
            (use ok(6) 2(6) 1(6) in \<open>auto simp: is_table_def\<close>)
      qed
    qed
  qed
qed

section \<open>Looking an address up\<close>

lemma entry_kind:
  assumes "inv G D T A s" "T \<pi> = Some q" "i < 512" "\<pi> @ [i] \<notin> D"
  shows "A (\<pi> @ [i]) = (if mem (fst s) q i \<noteq> 0 \<and> \<not> is_table E (length \<pi>) (mem (fst s) q i) then Some (mem (fst s) q i) else None)"
    and "T (\<pi> @ [i]) \<noteq> None \<longleftrightarrow> is_table E (length \<pi>) (mem (fst s) q i)"
proof -
  show "A (\<pi> @ [i]) = (if mem (fst s) q i \<noteq> 0 \<and> \<not> is_table E (length \<pi>) (mem (fst s) q i) then Some (mem (fst s) q i) else None)"
    using assms(2-4) by (subst inv_leaves[OF assms(1)]) (simp add: leaves_def Let_def)
  show "T (\<pi> @ [i]) \<noteq> None \<longleftrightarrow> is_table E (length \<pi>) (mem (fst s) q i)"
    using tables_total[OF inv_ok[OF assms(1)] assms(2,4,3)] tables_leaf_None[OF inv_ok[OF assms(1)] assms(2), of i]
    by (cases "is_table E (length \<pi>) (mem (fst s) q i)") auto
qed

text \<open>Below a page that is not a table nothing is mapped.\<close>

lemma no_leaf_below: "inv G D T A s \<Longrightarrow> T \<pi> = None \<Longrightarrow> A (\<pi> @ [i]) = None"
  using leaf_entry[of G D T A s \<pi> i] by (cases "A (\<pi> @ [i])") auto

lemma no_table_below: "inv G D T A s \<Longrightarrow> T \<pi> = None \<Longrightarrow> T (\<pi> @ [i]) = None"
  using table_parent[of G D T A s \<pi> i] by (cases "T (\<pi> @ [i])") auto

definition find_result where
  "find_result G T A va r s' \<longleftrightarrow>
     (\<exists>T'. T \<subseteq>\<^sub>m T' \<and> inv G {} T' A s' \<and>
       (case r of
          Inl x \<Rightarrow> lookup A va = None \<and> (x \<in> exhausted s' \<or> x = Runtime_error)
        | Inr ((q, i), l) \<Rightarrow> T' = T \<and> (\<exists>d e. lookup A va = Some (Suc d, e) \<and> T (take d (va_path va)) = Some q \<and>
            i = va_path va ! d \<and> mem (fst s') q i = e \<and> l = level_at d)))"

lemma find_result_fail:
  "inv G {} T1 A s' \<Longrightarrow> T \<subseteq>\<^sub>m T1 \<Longrightarrow> lookup A va = None \<Longrightarrow> x \<in> insert Runtime_error (exhausted s') \<Longrightarrow> find_result G T A va (Inl x) s'"
  unfolding find_result_def by auto

lemma find_result_ok:
  "inv G {} T A s' \<Longrightarrow> lookup A va = Some (Suc d, e) \<Longrightarrow> T (take d (va_path va)) = Some q \<Longrightarrow> mem (fst s') q (va_path va ! d) = e \<Longrightarrow>
    find_result G T A va (Inr ((q, va_path va ! d), level_at d)) s'"
  unfolding find_result_def by (intro exI[of _ T]) simp

lemma lookup_unmapped:
  assumes "inv G D T A s"
  shows "T [pml4_index va] = None \<Longrightarrow> lookup A va = None"
    and "T [pml4_index va, pdpt_index va] = None \<Longrightarrow> A [pml4_index va, pdpt_index va] = None \<Longrightarrow> lookup A va = None"
    and "T [pml4_index va, pdpt_index va, pd_index va] = None \<Longrightarrow> A [pml4_index va, pdpt_index va] = None \<Longrightarrow>
      A [pml4_index va, pdpt_index va, pd_index va] = None \<Longrightarrow> lookup A va = None"
proof -
  let ?p = "[pml4_index va]" and ?p2 = "[pml4_index va, pdpt_index va]" and ?p3 = "[pml4_index va, pdpt_index va, pd_index va]"
  show 3: "lookup A va = None" if "T ?p3 = None" "A ?p2 = None" "A ?p3 = None"
    using no_leaf_below[OF assms that(1), of "pt_index va"] that(2,3) by (simp add: lookup_def va_path_def numeral_eq_Suc)
  show 2: "lookup A va = None" if "T ?p2 = None" "A ?p2 = None"
    using no_table_below[OF assms that(1), of "pd_index va"] no_leaf_below[OF assms that(1), of "pd_index va"] that(2)
    by (intro 3) simp_all
  show "lookup A va = None" if "T ?p = None"
    using no_table_below[OF assms that, of "pdpt_index va"] no_leaf_below[OF assms that, of "pdpt_index va"]
    by (intro 2) simp_all
qed

text \<open>
  The walk that the operations share: what they do when the address is not mapped, when a large
  page maps it, and at the last level.
\<close>

lemma descend_pd_cases:
  assumes I: "inv G {} T A s" and at: "T [pml4_index va] = Some (pr_virt (m_tab (fst s) PDPT))"
    and nl: "A [pml4_index va, pdpt_index va] = None" "T [pml4_index va, pdpt_index va] \<noteq> None"
    and run: "descend_pd E va z h n s = (r, s')"
  obtains (unmapped) s1 where "z s1 = (r, s')" "inv G {} T A s1" "lookup A va = None"
    | (large) q s1 where "h (q, pd_index va) PD s1 = (r, s')" "inv G {} T A s1" "T [pml4_index va, pdpt_index va] = Some q"
        "lookup A va = Some (3, mem (fst s1) q (pd_index va))"
    | (small) q s1 where "n (q, pt_index va) s1 = (r, s')" "inv G {} T A s1"
        "T [pml4_index va, pdpt_index va, pd_index va] = Some q" "A [pml4_index va, pdpt_index va, pd_index va] = None"
proof -
  let ?p2 = "[pml4_index va, pdpt_index va]" and ?p3 = "[pml4_index va, pdpt_index va, pd_index va]"
  have d: "?p2 \<notin> {}" "?p3 \<notin> {}" by simp_all
  from I at index_less(2) d(1) nl(1) run[unfolded descend_pd_def] show thesis
  proof (cases rule: seq_map_pd)
    case (fail e)
    then show ?thesis using nl(2) by blast
  next
    case A: (ok T1 s1)
    have T1: "T1 = T" using A(5) nl(2) by blast
    let ?q = "pr_virt (m_tab (fst s1) PD)"
    let ?e = "mem (fst s1) ?q (pd_index va)"
    note I1 = A(2)[unfolded T1] and q1 = A(3)[unfolded T1]
    note K = entry_kind[OF I1 q1 index_less(3), of va, simplified]
    have nz: "?q \<noteq> 0" by (rule table_nz[OF I1 q1])
    consider "?e = 0" | "?e \<noteq> 0" "tf_ps E PD ?e" | "?e \<noteq> 0" "\<not> tf_ps E PD ?e" by blast
    then show ?thesis
    proof cases
      case 1
      then have "lookup A va = None" using K nl(1) by (intro lookup_unmapped(3)[OF I]) (auto simp: is_table_def)
      then show ?thesis using A(1) nz 1 I1 by (intro that(1)[of s1]) auto
    next
      case 2
      then have "A ?p3 = Some ?e" using K(1) by (simp add: is_table_def numeral_eq_Suc)
      moreover have "h (?q, pd_index va) PD s1 = (r, s')" using A(1) nz 2 by simp
      ultimately show ?thesis using I1 q1 nl(1) by (intro that(2)[of ?q s1]) (auto simp: lookup_def va_path_def numeral_eq_Suc)
    next
      case 3
      then have T3: "T ?p3 \<noteq> None" "A ?p3 = None" using K by (auto simp: is_table_def numeral_eq_Suc)
      have R3: "seqE (map_pt E (pd_index va)) (bindE (tabE PT) (\<lambda>t1. n (pr_virt t1, pt_index va))) s1 = (r, s')"
        using A(1) nz 3 by simp
      from I1 q1 index_less(3) d(2) T3(2) R3 show ?thesis
      proof (cases rule: seq_map_pt)
        case (fail e)
        then show ?thesis using T3 by blast
      next
        case (ok T2 s2)
        then have "T2 = T" using T3(1) by blast
        then show ?thesis using ok T3(2) by (intro that(3)[of "pr_virt (m_tab (fst s2) PT)" s2]) auto
      qed
    qed
  qed
qed

lemma descend_cases:
  assumes I: "inv G {} T A s" and run: "descend E va z h n s = (r, s')"
  obtains (fail) e where "r = Inl e" "e \<in> exhausted s'" "inv G {} T A s'" "lookup A va = None"
    | (unmapped) T1 s1 where "z s1 = (r, s')" "inv G {} T1 A s1" "T \<subseteq>\<^sub>m T1" "lookup A va = None"
    | (large) d q s1 where "d \<in> {1, 2}" "h (q, va_path va ! d) (level_at d) s1 = (r, s')" "inv G {} T A s1"
        "T (take d (va_path va)) = Some q" "lookup A va = Some (Suc d, mem (fst s1) q (va_path va ! d))"
    | (small) q s1 where "n (q, pt_index va) s1 = (r, s')" "inv G {} T A s1" "T (take 3 (va_path va)) = Some q"
        "A (take 2 (va_path va)) = None" "A (take 3 (va_path va)) = None"
proof -
  let ?p = "[pml4_index va]" and ?p2 = "[pml4_index va, pdpt_index va]"
  have d: "?p \<notin> {}" by simp
  from I index_less(1) d run[unfolded descend_def] show thesis
  proof (cases rule: seq_map_pdpt)
    case (fail e)
    then show ?thesis using that(1) lookup_unmapped(1)[OF I] by blast
  next
    case A: (ok T1 s1)
    let ?q = "pr_virt (m_tab (fst s1) PDPT)"
    let ?e = "mem (fst s1) ?q (pdpt_index va)"
    note K = entry_kind[OF A(2,3) index_less(2), of va, simplified]
    have same: "T1 = T" if "T1 ?p2 \<noteq> None \<or> A ?p2 \<noteq> None"
      using that A(5) A(6)[of ?p2] no_table_below[OF I, of ?p "pdpt_index va"] no_leaf_below[OF I, of ?p "pdpt_index va"]
      by (cases "T ?p = None") auto
    have nz: "?q \<noteq> 0" by (rule table_nz[OF A(2,3)])
    consider "?e = 0" | "?e \<noteq> 0" "tf_ps E PDPT ?e" | "?e \<noteq> 0" "\<not> tf_ps E PDPT ?e" by blast
    then show ?thesis
    proof cases
      case 1
      then have "lookup A va = None" using K by (intro lookup_unmapped(2)[OF A(2)]) (auto simp: is_table_def)
      then show ?thesis using A(1) nz 1 A(2,4) by (intro that(2)[of s1 T1]) auto
    next
      case 2
      then have a: "A ?p2 = Some ?e" using K(1) by (simp add: is_table_def)
      then have "T1 = T" using same by blast
      moreover have "h (?q, pdpt_index va) PDPT s1 = (r, s')" using A(1) nz 2 by simp
      ultimately show ?thesis using A(2,3) a by (intro that(3)[of 1 ?q s1]) (auto simp: lookup_def va_path_def numeral_eq_Suc)
    next
      case 3
      then have T2: "T1 ?p2 \<noteq> None" "A ?p2 = None" using K by (auto simp: is_table_def)
      then have T1: "T1 = T" using same by blast
      have R2: "descend_pd E va z h n s1 = (r, s')" using A(1) nz 3 by simp
      from A(2,3) T2(2,1) R2 show ?thesis unfolding T1
      proof (cases rule: descend_pd_cases)
        case (unmapped s2)
        then show thesis by (intro that(2)[of s2 T]) auto
      next
        case (large q s2)
        then show thesis by (intro that(3)[of 2 q s2]) (auto simp: va_path_def numeral_eq_Suc)
      next
        case (small q s2)
        then show thesis using T2(2) by (intro that(4)[of q s2]) auto
      qed
    qed
  qed
qed

lemma lookup_small:
  assumes "inv G {} T A s" "T (take 3 (va_path va)) = Some q" "A (take 2 (va_path va)) = None" "A (take 3 (va_path va)) = None"
  shows "lookup A va = (if mem (fst s) q (pt_index va) = 0 then None else Some (4, mem (fst s) q (pt_index va)))"
proof -
  have "A (take 3 (va_path va) @ [pt_index va]) =
      (if mem (fst s) q (pt_index va) \<noteq> 0 then Some (mem (fst s) q (pt_index va)) else None)"
    using entry_kind(1)[OF assms(1,2) index_less(4)] by (simp add: is_table_def)
  then have "A (va_path va) = (if mem (fst s) q (pt_index va) \<noteq> 0 then Some (mem (fst s) q (pt_index va)) else None)"
    by (simp add: va_path_def)
  then show ?thesis using assms(3,4) by (simp add: lookup_def)
qed

lemma level_at_3 [simp]: "level_at 2 = PD" "level_at 3 = PT"
  by (simp_all add: numeral_eq_Suc)

lemma va_path_nth [simp]:
  "va_path va ! Suc 0 = pdpt_index va" "va_path va ! 2 = pd_index va" "va_path va ! 3 = pt_index va"
  by (simp_all add: va_path_def numeral_eq_Suc)

theorem find_entry_result:
  assumes I: "inv G {} T A s" and run: "find_entry E va s = (r, s')"
  shows "find_result G T A va r s'"
  using I run[unfolded find_entry_descend]
proof (cases rule: descend_cases)
  case (fail e)
  then show ?thesis using find_result_fail[OF fail(3) map_le_refl fail(4)] by simp
next
  case (unmapped T1 s1)
  then show ?thesis using find_result_fail[OF unmapped(2,3,4)] by auto
next
  case (large d q s1)
  then show ?thesis using find_result_ok[OF large(3,5,4)] by auto
next
  case (small q s1)
  note L = lookup_small[OF small(2-5)]
  have nz: "q \<noteq> 0" by (rule table_nz[OF small(2,3)])
  show ?thesis
  proof (cases "mem (fst s1) q (pt_index va) = 0")
    case True
    then show ?thesis using small(1) nz L find_result_fail[OF small(2) map_le_refl, of va Runtime_error] by auto
  next
    case False
    then have "lookup A va = Some (Suc 3, mem (fst s1) q (pt_index va))" using L by simp
    from find_result_ok[OF small(2) this small(3)] have "find_result G T A va (Inr ((q, pt_index va), PT)) s1" by simp
    moreover have "r = Inr ((q, pt_index va), PT)" "s' = s1" using small(1) nz False by auto
    ultimately show ?thesis by simp
  qed
qed

text \<open>Removing an entry.\<close>

lemma clear_entry:
  assumes I: "inv G D T A s" and q: "T \<pi> = Some q" "T (\<pi> @ [i]) = None" "i < 512" "\<pi> @ [i] \<notin> D"
  shows "inv G D T (A(\<pi> @ [i] := None)) (write_mem q i 0 (fst s), snd s)"
  using write_entry[OF I q(1,4,3,2), of 0] by (simp add: is_table_def)

lemma lookup_no_table:
  assumes "inv G D T A s" "lookup A va = Some (d, e)"
  shows "T (take d (va_path va)) = None"
proof -
  have "A (take d (va_path va)) = Some e" using assms(2) by (auto simp: lookup_def split: option.splits)
  moreover obtain \<pi> i where "take d (va_path va) = \<pi> @ [i]"
    using assms(2) by (cases "take d (va_path va)" rule: rev_cases) (auto simp: lookup_def va_path_def split: option.splits)
  ultimately show ?thesis using table_no_leaf[OF assms(1), of \<pi> i] by (cases "T (take d (va_path va))") auto
qed

theorem unmap_result:
  assumes I: "inv G {} T A s" and run: "unmap E va s = (r, s')"
  shows "\<exists>T'. T \<subseteq>\<^sub>m T' \<and> (case r of Inl x \<Rightarrow> inv G {} T' A s' \<and> x \<in> exhausted s' \<and> lookup A va = None
    | Inr u \<Rightarrow> inv G {} T' (unmapped_at A va) s')"
  using I run[unfolded unmap_descend]
proof (cases rule: descend_cases)
  case (fail e)
  then show ?thesis by (intro exI[of _ T]) auto
next
  case (unmapped T1 s1)
  then show ?thesis by (intro exI[of _ T1]) (auto simp: unmapped_at_def)
next
  case (large d q s1)
  have nz: "q \<noteq> 0" by (rule table_nz[OF large(3,4)])
  have i: "va_path va ! d < 512" using large(1) by auto
  have p: "take (Suc d) (va_path va) = take d (va_path va) @ [va_path va ! d]"
    using large(1) by (auto simp: va_path_def)
  have "T (take (Suc d) (va_path va)) = None" by (rule lookup_no_table[OF large(3,5)])
  then have "inv G {} T (unmapped_at A va) (write_mem q (va_path va ! d) 0 (fst s1), snd s1)"
    using clear_entry[OF large(3,4) _ i] unfolding p by (simp add: unmapped_at_def large(5) p)
  then show ?thesis using large(2) nz i by (intro exI[of _ T]) auto
next
  case (small q s1)
  have nz: "q \<noteq> 0" by (rule table_nz[OF small(2,3)])
  have p: "va_path va = take 3 (va_path va) @ [pt_index va]" by (simp add: va_path_def)
  have N: "T (va_path va) = None" using tables_depth[OF inv_ok[OF I], of "va_path va"] by (cases "T (va_path va)") (auto simp: va_path_def)
  have "inv G {} T (A(va_path va := None)) (write_mem q (pt_index va) 0 (fst s1), snd s1)"
    using clear_entry[OF small(2,3) _ index_less(4), of va] N unfolding p[symmetric] by simp
  moreover have "unmapped_at A va = A(va_path va := None)"
    using small(4,5) by (auto simp: unmapped_at_def lookup_def fun_eq_iff split: option.splits)
  ultimately show ?thesis using small(1) nz by (intro exI[of _ T]) auto
qed

end

end
