(* ===== verification/Page_Table_Release.thy ===== *)
theory Page_Table_Release
  imports Page_Table_Ops "HOL-Library.Sublist"
begin

text \<open>
  Construction, release and destruction of page tables: a new map is empty, releasing an address
  frees the tables that have become empty, and the destructor gives every page back.
\<close>

definition empty_table :: "mmap \<Rightarrow> u64 \<Rightarrow> bool" where
  "empty_table m q \<longleftrightarrow> (\<forall>i < 512. mem m q i = 0)"

text \<open>No table on the path of an address is empty.\<close>

definition pruned :: "(nat list \<Rightarrow> u64 option) \<Rightarrow> mmap \<Rightarrow> u64 \<Rightarrow> bool" where
  "pruned T m va \<longleftrightarrow> (\<forall>d \<in> {1, 2, 3}. \<forall>q. T (take d (va_path va)) = Some q \<longrightarrow> \<not> empty_table m q)"

context page_tables
begin

section \<open>Construction\<close>

theorem make_mmap_result:
  assumes "pinv (snd s)" "make_mmap E s = (r, s')"
  shows "case r of Inl x \<Rightarrow> x \<in> exhausted s' \<and> pinv (snd s') \<and> plive (snd s') = plive (snd s)
    | Inr u \<Rightarrow> \<exists>q. inv (plive (snd s)) {} [[] \<mapsto> q] (\<lambda>\<pi>. None) s'"
proof -
  let ?s0 = "((fst s)\<lparr>m_tab := \<lambda>l. null_pair\<rparr>, snd s)"
  have run: "bindE (allocate_span E) (\<lambda>q. set_tab PML4 \<lparr>pr_virt = q, pr_phys = 0\<rparr>) ?s0 = (r, s')"
    using assms(2) by (simp add: make_mmap_def)
  obtain x s1 where a: "allocate_span E ?s0 = (x, s1)" by (rule prod.exhaust)
  have p: "pinv (snd ?s0)" using assms(1) by simp
  from p a show ?thesis
  proof (cases rule: allocate_span_cases)
    case (fail e p')
    then show ?thesis using run a by (auto simp: bindE_def)
  next
    case (ok q p')
    let ?m = "(clear_page q (fst ?s0))\<lparr>m_tab := (\<lambda>l. null_pair)(PML4 := \<lparr>pr_virt = q, pr_phys = 0\<rparr>)\<rparr>"
    have s': "r = Inr ()" "s' = (?m, p')" using run a ok(1,2) by (auto simp: bindE_def)
    have "tables_ok E frame pages {} [[] \<mapsto> q] ?m"
      by (rule tables_okI) (use ok(4) in \<open>auto simp: cache_ok_def is_table_def clear_page_def split: if_splits\<close>)
    moreover have "leaves E {} [[] \<mapsto> q] ?m = (\<lambda>\<pi>. None)"
      by (rule leaves_eqI) (auto simp: leaves_snoc clear_page_def)
    ultimately have "inv (plive (snd s)) {} [[] \<mapsto> q] (\<lambda>\<pi>. None) s'"
      using ok(3,5,6) by (auto simp: pt_inv_def s')
    then show ?thesis using s'(1) by auto
  qed
qed

text \<open>The physical address of the root, computed on first use.\<close>

theorem root_phys_result:
  assumes I: "inv G D T A s"
  obtains s' q where "root_phys E s = (Inr (frame q), s')" "T [] = Some q" "inv G D T A s'"
proof -
  let ?t = "m_tab (fst s) PML4"
  let ?q = "pr_virt ?t"
  note ok = inv_ok[OF I]
  have r: "T [] = Some ?q" by (rule tables_root[OF ok])
  have v: "op_v2p E ?q (snd s) = (Inr (frame ?q), snd s)" by (rule v2p[OF inv_p[OF I] table_live[OF I r]])
  have nz: "frame ?q \<noteq> 0" by (rule frame_nz[OF inv_p[OF I] tables_pages[OF ok r]])
  show thesis
  proof (cases "pr_phys ?t = 0")
    case False
    then have "pr_phys ?t = frame ?q" using tables_root_phys[OF ok] by simp
    then have "root_phys E s = (Inr (frame ?q), s)" using False by (simp add: root_phys_def)
    then show ?thesis using that r I by blast
  next
    case True
    let ?s = "((fst s)\<lparr>m_tab := (m_tab (fst s))(PML4 := ?t\<lparr>pr_phys := frame ?q\<rparr>)\<rparr>, snd s)"
    have "root_phys E s = (Inr (frame ?q), ?s)" using True v by (simp add: root_phys_def seqE_def bindE_mmE bindE_def mmE_def tabE_def)
    moreover have "inv G D T A ?s"
      using I leaves_mem[of "fst ?s" "fst s" E D T] by (simp add: pt_inv_def tables_ok_def linked_def)
    ultimately show ?thesis using that r by blast
  qed
qed

section \<open>Freeing a table\<close>

lemma free_table_result:
  assumes I: "inv G D T A s" and r: "T (\<pi> @ [i]) = Some r" "\<And>j. T ((\<pi> @ [i]) @ [j]) = None"
  obtains p' where "free_table E r s = (Inr (), (fst s, p'))"
    "inv G (insert (\<pi> @ [i]) D) (T(\<pi> @ [i] := None)) (\<lambda>\<rho>. if \<rho> \<noteq> [] \<and> butlast \<rho> = \<pi> @ [i] then None else A \<rho>) (fst s, p')"
proof -
  obtain p' where p': "op_free E r (snd s) = (Inr (), p')" "pinv p'" "plive p' = plive (snd s) - {page_block r}"
    using page_free[OF inv_p[OF I], of r] table_live[OF I r(1)] by (auto simp: page_block_def)
  have ran: "ran (T(\<pi> @ [i] := None)) = ran T - {r}"
    by (rule ran_drop[of T, OF r(1)]) (rule tables_inj[OF inv_ok[OF I] _ r(1)])
  have "page_block r \<notin> G" using inv_apart[OF I] r(1) by (auto simp: ran_def)
  then have "plive p' = G \<union> page_block ` (ran T - {r})" unfolding p'(3) inv_live[OF I] by auto
  moreover have "G \<inter> page_block ` (ran T - {r}) = {}" using inv_apart[OF I] by blast
  moreover note drop_table[OF inv_ok[OF I] r, folded inv_leaves[OF I]]
  ultimately have "inv G (insert (\<pi> @ [i]) D) (T(\<pi> @ [i] := None)) (\<lambda>\<rho>. if \<rho> \<noteq> [] \<and> butlast \<rho> = \<pi> @ [i] then None else A \<rho>) (fst s, p')"
    using p'(2) by (simp add: pt_inv_def ran)
  then show thesis using that p'(1) by (simp add: free_table_def mmE_def)
qed

lemma empty_table_free:
  assumes I: "inv G D T A s" and r: "T (\<pi> @ [i]) = Some r" "empty_table (fst s) r"
  obtains p' where "free_table E r s = (Inr (), (fst s, p'))"
    "inv G (insert (\<pi> @ [i]) D) (T(\<pi> @ [i] := None)) A (fst s, p')"
proof -
  have N: "T ((\<pi> @ [i]) @ [j]) = None" for j
    using tables_link[OF inv_ok[OF I], of "\<pi> @ [i]" j] r by (cases "T ((\<pi> @ [i]) @ [j])") (auto simp: linked_def empty_table_def is_table_def)
  have "A ((\<pi> @ [i]) @ [j]) = None" for j
    using leaf_entry[OF I, of "\<pi> @ [i]" j] r by (cases "A ((\<pi> @ [i]) @ [j])") (auto simp: empty_table_def)
  then have "(\<lambda>\<rho>. if \<rho> \<noteq> [] \<and> butlast \<rho> = \<pi> @ [i] then None else A \<rho>) = A"
    by (intro ext) (metis append_butlast_last_id)
  then show thesis using free_table_result[OF I r(1) N] that by metis
qed

lemma release_if_empty_cases:
  assumes I: "inv G D T A s" and r: "T (\<pi> @ [i]) = Some (pr_virt (m_tab (fst s) l))" and run: "release_if_empty E l s = (x, s')"
  obtains (freed) "x = Inr True" "fst s' = fst s" "inv G (insert (\<pi> @ [i]) D) (T(\<pi> @ [i] := None)) A s'"
    | (kept) "x = Inr False" "s' = s" "\<not> empty_table (fst s) (pr_virt (m_tab (fst s) l))"
proof -
  let ?q = "pr_virt (m_tab (fst s) l)"
  have nz: "?q \<noteq> 0" by (rule table_nz[OF I r])
  have e: "table_empty l s = (Inr (empty_table (fst s) ?q), s)"
    using nz by (auto simp: table_empty_def empty_table_def num_entries_def list_all_iff)
  have R: "release_if_empty E l s =
      (if empty_table (fst s) ?q then seqE (free_table E ?q) (returnE True) s else (Inr False, s))"
    by (simp add: release_if_empty_def bindE_def[of "table_empty l"] e)
  show thesis
  proof (cases "empty_table (fst s) ?q")
    case True
    obtain p' where "free_table E ?q s = (Inr (), (fst s, p'))" "inv G (insert (\<pi> @ [i]) D) (T(\<pi> @ [i] := None)) A (fst s, p')"
      by (rule empty_table_free[OF I r True])
    then show ?thesis using run R True by (intro that(1)) (auto simp: seqE_Inr)
  next
    case False
    then show ?thesis using run R by (intro that(2)) auto
  qed
qed

section \<open>Releasing an address\<close>

lemma parent_not_empty:
  assumes "inv G D T A s" "T (\<pi> @ [i]) = Some r" "T \<pi> = Some q"
  shows "\<not> empty_table (fst s) q"
  using tables_link[OF inv_ok[OF assms(1)] assms(2)] assms(3) by (auto simp: linked_def empty_table_def is_table_def)

lemma prunedI:
  assumes I: "inv G D T A s" and d: "d \<in> {1, 2, 3}" "T (take d (va_path va)) = Some q" "\<not> empty_table (fst s) q"
    and N: "d < 3 \<Longrightarrow> T (take (Suc d) (va_path va)) = None"
  shows "pruned T (fst s) va"
proof -
  let ?a = "pml4_index va" and ?b = "pdpt_index va" and ?c = "pd_index va"
  have step: "\<not> empty_table (fst s) q'" if "T [?a, ?b] \<noteq> None" "T [?a] = Some q'" for q'
    using parent_not_empty[OF I, of "[?a]" ?b] that by auto
  have step2: "\<not> empty_table (fst s) q'" if "T [?a, ?b, ?c] \<noteq> None" "T [?a, ?b] = Some q'" for q'
    using parent_not_empty[OF I, of "[?a, ?b]" ?c] that by auto
  have up: "T [?a, ?b] \<noteq> None" if "T [?a, ?b, ?c] \<noteq> None" using no_table_below[OF I, of "[?a, ?b]" ?c] that by auto
  consider "d = 1" | "d = 2" | "d = 3" using d(1) by auto
  then show ?thesis
  proof cases
    case 1
    then have "T [?a] = Some q" "T [?a, ?b] = None" using d(2) N by (simp_all add: va_path_def numeral_eq_Suc)
    then show ?thesis using d(3) up unfolding pruned_def by (auto simp: va_path_def numeral_eq_Suc)
  next
    case 2
    then have "T [?a, ?b] = Some q" "T [?a, ?b, ?c] = None" using d(2) N by (simp_all add: va_path_def numeral_eq_Suc)
    then show ?thesis using d(3) step unfolding pruned_def by (auto simp: va_path_def numeral_eq_Suc)
  next
    case 3
    then have "T [?a, ?b, ?c] = Some q" using d(2) by (simp add: va_path_def numeral_eq_Suc)
    then show ?thesis using d(3) step step2 up unfolding pruned_def by (auto simp: va_path_def numeral_eq_Suc)
  qed
qed

text \<open>
  What the release of one level leaves: a failed allocation, a table that is kept, or a table freed
  whose entry one level up still has to be cleared.
\<close>

definition release_post where
  "release_post G T A d va r s s' \<longleftrightarrow>
     (case r of
        Inl x \<Rightarrow> x \<in> exhausted s' \<and> lookup A va = None \<and> (\<exists>T'. inv G {} T' A s')
      | Inr False \<Rightarrow> (\<exists>T'. inv G {} T' (unmapped_at A va) s' \<and> pruned T' (fst s') va)
      | Inr True \<Rightarrow> (\<exists>T'. inv G {take d (va_path va)} T' (unmapped_at A va) s' \<and>
          (\<forall>\<rho>. length \<rho> < d \<longrightarrow> T' \<rho> = T \<rho>)) \<and> (\<forall>n < d. m_tab (fst s') (level_at n) = m_tab (fst s) (level_at n)))"

lemma release_if_empty_post:
  assumes I: "inv G {} T1 (unmapped_at A va) s" and d: "d \<in> {1, 2, 3}" "T1 (take d (va_path va)) = Some (pr_virt (m_tab (fst s) l))"
    and N: "d < 3 \<Longrightarrow> T1 (take (Suc d) (va_path va)) = None" and T: "\<forall>\<rho>. length \<rho> < d \<longrightarrow> T1 \<rho> = T \<rho>"
    and m: "\<forall>n < d. m_tab (fst s) (level_at n) = m_tab (fst s0) (level_at n)"
    and run: "release_if_empty E l s = (r, s')"
  shows "release_post G T A d va r s0 s'"
proof -
  obtain \<pi> i where p: "take d (va_path va) = \<pi> @ [i]" using d(1) by (cases "take d (va_path va)" rule: rev_cases) (auto simp: va_path_def)
  have "length (take d (va_path va)) = d" using d(1) by (auto simp: va_path_def)
  then have len: "length (\<pi> @ [i]) = d" by (simp only: p)
  show ?thesis
    using I d(2)[unfolded p] run
  proof (cases rule: release_if_empty_cases)
    case freed
    have "(T1(\<pi> @ [i] := None)) \<rho> = T \<rho>" if "length \<rho> < d" for \<rho> using T that len by auto
    then show ?thesis using freed m p unfolding release_post_def by auto
  next
    case kept
    then show ?thesis using I prunedI[OF I d(1,2) _ N] unfolding release_post_def by auto
  qed
qed

lemma clear_dangling_entry:
  assumes I: "inv G D T A s" and q: "T \<pi> = Some q" "\<pi> @ [i] \<in> D"
  shows "inv G (D - {\<pi> @ [i]}) T A (write_mem q i 0 (fst s), snd s)"
  using clear_dangling[OF inv_ok[OF I] q, folded inv_leaves[OF I]] I by (simp add: pt_inv_def)

lemma unmapped_small:
  "A (take 2 (va_path va)) = None \<Longrightarrow> A (take 3 (va_path va)) = None \<Longrightarrow> unmapped_at A va = A(va_path va := None)"
  by (auto simp: unmapped_at_def lookup_def fun_eq_iff split: option.splits)

lemma release_pte_post:
  assumes I: "inv G {} T A s" and at: "T (take 2 (va_path va)) = Some (pr_virt (m_tab (fst s) PD))"
    and nl: "A (take 2 (va_path va)) = None" "A (take 3 (va_path va)) = None" and run: "release_pte E va s = (r, s')"
  shows "release_post G T A 3 va r s s'"
proof -
  have d: "take 3 (va_path va) \<notin> {}" by simp
  from I at[unfolded va_path_take] index_less(3) d[unfolded va_path_take] nl(2)[unfolded va_path_take] run[unfolded release_pte_def]
  show ?thesis
  proof (cases rule: seq_map_pt)
    case (fail e)
    then show ?thesis using lookup_unmapped(3)[OF I fail(3)] nl unfolding release_post_def va_path_take by auto
  next
    case (ok T1 s1)
    let ?q = "pr_virt (m_tab (fst s1) PT)"
    let ?s = "(write_mem ?q (pt_index va) 0 (fst s1), snd s1)"
    have nz: "?q \<noteq> 0" by (rule table_nz[OF ok(2,3)])
    have q: "T1 (take 3 (va_path va)) = Some ?q" using ok(3) by simp
    have p: "va_path va = take 3 (va_path va) @ [pt_index va]" by (simp add: va_path_def)
    have N: "T1 (va_path va) = None"
      using tables_depth[OF inv_ok[OF ok(2)], of "va_path va"] by (cases "T1 (va_path va)") (auto simp: va_path_def)
    have "inv G {} T1 (unmapped_at A va) ?s"
      using clear_entry[OF ok(2) q _ index_less(4), of va] N unfolding p[symmetric] unmapped_small[OF nl] by simp
    moreover have "release_if_empty E PT ?s = (r, s')" using ok(1) nz by simp
    moreover have "T1 \<rho> = T \<rho>" if "length \<rho> < 3" for \<rho> by (rule ok(6)) (use that in auto)
    moreover have "\<forall>n < 3. m_tab (fst ?s) (level_at n) = m_tab (fst s) (level_at n)"
      using ok(7) by (auto simp: less_Suc_eq numeral_eq_Suc)
    ultimately show ?thesis using q by (intro release_if_empty_post[of G T1 A va ?s 3 PT]) auto
  qed
qed

text \<open>One of the two upper levels, given what the level below leaves.\<close>

lemma release_level:
  assumes I: "inv G {} T A s" and d: "d \<in> {1, 2}" and at: "T (take d (va_path va)) = Some (pr_virt (m_tab (fst s) (level_at d)))"
    and sub: "\<And>x s1. A (take (Suc d) (va_path va)) = None \<Longrightarrow> child s = (x, s1) \<Longrightarrow> release_post G T A (Suc d) va x s s1"
    and lk: "\<And>e. A (take (Suc d) (va_path va)) = Some e \<Longrightarrow> lookup A va = Some (Suc d, e)"
    and run: "bindE (if \<not> tf_ps E (level_at d) (mem (fst s) (pr_virt (m_tab (fst s) (level_at d))) (va_path va ! d)) then child else returnE True) (\<lambda>go.
       if \<not> go then returnE False
       else seqE (upd_at (pr_virt (m_tab (fst s) (level_at d))) (va_path va ! d) (\<lambda>e. 0)) (release_if_empty E (level_at d))) s = (r, s')"
  shows "release_post G T A d va r s s'"
proof -
  let ?q = "pr_virt (m_tab (fst s) (level_at d))" and ?i = "va_path va ! d"
  let ?e = "mem (fst s) ?q ?i"
  have nz: "?q \<noteq> 0" by (rule table_nz[OF I at])
  have i: "?i < 512" using d by auto
  have p: "take (Suc d) (va_path va) = take d (va_path va) @ [?i]" using d by (auto simp: va_path_def)
  have lenp: "length (take d (va_path va)) = d" using d by (auto simp: va_path_def)
  have nd: "take d (va_path va) @ [?i] \<notin> {}" by simp
  note K = entry_kind[OF I at i nd, folded p, unfolded lenp]
  have d3: "d \<in> {1, 2, 3}" using d by auto
  show ?thesis
  proof (cases "tf_ps E (level_at d) ?e")
    case True
    then have nt: "?e \<noteq> 0" "\<not> is_table E d ?e" using ps_zero d by (auto simp: is_table_def)
    let ?s = "(write_mem ?q ?i 0 (fst s), snd s)"
    have N: "T (take (Suc d) (va_path va)) = None" using K(2) nt by auto
    have "inv G {} T (unmapped_at A va) ?s"
      using clear_entry[OF I at _ i] N lk K(1) nt by (simp add: unmapped_at_def p)
    moreover have "release_if_empty E (level_at d) ?s = (r, s')" using run True nz i by simp
    ultimately show ?thesis using at N by (intro release_if_empty_post[of G T A va ?s d "level_at d", OF _ d3]) auto
  next
    case False
    then have nl: "A (take (Suc d) (va_path va)) = None" using K(1) d by (auto simp: is_table_def)
    obtain x s1 where c: "child s = (x, s1)" by (rule prod.exhaust)
    note P = sub[OF nl c]
    consider e where "x = Inl e" | "x = Inr False" | "x = Inr True" by (cases x) auto
    then show ?thesis
    proof cases
      case 1
      then show ?thesis using P run False c by (auto simp: release_post_def bindE_def)
    next
      case 2
      then show ?thesis using P run False c by (auto simp: release_post_def bindE_def)
    next
      case 3
      then obtain T' where T': "inv G {take (Suc d) (va_path va)} T' (unmapped_at A va) s1" "\<forall>\<rho>. length \<rho> < Suc d \<longrightarrow> T' \<rho> = T \<rho>"
        "\<forall>n < Suc d. m_tab (fst s1) (level_at n) = m_tab (fst s) (level_at n)" using P by (auto simp: release_post_def)
      let ?s = "(write_mem ?q ?i 0 (fst s1), snd s1)"
      have q': "T' (take d (va_path va)) = Some ?q" using T'(2) at lenp by simp
      have "inv G {} T' (unmapped_at A va) ?s" using clear_dangling_entry[OF T'(1) q', of ?i] p by simp
      moreover have "T' (take (Suc d) (va_path va)) = None"
        using tables_link[OF inv_ok[OF T'(1)], of "take d (va_path va)" ?i] p by (cases "T' (take (Suc d) (va_path va))") auto
      moreover have "release_if_empty E (level_at d) ?s = (r, s')" using run False c 3 nz i by (simp add: bindE_def)
      ultimately show ?thesis using q' T'(2,3) by (intro release_if_empty_post[of G T' A va ?s d "level_at d", OF _ d3]) auto
    qed
  qed
qed

lemma release_pde_post:
  assumes I: "inv G {} T A s" and at: "T [pml4_index va] = Some (pr_virt (m_tab (fst s) PDPT))"
    and nl: "A (take 2 (va_path va)) = None" and run: "release_pde E va s = (r, s')"
  shows "release_post G T A 2 va r s s'"
proof -
  have d: "take 2 (va_path va) \<notin> {}" by simp
  from I at index_less(2) d[unfolded va_path_take] nl[unfolded va_path_take] run[unfolded release_pde_def]
  show ?thesis
  proof (cases rule: seq_map_pd)
    case (fail e)
    then show ?thesis using lookup_unmapped(2)[OF I fail(3)] nl unfolding release_post_def va_path_take by auto
  next
    case (ok T1 s1)
    let ?q = "pr_virt (m_tab (fst s1) PD)"
    have nz: "?q \<noteq> 0" by (rule table_nz[OF ok(2,3)])
    have q: "T1 (take 2 (va_path va)) = Some ?q" using ok(3) by simp
    have "release_post G T1 A 2 va r s1 s'"
    proof (rule release_level[OF ok(2), of 2 va "release_pte E va"])
      show "release_post G T1 A (Suc 2) va x s1 s2" if "A (take (Suc 2) (va_path va)) = None" "release_pte E va s1 = (x, s2)" for x s2
        using release_pte_post[OF ok(2) q nl _ that(2)] that(1) by simp
      show "lookup A va = Some (Suc 2, e)" if "A (take (Suc 2) (va_path va)) = Some e" for e
        using that nl by (simp add: lookup_def)
      show "bindE (if \<not> tf_ps E (level_at 2) (mem (fst s1) (pr_virt (m_tab (fst s1) (level_at 2))) (va_path va ! 2)) then release_pte E va else returnE True)
          (\<lambda>go. if \<not> go then returnE False
            else seqE (upd_at (pr_virt (m_tab (fst s1) (level_at 2))) (va_path va ! 2) (\<lambda>e. 0)) (release_if_empty E (level_at 2))) s1 = (r, s')"
        unfolding level_at_3 va_path_nth by (rule ok(1)[unfolded bindE_tabE bindE_read_at[OF nz index_less(3)]])
    qed (use q in simp_all)
    moreover have "T1 \<rho> = T \<rho>" if "length \<rho> < 2" for \<rho> by (rule ok(6)) (use that in auto)
    moreover have "m_tab (fst s1) (level_at n) = m_tab (fst s) (level_at n)" if "n < 2" for n
      using ok(7) that by (auto simp: less_Suc_eq numeral_eq_Suc)
    ultimately show ?thesis unfolding release_post_def by (cases r) (auto split: bool.splits)
  qed
qed

lemma release_pdpte_post:
  assumes I: "inv G {} T A s" and run: "release_pdpte E va s = (r, s')"
  shows "release_post G T A 1 va r s s'"
proof -
  have d: "[pml4_index va] \<notin> {}" by simp
  from I index_less(1) d run[unfolded release_pdpte_def] show ?thesis
  proof (cases rule: seq_map_pdpt)
    case (fail e)
    then show ?thesis using lookup_unmapped(1)[OF I fail(3)] unfolding release_post_def by auto
  next
    case (ok T1 s1)
    let ?q = "pr_virt (m_tab (fst s1) PDPT)"
    have nz: "?q \<noteq> 0" by (rule table_nz[OF ok(2,3)])
    have "release_post G T1 A 1 va r s1 s'"
    proof (rule release_level[OF ok(2), of 1 va "release_pde E va"])
      show "release_post G T1 A (Suc 1) va x s1 s2" if "A (take (Suc 1) (va_path va)) = None" "release_pde E va s1 = (x, s2)" for x s2
        using release_pde_post[OF ok(2,3) _ that(2)] that(1) by (simp add: numeral_2_eq_2)
      show "lookup A va = Some (Suc 1, e)" if "A (take (Suc 1) (va_path va)) = Some e" for e
        using that by (simp add: lookup_def numeral_2_eq_2)
      show "bindE (if \<not> tf_ps E (level_at 1) (mem (fst s1) (pr_virt (m_tab (fst s1) (level_at 1))) (va_path va ! 1)) then release_pde E va else returnE True)
          (\<lambda>go. if \<not> go then returnE False
            else seqE (upd_at (pr_virt (m_tab (fst s1) (level_at 1))) (va_path va ! 1) (\<lambda>e. 0)) (release_if_empty E (level_at 1))) s1 = (r, s')"
        unfolding level_at.simps va_path_nth One_nat_def by (rule ok(1)[unfolded bindE_tabE bindE_read_at[OF nz index_less(2)]])
    qed (use ok(3) in simp_all)
    moreover have "T1 \<rho> = T \<rho>" if "length \<rho> < 1" for \<rho> by (rule ok(6)) (use that in auto)
    moreover have "m_tab (fst s1) (level_at n) = m_tab (fst s) (level_at n)" if "n < 1" for n
      using ok(7) that by auto
    ultimately show ?thesis unfolding release_post_def by (cases r) (auto split: bool.splits)
  qed
qed

theorem release_result:
  assumes I: "inv G {} T A s" and run: "release E va s = (r, s')"
  shows "case r of Inl x \<Rightarrow> x \<in> exhausted s' \<and> lookup A va = None \<and> (\<exists>T'. inv G {} T' A s')
    | Inr u \<Rightarrow> \<exists>T'. inv G {} T' (unmapped_at A va) s' \<and> pruned T' (fst s') va"
proof -
  obtain x s1 where c: "release_pdpte E va s = (x, s1)" by (rule prod.exhaust)
  note P = release_pdpte_post[OF I c]
  consider e where "x = Inl e" | "x = Inr False" | "x = Inr True" by (cases x) auto
  then show ?thesis
  proof cases
    case 3
    then obtain T' where T': "inv G {[pml4_index va]} T' (unmapped_at A va) s1" "T' [] = T []"
      "m_tab (fst s1) PML4 = m_tab (fst s) PML4" using P by (auto simp: release_post_def)
    let ?q = "pr_virt (m_tab (fst s) PML4)"
    let ?s = "(write_mem ?q (pml4_index va) 0 (fst s1), snd s1)"
    have q: "T [] = Some ?q" by (rule tables_root[OF inv_ok[OF I]])
    have inv': "inv G {} T' (unmapped_at A va) ?s"
      using clear_dangling_entry[OF T'(1), of "[]" ?q "pml4_index va"] q T'(2) by simp
    have N: "T' [pml4_index va] = None"
      using tables_link[OF inv_ok[OF T'(1)], of "[]" "pml4_index va"] by (cases "T' [pml4_index va]") auto
    then have N2: "T' [pml4_index va, pdpt_index va] = None" using no_table_below[OF inv', of "[pml4_index va]"] by simp
    then have "T' [pml4_index va, pdpt_index va, pd_index va] = None"
      using no_table_below[OF inv', of "[pml4_index va, pdpt_index va]"] by simp
    then have "pruned T' (fst ?s) va" using N N2 by (auto simp: pruned_def)
    moreover have "r = Inr ()" "s' = ?s"
      using run c 3 T'(3) table_nz[OF I q] by (auto simp: release_def bindE_def[of "release_pdpte E va"])
    ultimately show ?thesis using inv' by auto
  qed (use P run c in \<open>auto simp: release_def release_post_def bindE_def[of "release_pdpte E va"]\<close>)
qed

end

end
