(* ===== verification/Page_Table_Destroy.thy ===== *)
theory Page_Table_Destroy
  imports Page_Table_Release
begin

text \<open>
  The destructor of page tables: it walks the tree, frees every table, and so returns exactly the
  pages the tables took.
\<close>

definition sub :: "nat list \<Rightarrow> nat list set" where
  "sub \<kappa> = {\<rho>. prefix \<kappa> \<rho>}"

definition below :: "nat list \<Rightarrow> nat list set" where
  "below \<kappa> = {\<rho>. strict_prefix \<kappa> \<rho>}"

lemma sub_below: "sub \<kappa> = insert \<kappa> (below \<kappa>)"
  by (auto simp: sub_def below_def)

lemma below_Union: "below \<kappa> = (\<Union>i. sub (\<kappa> @ [i]))"
  by (auto simp: sub_def below_def strict_prefix_def prefix_def) (metis append_Cons append_Nil neq_Nil_conv)

lemma not_in_sub [simp]: "\<pi> \<notin> sub (\<pi> @ [i])"
  by (auto simp: sub_def prefix_def)

context page_tables
begin

lemma subtree_None:
  assumes I: "inv G D T A s" and N: "T \<kappa> = None" and r: "\<rho> \<in> sub \<kappa>"
  shows "T \<rho> = None \<and> (\<rho> \<noteq> \<kappa> \<longrightarrow> A \<rho> = None)"
proof -
  obtain ys where "\<rho> = \<kappa> @ ys" using r by (auto simp: sub_def prefix_def)
  moreover have "T (\<kappa> @ ys) = None \<and> (ys \<noteq> [] \<longrightarrow> A (\<kappa> @ ys) = None)"
  proof (induction ys rule: rev_induct)
    case (snoc y ys)
    then show ?case using no_table_below[OF I, of "\<kappa> @ ys" y] no_leaf_below[OF I, of "\<kappa> @ ys" y] by simp
  qed (simp add: N)
  ultimately show ?thesis by auto
qed

lemma restrict_None: "(\<And>\<rho>. \<rho> \<in> X \<Longrightarrow> m \<rho> = None) \<Longrightarrow> m |` (- X) = m"
  by (auto simp: restrict_map_def fun_eq_iff)

lemma restrict_absent:
  assumes "inv G D T A s" "T \<kappa> = None" "A \<kappa> = None"
  shows "T |` (- sub \<kappa>) = T" "A |` (- sub \<kappa>) = A"
  using subtree_None[OF assms(1,2)] assms(3) by (auto intro!: restrict_None)

lemma restrict_leaf:
  assumes "inv G D T A s" "T \<kappa> = None"
  shows "T |` (- sub \<kappa>) = T" "A |` (- sub \<kappa>) = A(\<kappa> := None)"
proof -
  show "T |` (- sub \<kappa>) = T" using subtree_None[OF assms] by (auto intro!: restrict_None)
  have "\<kappa> \<in> sub \<kappa>" by (simp add: sub_def)
  then show "A |` (- sub \<kappa>) = A(\<kappa> := None)" using subtree_None[OF assms] by (auto simp: restrict_map_def fun_eq_iff)
qed

lemma restrict_drop:
  assumes I: "inv G D T A s" and r: "T \<kappa> = Some r" "\<And>j. T (\<kappa> @ [j]) = None" "A \<kappa> = None"
  shows "T(\<kappa> := None) = T |` (- sub \<kappa>)"
    and "(\<lambda>\<rho>. if \<rho> \<noteq> [] \<and> butlast \<rho> = \<kappa> then None else A \<rho>) = A |` (- sub \<kappa>)"
proof -
  have b: "T \<rho> = None" if "\<rho> \<in> below \<kappa>" for \<rho> using that subtree_None[OF I r(2)] unfolding below_Union by blast
  show "T(\<kappa> := None) = T |` (- sub \<kappa>)"
    by (intro ext) (simp add: restrict_map_def sub_below b)
  show "(\<lambda>\<rho>. if \<rho> \<noteq> [] \<and> butlast \<rho> = \<kappa> then None else A \<rho>) = A |` (- sub \<kappa>)"
  proof
    fix \<rho>
    show "(if \<rho> \<noteq> [] \<and> butlast \<rho> = \<kappa> then None else A \<rho>) = (A |` (- sub \<kappa>)) \<rho>"
    proof (cases "\<rho> \<in> sub \<kappa>")
      case False
      then have "\<not> (\<rho> \<noteq> [] \<and> butlast \<rho> = \<kappa>)" using prefixeq_butlast[of \<rho>] by (auto simp: sub_def)
      then show ?thesis using False by auto
    next
      case True
      consider "\<rho> = \<kappa>" | j where "\<rho> = \<kappa> @ [j]" | j where "\<rho> \<in> sub (\<kappa> @ [j])" "\<rho> \<noteq> \<kappa> @ [j]"
        using True unfolding sub_below[of \<kappa>] below_Union[of \<kappa>] by blast
      then have "A \<rho> = None \<or> (\<rho> \<noteq> [] \<and> butlast \<rho> = \<kappa>)"
      proof cases
        case 3
        then show ?thesis using subtree_None[OF I r(2) 3(1)] by simp
      qed (simp_all add: r(3))
      then show ?thesis using True by auto
    qed
  qed
qed

text \<open>Freeing the table at a path, and the cached pair with it.\<close>

lemma drop_cached:
  assumes I: "inv G D T A s" and r: "T (\<pi> @ [i]) = Some (pr_virt (m_tab (fst s) l))" "\<And>j. T ((\<pi> @ [i]) @ [j]) = None" and l: "l \<noteq> PML4"
  obtains s1 where "bindE (tabE l) (\<lambda>t. seqE (free_table E (pr_virt t)) (set_tab l null_pair)) s = (Inr (), s1)"
    "inv G (insert (\<pi> @ [i]) D) (T |` (- sub (\<pi> @ [i]))) (A |` (- sub (\<pi> @ [i]))) s1" "\<And>l'. l' \<noteq> l \<Longrightarrow> m_tab (fst s1) l' = m_tab (fst s) l'"
proof -
  let ?q = "pr_virt (m_tab (fst s) l)"
  obtain p' where p': "free_table E ?q s = (Inr (), (fst s, p'))"
    "inv G (insert (\<pi> @ [i]) D) (T(\<pi> @ [i] := None)) (\<lambda>\<rho>. if \<rho> \<noteq> [] \<and> butlast \<rho> = \<pi> @ [i] then None else A \<rho>) (fst s, p')"
    by (rule free_table_result[OF I r])
  note J = p'(2)[unfolded restrict_drop[OF I r table_no_leaf[OF I r(1)]]]
  let ?m = "(fst s)\<lparr>m_tab := (m_tab (fst s))(l := null_pair)\<rparr>"
  have "inv G (insert (\<pi> @ [i]) D) (T |` (- sub (\<pi> @ [i]))) (A |` (- sub (\<pi> @ [i]))) (?m, p')"
    using J tables_set_tab[OF inv_ok[OF J] l, of null_pair] leaves_mem[of ?m "fst s" E]
    by (simp add: pt_inv_def cache_ok_def)
  then show thesis using p'(1) by (intro that[of "(?m, p')"]) (simp_all add: seqE_def bindE_def tabE_def)
qed

text \<open>What clearing the table at entry \<open>i\<close> of a table of depth \<open>d\<close> does.\<close>

definition clears :: "nat \<Rightarrow> (nat \<Rightarrow> ('p tables, unit) op) \<Rightarrow> bool" where
  "clears d clear \<longleftrightarrow>
     (\<forall>G D T A s \<pi> i. inv G D T A s \<longrightarrow> length \<pi> = d \<longrightarrow> T \<pi> = Some (pr_virt (m_tab (fst s) (level_at d))) \<longrightarrow>
        i < 512 \<longrightarrow> D \<inter> sub (\<pi> @ [i]) = {} \<longrightarrow> T (\<pi> @ [i]) \<noteq> None \<longrightarrow>
        (\<exists>s1. clear i s = (Inr (), s1) \<and> inv G (insert (\<pi> @ [i]) D) (T |` (- sub (\<pi> @ [i]))) (A |` (- sub (\<pi> @ [i]))) s1 \<and>
          (\<forall>n \<le> d. m_tab (fst s1) (level_at n) = m_tab (fst s) (level_at n))))"

lemma clearsD:
  assumes "clears d clear" "inv G D T A s" "length \<pi> = d" "T \<pi> = Some (pr_virt (m_tab (fst s) (level_at d)))"
    "i < 512" "D \<inter> sub (\<pi> @ [i]) = {}" "T (\<pi> @ [i]) \<noteq> None"
  obtains s1 where "clear i s = (Inr (), s1)" "inv G (insert (\<pi> @ [i]) D) (T |` (- sub (\<pi> @ [i]))) (A |` (- sub (\<pi> @ [i]))) s1"
    "\<forall>n \<le> d. m_tab (fst s1) (level_at n) = m_tab (fst s) (level_at n)"
  using assms unfolding clears_def by metis

text \<open>One step of the loop over the entries of a table: whatever the entry was, its subtree is gone.\<close>

lemma clear_step:
  assumes sub: "clears d clear" and d: "d \<in> {1, 2}" and I: "inv G D T A s" and \<pi>: "length \<pi> = d" "T \<pi> = Some (pr_virt (m_tab (fst s) (level_at d)))"
    and i: "i < 512" "D \<inter> sub (\<pi> @ [i]) = {}"
  obtains s1 where "bindE (tabE (level_at d)) (\<lambda>t. bindE (read_at (pr_virt t) i) (\<lambda>e.
       if e = 0 then returnE () else seqE (if \<not> tf_ps E (level_at d) e then clear i else returnE ()) (upd_at (pr_virt t) i (\<lambda>e. 0)))) s = (Inr (), s1)"
    "inv G D (T |` (- sub (\<pi> @ [i]))) (A |` (- sub (\<pi> @ [i]))) s1" "\<forall>n \<le> d. m_tab (fst s1) (level_at n) = m_tab (fst s) (level_at n)"
proof -
  let ?q = "pr_virt (m_tab (fst s) (level_at d))"
  let ?e = "mem (fst s) ?q i"
  have nz: "?q \<noteq> 0" by (rule table_nz[OF I \<pi>(2)])
  have nD: "\<pi> @ [i] \<notin> D" using i(2) by (auto simp: sub_def)
  note K = entry_kind[OF I \<pi>(2) i(1) nD, unfolded \<pi>(1)]
  consider "?e = 0" | "?e \<noteq> 0" "tf_ps E (level_at d) ?e" | "?e \<noteq> 0" "\<not> tf_ps E (level_at d) ?e" by blast
  then show thesis
  proof cases
    case 1
    then have "T (\<pi> @ [i]) = None" "A (\<pi> @ [i]) = None" using K by (auto simp: is_table_def)
    from restrict_absent[OF I this] show ?thesis using I 1 nz i(1) by (intro that[of s]) simp_all
  next
    case 2
    then have N: "T (\<pi> @ [i]) = None" using K(2) d by (auto simp: is_table_def)
    from restrict_leaf[OF I N] show ?thesis using clear_entry[OF I \<pi>(2) N i(1) nD] 2 nz i(1)
      by (intro that[of "(write_mem ?q i 0 (fst s), snd s)"]) simp_all
  next
    case 3
    then have "T (\<pi> @ [i]) \<noteq> None" using K(2) d by (auto simp: is_table_def)
    then obtain s1 where s1: "clear i s = (Inr (), s1)"
      "inv G (insert (\<pi> @ [i]) D) (T |` (- sub (\<pi> @ [i]))) (A |` (- sub (\<pi> @ [i]))) s1"
      "\<forall>n \<le> d. m_tab (fst s1) (level_at n) = m_tab (fst s) (level_at n)"
      using clearsD[OF sub I \<pi> i] by blast
    have q: "(T |` (- sub (\<pi> @ [i]))) \<pi> = Some ?q" using \<pi>(2) by simp
    have "inv G D (T |` (- sub (\<pi> @ [i]))) (A |` (- sub (\<pi> @ [i]))) (write_mem ?q i 0 (fst s1), snd s1)"
      using clear_dangling_entry[OF s1(2) q, of i] nD by simp
    then show ?thesis using s1 3 nz i(1) by (intro that[of "(write_mem ?q i 0 (fst s1), snd s1)"]) (simp_all add: seqE_Inr)
  qed
qed

lemma clear_entries_result:
  assumes sub: "clears d clear" and d: "d \<in> {1, 2}" and I: "inv G D T A s" and \<pi>: "length \<pi> = d" "T \<pi> = Some (pr_virt (m_tab (fst s) (level_at d)))"
    and D: "D \<inter> below \<pi> = {}"
  obtains s1 where "clear_entries E (level_at d) clear s = (Inr (), s1)"
    "inv G D (T |` (- below \<pi>)) (A |` (- below \<pi>)) s1" "\<forall>n \<le> d. m_tab (fst s1) (level_at n) = m_tab (fst s) (level_at n)"
proof -
  let ?X = "\<lambda>ys. \<Union>j \<in> set ys. sub (\<pi> @ [j])"
  let ?I = "\<lambda>ys t. inv G D (T |` (- ?X ys)) (A |` (- ?X ys)) t \<and> (\<forall>n \<le> d. m_tab (fst t) (level_at n) = m_tab (fst s) (level_at n))"
  have "\<exists>t. clear_entries E (level_at d) clear s = (Inr (), t) \<and> ?I [0 ..< 512] t"
    unfolding clear_entries_def num_entries_def
  proof (rule forE_inv[where I = ?I])
    show "?I [] s" using I by (simp add: restrict_map_def)
  next
    fix ys y zs t assume xs: "[0 ..< 512] = ys @ y # zs" and It: "?I ys t"
    then have y: "y < 512" by (metis atLeastLessThan_iff in_set_conv_decomp set_upt)
    let ?T = "T |` (- ?X ys)" and ?A = "A |` (- ?X ys)"
    have q: "?T \<pi> = Some (pr_virt (m_tab (fst t) (level_at d)))" using \<pi>(2) It by (auto simp: restrict_map_def)
    have Dy: "D \<inter> sub (\<pi> @ [y]) = {}" using D unfolding below_Union by blast
    obtain t1 where t1: "bindE (tabE (level_at d)) (\<lambda>u. bindE (read_at (pr_virt u) y) (\<lambda>e.
       if e = 0 then returnE () else seqE (if \<not> tf_ps E (level_at d) e then clear y else returnE ()) (upd_at (pr_virt u) y (\<lambda>e. 0)))) t = (Inr (), t1)"
      "inv G D (?T |` (- sub (\<pi> @ [y]))) (?A |` (- sub (\<pi> @ [y]))) t1" "\<forall>n \<le> d. m_tab (fst t1) (level_at n) = m_tab (fst t) (level_at n)"
      using clear_step[OF sub d conjunct1[OF It] \<pi>(1) q y Dy] by blast
    have "- ?X ys \<inter> - sub (\<pi> @ [y]) = - ?X (ys @ [y])" by auto
    then have "?I (ys @ [y]) t1" using t1(2,3) It by (simp add: restrict_restrict)
    then show "\<exists>t'. bindE (tabE (level_at d)) (\<lambda>t. bindE (read_at (pr_virt t) y) (\<lambda>e.
       if e = 0 then returnE () else seqE (if \<not> tf_ps E (level_at d) e then clear y else returnE ()) (upd_at (pr_virt t) y (\<lambda>e. 0)))) t = (Inr (), t') \<and> ?I (ys @ [y]) t'"
      using t1(1) by blast
  qed
  then obtain t where t: "clear_entries E (level_at d) clear s = (Inr (), t)" "?I [0 ..< 512] t" by blast
  have out: "T \<rho> = None \<and> A \<rho> = None" if b: "\<rho> \<in> below \<pi>" and x: "\<rho> \<notin> ?X [0 ..< 512]" for \<rho>
  proof -
    obtain i where i: "\<rho> \<in> sub (\<pi> @ [i])" using b unfolding below_Union by blast
    then have "\<not> i < 512" using x by auto
    then have "T (\<pi> @ [i]) = None" "A (\<pi> @ [i]) = None"
      using tables_link[OF inv_ok[OF I], of \<pi> i] leaf_entry[OF I, of \<pi> i]
      by (cases "T (\<pi> @ [i])"; cases "A (\<pi> @ [i])"; auto)+
    then show ?thesis using subtree_None[OF I _ i] by metis
  qed
  have sb: "?X [0 ..< 512] \<subseteq> below \<pi>" unfolding below_Union by auto
  have "T |` (- ?X [0 ..< 512]) = T |` (- below \<pi>)" "A |` (- ?X [0 ..< 512]) = A |` (- below \<pi>)"
    using out sb by (auto simp: restrict_map_def fun_eq_iff)
  then show thesis using t that by simp
qed

section \<open>Clearing whole tables\<close>

lemma map_table_existing:
  assumes I: "inv G D T A s" and \<pi>: "length \<pi> = d" "T \<pi> = Some (pr_virt (m_tab (fst s) (level_at d)))" "d < 3"
    and i: "i < 512" "T (\<pi> @ [i]) \<noteq> None"
  obtains s1 where "map_table E (level_at d) (level_at (Suc d)) i s = (Inr (), s1)" "inv G D T A s1"
    "T (\<pi> @ [i]) = Some (pr_virt (m_tab (fst s1) (level_at (Suc d))))" "\<forall>n \<le> d. m_tab (fst s1) (level_at n) = m_tab (fst s) (level_at n)"
proof -
  obtain r0 where r0: "T (\<pi> @ [i]) = Some r0" using i(2) by blast
  have l: "level_at d = level_at (length \<pi>)" using \<pi>(1) by simp
  have above: "level_at n \<noteq> level_at (Suc d)" if "n \<le> d" for n using that \<pi>(3) by (auto simp: numeral_eq_Suc less_Suc_eq le_Suc_eq)
  obtain c' where c': "map_table E (level_at d) (level_at (Suc d)) i s = (Inr (), ((fst s)\<lparr>m_tab := (m_tab (fst s))(level_at (Suc d) := c')\<rparr>, snd s))"
    "pr_virt c' = r0" "inv G D T A ((fst s)\<lparr>m_tab := (m_tab (fst s))(level_at (Suc d) := c')\<rparr>, snd s)"
    by (rule map_table_link[OF I \<pi>(2) l level_at_ne[OF \<pi>(3)] i(1) r0])
  then show thesis using r0 above by (intro that) auto
qed

lemma clears_pt: "clears 2 (clear_pt E)"
  unfolding clears_def
proof (intro allI impI)
  fix G D T A s \<pi> i
  assume I: "inv G D T A s" and \<pi>: "length \<pi> = 2" "T \<pi> = Some (pr_virt (m_tab (fst s) (level_at 2)))"
    and i: "i < 512" "D \<inter> sub (\<pi> @ [i]) = {}" "T (\<pi> @ [i]) \<noteq> None"
  obtain s1 where s1: "map_table E (level_at 2) (level_at (Suc 2)) i s = (Inr (), s1)" "inv G D T A s1"
    "T (\<pi> @ [i]) = Some (pr_virt (m_tab (fst s1) (level_at (Suc 2))))" "\<forall>n \<le> 2. m_tab (fst s1) (level_at n) = m_tab (fst s) (level_at n)"
    using map_table_existing[OF I \<pi> _ i(1,3)] by auto
  have N: "T ((\<pi> @ [i]) @ [j]) = None" for j
    using tables_depth[OF inv_ok[OF I], of "(\<pi> @ [i]) @ [j]"] \<pi>(1) by (cases "T ((\<pi> @ [i]) @ [j])") auto
  have t: "T (\<pi> @ [i]) = Some (pr_virt (m_tab (fst s1) PT))" using s1(3) by simp
  obtain s2 where s2: "bindE (tabE PT) (\<lambda>t. seqE (free_table E (pr_virt t)) (set_tab PT null_pair)) s1 = (Inr (), s2)"
    "inv G (insert (\<pi> @ [i]) D) (T |` (- sub (\<pi> @ [i]))) (A |` (- sub (\<pi> @ [i]))) s2" "\<And>l'. l' \<noteq> PT \<Longrightarrow> m_tab (fst s2) l' = m_tab (fst s1) l'"
    using drop_cached[OF s1(2) t N] by auto
  have above: "level_at n \<noteq> PT" if "n \<le> 2" for n using that by (auto simp: numeral_eq_Suc le_Suc_eq)
  have "clear_pt E i s = (Inr (), s2)" using s1(1) s2(1) unfolding clear_pt_def map_pt_def by (subst seqE_Inr) simp_all
  then show "\<exists>s1. clear_pt E i s = (Inr (), s1) \<and> inv G (insert (\<pi> @ [i]) D) (T |` (- sub (\<pi> @ [i]))) (A |` (- sub (\<pi> @ [i]))) s1 \<and>
      (\<forall>n \<le> 2. m_tab (fst s1) (level_at n) = m_tab (fst s) (level_at n))"
    using s2(2,3) s1(4) above by metis
qed

text \<open>A table of depth one or two, with the tables below it.\<close>

lemma clears_step:
  assumes sub: "clears (Suc d) clear" and d: "d < 2"
    and op: "\<And>i. clear' i = seqE (map_table E (level_at d) (level_at (Suc d)) i) (seqE (clear_entries E (level_at (Suc d)) clear)
      (bindE (tabE (level_at (Suc d))) (\<lambda>t. seqE (free_table E (pr_virt t)) (set_tab (level_at (Suc d)) null_pair))))"
  shows "clears d clear'"
  unfolding clears_def
proof (intro allI impI)
  fix G D T A s \<pi> i
  assume I: "inv G D T A s" and \<pi>: "length \<pi> = d" "T \<pi> = Some (pr_virt (m_tab (fst s) (level_at d)))"
    and i: "i < 512" "D \<inter> sub (\<pi> @ [i]) = {}" "T (\<pi> @ [i]) \<noteq> None"
  let ?k = "\<pi> @ [i]" and ?l = "level_at (Suc d)"
  have d3: "d < 3" "Suc d \<in> {1, 2}" using d by auto
  obtain s1 where s1: "map_table E (level_at d) ?l i s = (Inr (), s1)" "inv G D T A s1"
    "T ?k = Some (pr_virt (m_tab (fst s1) ?l))" "\<forall>n \<le> d. m_tab (fst s1) (level_at n) = m_tab (fst s) (level_at n)"
    using map_table_existing[OF I \<pi> d3(1) i(1,3)] by blast
  have k: "length ?k = Suc d" "D \<inter> below ?k = {}" using \<pi>(1) i(2) by (auto simp: sub_below)
  obtain s2 where s2: "clear_entries E ?l clear s1 = (Inr (), s2)" "inv G D (T |` (- below ?k)) (A |` (- below ?k)) s2"
    "\<forall>n \<le> Suc d. m_tab (fst s2) (level_at n) = m_tab (fst s1) (level_at n)"
    using clear_entries_result[OF sub d3(2) s1(2) k(1) s1(3) k(2)] by blast
  have t: "(T |` (- below ?k)) ?k = Some (pr_virt (m_tab (fst s2) ?l))" using s1(3) s2(3) by (simp add: below_def)
  have N: "(T |` (- below ?k)) (?k @ [j]) = None" for j by (simp add: below_def strict_prefix_def)
  have l: "?l \<noteq> PML4" "\<forall>n \<le> d. level_at n \<noteq> ?l" using d by (auto simp: numeral_eq_Suc less_Suc_eq le_Suc_eq)
  obtain s3 where s3: "bindE (tabE ?l) (\<lambda>t. seqE (free_table E (pr_virt t)) (set_tab ?l null_pair)) s2 = (Inr (), s3)"
    "inv G (insert ?k D) (T |` (- below ?k) |` (- sub ?k)) (A |` (- below ?k) |` (- sub ?k)) s3" "\<And>l'. l' \<noteq> ?l \<Longrightarrow> m_tab (fst s3) l' = m_tab (fst s2) l'"
    using drop_cached[OF s2(2) t N l(1)] by blast
  have r: "- below ?k \<inter> - sub ?k = - sub ?k" by (auto simp: sub_below)
  have "clear' i s = (Inr (), s3)" unfolding op by (subst seqE_Inr, rule s1(1), subst seqE_Inr, rule s2(1), rule s3(1))
  then show "\<exists>s1. clear' i s = (Inr (), s1) \<and> inv G (insert ?k D) (T |` (- sub ?k)) (A |` (- sub ?k)) s1 \<and>
      (\<forall>n \<le> d. m_tab (fst s1) (level_at n) = m_tab (fst s) (level_at n))"
    using s3(2,3) s2(3) s1(4) l(2) by (intro exI[of _ s3]) (simp add: restrict_restrict r)
qed

lemma clears_pd: "clears 1 (clear_pd E)"
  by (rule clears_step[of 1 "clear_pt E"]) (use clears_pt in \<open>simp_all add: clear_pd_def map_pd_def numeral_2_eq_2\<close>)

lemma clears_pdpt: "clears 0 (clear_pdpt E)"
  by (rule clears_step[of 0 "clear_pd E"]) (use clears_pd in \<open>simp_all add: clear_pdpt_def map_pdpt_def\<close>)

section \<open>The destructor\<close>

lemma destroy_loop:
  assumes I: "inv G {} T A s"
  shows "\<exists>t D. forE [0 ..< 512] (\<lambda>i. bindE (tabE PML4) (\<lambda>t. bindE (read_at (pr_virt t) i) (\<lambda>e. if e = 0 then returnE () else clear_pdpt E i))) s = (Inr (), t) \<and>
    inv G D (T |` (- (\<Union>j \<in> {0 ..< 512}. sub [j]))) (A |` (- (\<Union>j \<in> {0 ..< 512}. sub [j]))) t \<and> m_tab (fst t) PML4 = m_tab (fst s) PML4"
proof -
  let ?q = "pr_virt (m_tab (fst s) PML4)" and ?X = "\<lambda>ys. \<Union>j \<in> set ys. sub [j]"
  let ?J = "\<lambda>ys D t. D \<subseteq> {[j] | j. j \<in> set ys} \<and> inv G D (T |` (- ?X ys)) (A |` (- ?X ys)) t \<and> m_tab (fst t) PML4 = m_tab (fst s) PML4"
  let ?f = "\<lambda>i. bindE (tabE PML4) (\<lambda>t. bindE (read_at (pr_virt t) i) (\<lambda>e. if e = 0 then returnE () else clear_pdpt E i))"
  have root: "T [] = Some ?q" by (rule tables_root[OF inv_ok[OF I]])
  have nz: "?q \<noteq> 0" by (rule table_nz[OF I root])
  have "\<exists>t. forE [0 ..< 512] ?f s = (Inr (), t) \<and> (\<exists>D. ?J [0 ..< 512] D t)"
  proof (rule forE_inv[where I = "\<lambda>ys t. \<exists>D. ?J ys D t"])
    show "\<exists>D. ?J [] D s" using I by (auto simp: restrict_map_def)
  next
    fix ys y zs t assume xs: "[0 ..< 512] = ys @ y # zs" and "\<exists>D. ?J ys D t"
    then obtain D where D: "D \<subseteq> {[j] | j. j \<in> set ys}" "inv G D (T |` (- ?X ys)) (A |` (- ?X ys)) t"
      and m: "m_tab (fst t) PML4 = m_tab (fst s) PML4" by blast
    let ?T = "T |` (- ?X ys)" and ?A = "A |` (- ?X ys)"
    have y: "y < 512" using xs by (metis atLeastLessThan_iff in_set_conv_decomp set_upt)
    have "distinct (ys @ y # zs)" using xs by (metis distinct_upt)
    then have dis: "D \<inter> sub ([] @ [y]) = {}" using D(1) by (auto simp: sub_def)
    have q: "?T [] = Some (pr_virt (m_tab (fst t) (level_at 0)))" using root m by (auto simp: restrict_map_def sub_def)
    have nD: "[] @ [y] \<notin> D" using dis by (auto simp: sub_def)
    note K = entry_kind[OF D(2) q y nD, simplified append_Nil list.size level_at.simps m]
    have X: "- ?X ys \<inter> - sub [y] = - ?X (ys @ [y])" by auto
    show "\<exists>t'. ?f y t = (Inr (), t') \<and> (\<exists>D. ?J (ys @ [y]) D t')"
    proof (cases "mem (fst t) ?q y = 0")
      case True
      then have "?T [y] = None" "?A [y] = None" using K by (auto simp: is_table_def)
      from restrict_absent[OF D(2) this] have "?J (ys @ [y]) D t"
        using D m unfolding restrict_restrict X by auto
      moreover have "?f y t = (Inr (), t)" using True nz y m by simp
      ultimately show ?thesis by blast
    next
      case False
      then have "?T ([] @ [y]) \<noteq> None" using K by (auto simp: is_table_def)
      then obtain t1 where t1: "clear_pdpt E y t = (Inr (), t1)" "inv G (insert [y] D) (?T |` (- sub [y])) (?A |` (- sub [y])) t1"
        "m_tab (fst t1) PML4 = m_tab (fst t) PML4" using clearsD[OF clears_pdpt D(2) _ q y dis] by auto
      have "insert [y] D \<subseteq> {[j] | j. j \<in> set (ys @ [y])}" using D(1) by auto
      then have "?J (ys @ [y]) (insert [y] D) t1" using t1(2,3) m unfolding restrict_restrict X by simp
      moreover have "?f y t = (Inr (), t1)" using t1(1) False nz y m by simp
      ultimately show ?thesis by blast
    qed
  qed
  then show ?thesis unfolding set_upt by blast
qed

text \<open>All pages of the tables are returned, and no other.\<close>

theorem destroy_mmap_result:
  assumes I: "inv G {} T A s"
  obtains s' where "destroy_mmap E s = (Inr (), s')" "pinv (snd s')" "plive (snd s') = G"
proof -
  let ?q = "pr_virt (m_tab (fst s) PML4)"
  define X where "X = (\<Union>j \<in> {0 ..< 512}. sub [j])"
  have root: "T [] = Some ?q" by (rule tables_root[OF inv_ok[OF I]])
  obtain t D where t: "forE [0 ..< 512] (\<lambda>i. bindE (tabE PML4) (\<lambda>t. bindE (read_at (pr_virt t) i) (\<lambda>e. if e = 0 then returnE () else clear_pdpt E i))) s = (Inr (), t)"
    "inv G D (T |` (- X)) (A |` (- X)) t" "m_tab (fst t) PML4 = m_tab (fst s) PML4" using destroy_loop[OF I] unfolding X_def by blast
  let ?T = "T |` (- X)"
  have none: "?T \<rho> = None" if ne: "\<rho> \<noteq> []" for \<rho>
  proof -
    obtain j \<rho>' where r: "\<rho> = j # \<rho>'" using ne by (cases \<rho>) auto
    show ?thesis
    proof (cases "j < 512")
      case True
      then have "\<rho> \<in> X" by (auto simp: X_def r sub_def)
      then show ?thesis by (simp add: restrict_map_def)
    next
      case False
      then have "T [j] = None" using tables_link[OF inv_ok[OF I], of "[]" j] by (cases "T [j]") auto
      then show ?thesis using subtree_None[OF I, of "[j]" \<rho>] by (simp add: r sub_def restrict_map_def)
    qed
  qed
  have rt: "?T [] = Some ?q" using root by (simp add: restrict_map_def X_def sub_def)
  have "ran ?T = {?q}"
  proof
    show "{?q} \<subseteq> ran ?T" using rt by (auto intro: ranI)
    show "ran ?T \<subseteq> {?q}"
    proof
      fix x assume "x \<in> ran ?T"
      then obtain \<rho> where r: "?T \<rho> = Some x" unfolding ran_def by blast
      then have "\<rho> = []" using none[of \<rho>] by (cases "\<rho> = []") simp_all
      then show "x \<in> {?q}" using r rt by simp
    qed
  qed
  then have live: "plive (snd t) = insert (page_block ?q) G" "page_block ?q \<notin> G"
    using inv_live[OF t(2)] inv_apart[OF t(2)] by auto
  then obtain p' where p': "op_free E ?q (snd t) = (Inr (), p')" "pinv p'" "plive p' = G"
    using page_free[OF inv_p[OF t(2)], of ?q] by (auto simp: page_block_def)
  have "destroy_mmap E s = (Inr (), (fst t, p'))"
    unfolding destroy_mmap_def num_entries_def
    by (subst seqE_Inr, rule t(1)) (simp add: t(3) free_table_def mmE_def p'(1))
  then show thesis using p'(2,3) by (intro that[of "(fst t, p')"]) simp_all
qed

end

end
