(* ===== verification/Page_Table_Run.thy ===== *)
theory Page_Table_Run
  imports Page_Table_Destroy
begin

text \<open>
  Sequences of calls on page tables, and the abstract machine they refine: a partial map from paths
  to entries that the calls change directly.
\<close>

datatype 'x call =
    Map_1g u64 'x | Map_2m u64 'x | Map_4k u64 'x | Unmap u64 | Release u64
  | Entry u64 | Virt_to_phys u64 | From u64 | Root_phys

text \<open>\<open>leaf l x\<close> builds the entry that maps a page at level \<open>l\<close> with the arguments \<open>x\<close>.\<close>

definition exec :: "'p paging \<Rightarrow> (level \<Rightarrow> 'x \<Rightarrow> u64 \<Rightarrow> u64) \<Rightarrow> 'x call \<Rightarrow> ('p tables, unit) op" where
  "exec E leaf c =
     (case c of
        Map_1g va x \<Rightarrow> bindE (map_1g E va (leaf PDPT x)) (\<lambda>r. returnE ())
      | Map_2m va x \<Rightarrow> bindE (map_2m E va (leaf PD x)) (\<lambda>r. returnE ())
      | Map_4k va x \<Rightarrow> bindE (map_4k E va (leaf PT x)) (\<lambda>r. returnE ())
      | Unmap va \<Rightarrow> unmap E va
      | Release va \<Rightarrow> release E va
      | Entry va \<Rightarrow> bindE (entry E va) (\<lambda>r. returnE ())
      | Virt_to_phys va \<Rightarrow> bindE (virt_to_phys E va) (\<lambda>r. returnE ())
      | From va \<Rightarrow> bindE (map_from E va) (\<lambda>r. returnE ())
      | Root_phys \<Rightarrow> bindE (root_phys E) (\<lambda>r. returnE ()))"

definition abs_call :: "(level \<Rightarrow> 'x \<Rightarrow> u64 \<Rightarrow> u64) \<Rightarrow> 'x call \<Rightarrow> (nat list \<Rightarrow> u64 option) \<Rightarrow> nat list \<Rightarrow> u64 option" where
  "abs_call leaf c A =
     (case c of
        Map_1g va x \<Rightarrow> A(take 2 (va_path va) := entry_of (leaf PDPT x 0))
      | Map_2m va x \<Rightarrow> A(take 3 (va_path va) := entry_of (leaf PD x 0))
      | Map_4k va x \<Rightarrow> A(va_path va := entry_of (leaf PT x 0))
      | Unmap va \<Rightarrow> unmapped_at A va
      | Release va \<Rightarrow> unmapped_at A va
      | _ \<Rightarrow> A)"

text \<open>
  A page may be mapped only where no larger page maps the address: the code does not look for one
  (it would take the entry of the larger page for a table).
\<close>

definition legal :: "(nat list \<Rightarrow> u64 option) \<Rightarrow> 'x call \<Rightarrow> bool" where
  "legal A c =
     (case c of
        Map_2m va x \<Rightarrow> A (take 2 (va_path va)) = None
      | Map_4k va x \<Rightarrow> A (take 2 (va_path va)) = None \<and> A (take 3 (va_path va)) = None
      | _ \<Rightarrow> True)"

inductive table_run :: "'p paging \<Rightarrow> (level \<Rightarrow> 'x \<Rightarrow> u64 \<Rightarrow> u64) \<Rightarrow> 'p tables \<Rightarrow> (nat list \<Rightarrow> u64 option) \<Rightarrow> 'p tables \<Rightarrow> bool"
  for E leaf s0 where
  run_start: "table_run E leaf s0 Map.empty s0"
| run_ok: "table_run E leaf s0 A s \<Longrightarrow> legal A c \<Longrightarrow> exec E leaf c s = (Inr u, s') \<Longrightarrow> table_run E leaf s0 (abs_call leaf c A) s'"
| run_fail: "table_run E leaf s0 A s \<Longrightarrow> legal A c \<Longrightarrow> exec E leaf c s = (Inl e, s') \<Longrightarrow> table_run E leaf s0 A s'"

lemma bindE_unit:
  "bindE m (\<lambda>r. returnE ()) s = (case m s of (Inl e, s') \<Rightarrow> (Inl e, s') | (Inr a, s') \<Rightarrow> (Inr (), s'))"
  by (simp add: bindE_def returnE_def split: prod.splits sum.splits)

section \<open>Lookups in an updated map\<close>

lemma length_va_path [simp]: "length (va_path va) = 4"
  by (simp add: va_path_def)

lemma take_va_path_ne [simp]:
  "take 2 (va_path w) \<noteq> take 3 (va_path va)" "take 3 (va_path va) \<noteq> take 2 (va_path w)" "take 2 (va_path w) \<noteq> va_path va"
  "va_path va \<noteq> take 2 (va_path w)" "take 3 (va_path w) \<noteq> va_path va" "va_path va \<noteq> take 3 (va_path w)"
  by (simp_all add: va_path_def)

lemma take_va_path_mono:
  "va_path w = va_path va \<Longrightarrow> take 3 (va_path w) = take 3 (va_path va)"
  "take 3 (va_path w) = take 3 (va_path va) \<Longrightarrow> take 2 (va_path w) = take 2 (va_path va)"
  by (simp_all add: va_path_def)

lemma lookup_map_4k:
  assumes "A (take 2 (va_path va)) = None" "A (take 3 (va_path va)) = None"
  shows "lookup (A(va_path va \<mapsto> e)) w = (if va_path w = va_path va then Some (4, e) else lookup A w)"
  unfolding lookup_def using assms take_va_path_mono[of w va] by (auto simp del: va_path_take split: option.splits)

lemma lookup_map_2m:
  assumes "A (take 2 (va_path va)) = None"
  shows "lookup (A(take 3 (va_path va) \<mapsto> e)) w = (if take 3 (va_path w) = take 3 (va_path va) then Some (3, e) else lookup A w)"
  unfolding lookup_def using assms take_va_path_mono[of w va] by (auto simp del: va_path_take split: option.splits)

lemma lookup_map_1g:
  "lookup (A(take 2 (va_path va) \<mapsto> e)) w = (if take 2 (va_path w) = take 2 (va_path va) then Some (2, e) else lookup A w)"
  unfolding lookup_def by (auto simp del: va_path_take split: option.splits)

context page_tables
begin

definition step_ok where
  "step_ok G A A' r s' \<longleftrightarrow>
     (\<exists>T'. case r of Inl e \<Rightarrow> inv G {} T' A s' \<and> e \<in> insert Runtime_error (exhausted s') | Inr u \<Rightarrow> inv G {} T' A' s')"

lemma map_step:
  assumes "map_result G T A \<pi> i e r s'" "A' = A(\<pi> @ [i] := entry_of e)"
  shows "step_ok G A A' r s'"
  using assms unfolding map_result_def step_ok_def by (cases r) auto

lemma find_step:
  assumes "inv G {} T A s" "bindE (find_entry E va) f s = (r, s')"
    and f: "\<And>q i l. q \<noteq> 0 \<Longrightarrow> i < 512 \<Longrightarrow> \<exists>b. f ((q, i), l) = (\<lambda>s. (Inr (b s), s))"
  shows "step_ok G A A r s'"
proof -
  obtain x s1 where x: "find_entry E va s = (x, s1)" by (rule prod.exhaust)
  note R = find_entry_result[OF assms(1) x, unfolded find_result_def]
  show ?thesis
  proof (cases x)
    case (Inl e)
    then show ?thesis using R x assms(2) by (auto simp: step_ok_def bindE_def)
  next
    case (Inr y)
    obtain q i l where y: "y = ((q, i), l)" by (metis prod.exhaust)
    then obtain d e where de: "lookup A va = Some (Suc d, e)" "T (take d (va_path va)) = Some q" "i = va_path va ! d" "inv G {} T A s1"
      using R Inr by auto
    have "q \<noteq> 0" by (rule table_nz[OF de(4,2)])
    moreover have "d \<in> {1, 2, 3}" using de(1) by (auto simp: lookup_def split: option.splits)
    then have "i < 512" using de(3) by auto
    ultimately obtain b where "f ((q, i), l) = (\<lambda>s. (Inr (b s), s))" using f by blast
    then show ?thesis using x Inr y assms(2) de(4) by (auto simp: step_ok_def bindE_def)
  qed
qed

lemma exec_step:
  assumes I: "inv G {} T A s" and c: "legal A c" and run: "exec E leaf c s = (r, s')"
    and leaf: "\<And>x. \<not> is_table E 1 (leaf PDPT x 0)" "\<And>x. \<not> is_table E 2 (leaf PD x 0)"
  shows "step_ok G A (abs_call leaf c A) r s'"
proof (cases c)
  case (Map_1g va x)
  obtain y s1 where y: "map_1g E va (leaf PDPT x) s = (y, s1)" by (rule prod.exhaust)
  have "step_ok G A (abs_call leaf c A) y s1"
    by (rule map_step[OF map_1g_result[OF I leaf(1) y]]) (simp add: Map_1g abs_call_def)
  then show ?thesis using run y unfolding Map_1g exec_def step_ok_def by (cases y) (auto simp: bindE_unit)
next
  case (Map_2m va x)
  obtain y s1 where y: "map_2m E va (leaf PD x) s = (y, s1)" by (rule prod.exhaust)
  have "A [pml4_index va, pdpt_index va] = None" using c by (simp add: Map_2m legal_def)
  then have "step_ok G A (abs_call leaf c A) y s1"
    by (intro map_step[OF map_2m_result[OF I _ leaf(2) y]]) (simp_all add: Map_2m abs_call_def)
  then show ?thesis using run y unfolding Map_2m exec_def step_ok_def by (cases y) (auto simp: bindE_unit)
next
  case (Map_4k va x)
  obtain y s1 where y: "map_4k E va (leaf PT x) s = (y, s1)" by (rule prod.exhaust)
  have "step_ok G A (abs_call leaf c A) y s1"
    by (rule map_step[OF map_4k_result[OF I _ _ y]]) (use c in \<open>simp_all add: Map_4k abs_call_def legal_def va_path_def\<close>)
  then show ?thesis using run y unfolding Map_4k exec_def step_ok_def by (cases y) (auto simp: bindE_unit)
next
  case (Unmap va)
  then have "unmap E va s = (r, s')" using run by (simp add: exec_def)
  from unmap_result[OF I this] show ?thesis by (cases r) (auto simp: step_ok_def Unmap abs_call_def)
next
  case (Release va)
  then have "release E va s = (r, s')" using run by (simp add: exec_def)
  from release_result[OF I this] show ?thesis by (cases r) (auto simp: step_ok_def Release abs_call_def)
next
  case (Entry va)
  then have "bindE (find_entry E va) (\<lambda>(r, l). returnE ()) s = (r, s')"
    using run by (simp add: exec_def entry_def bindE_def returnE_def split: prod.splits sum.splits)
  then show ?thesis using find_step[OF I, of va _ r s'] by (auto simp: Entry abs_call_def returnE_def)
next
  case (Virt_to_phys va)
  then have "bindE (find_entry E va) (\<lambda>(r, l). bindE (read_at (fst r) (snd r)) (\<lambda>e. returnE ())) s = (r, s')"
    using run by (auto simp: exec_def virt_to_phys_def bindE_def returnE_def split: prod.splits sum.splits)
  then show ?thesis using find_step[OF I, of va _ r s']
    by (auto simp: Virt_to_phys abs_call_def returnE_def read_at_def bindE_def getE_def num_entries_def)
next
  case (From va)
  then have "bindE (find_entry E va) (\<lambda>(r, l). returnE ()) s = (r, s')"
    using run by (simp add: exec_def map_from_def bindE_def returnE_def split: prod.splits sum.splits)
  then show ?thesis using find_step[OF I, of va _ r s'] by (auto simp: From abs_call_def returnE_def)
next
  case Root_phys
  obtain s1 q where "root_phys E s = (Inr (frame q), s1)" "inv G {} T A s1" by (rule root_phys_result[OF I])
  then show ?thesis using run by (auto simp: Root_phys exec_def abs_call_def step_ok_def bindE_def returnE_def)
qed

lemma run_inv:
  assumes "table_run E leaf s0 A s" "inv G {} T0 Map.empty s0"
    and leaf: "\<And>x. \<not> is_table E 1 (leaf PDPT x 0)" "\<And>x. \<not> is_table E 2 (leaf PD x 0)"
  shows "\<exists>T. inv G {} T A s"
  using assms(1)
proof induction
  case run_start
  show ?case using assms(2) by blast
next
  case (run_ok A s c u s')
  then obtain T where "inv G {} T A s" by blast
  from exec_step[OF this run_ok(2,3) leaf] show ?case by (auto simp: step_ok_def)
next
  case (run_fail A s c e s')
  then obtain T where "inv G {} T A s" by blast
  from exec_step[OF this run_fail(2,3) leaf] show ?case by (auto simp: step_ok_def)
qed

text \<open>What the lookups return, in terms of the abstract map.\<close>

theorem lookup_result:
  assumes I: "inv G {} T A s"
  shows "lookup A va = None \<Longrightarrow> \<exists>x s'. x \<in> insert Runtime_error (exhausted s') \<and> find_entry E va s = (Inl x, s') \<and> (\<exists>T'. inv G {} T' A s')"
    and "lookup A va = Some (d, e) \<Longrightarrow> \<exists>q s'. find_entry E va s = (Inr ((q, va_path va ! (d - 1)), level_at (d - 1)), s') \<and>
      q \<noteq> 0 \<and> va_path va ! (d - 1) < 512 \<and> mem (fst s') q (va_path va ! (d - 1)) = e \<and> inv G {} T A s'"
proof -
  obtain x s1 where x: "find_entry E va s = (x, s1)" by (rule prod.exhaust)
  note R = find_entry_result[OF I x, unfolded find_result_def]
  show "\<exists>x s'. x \<in> insert Runtime_error (exhausted s') \<and> find_entry E va s = (Inl x, s') \<and> (\<exists>T'. inv G {} T' A s')" if "lookup A va = None"
    using R x that by (cases x; cases s1) auto
  show "\<exists>q s'. find_entry E va s = (Inr ((q, va_path va ! (d - 1)), level_at (d - 1)), s') \<and> q \<noteq> 0 \<and>
      va_path va ! (d - 1) < 512 \<and> mem (fst s') q (va_path va ! (d - 1)) = e \<and> inv G {} T A s'"
    if L: "lookup A va = Some (d, e)"
  proof -
    obtain q i l where "x = Inr ((q, i), l)" using R L by (cases x) auto
    then have q: "inv G {} T A s1" "T (take (d - 1) (va_path va)) = Some q" "i = va_path va ! (d - 1)" "mem (fst s1) q i = e"
      "l = level_at (d - 1)" "x = Inr ((q, i), l)" using R L by auto
    have "d - 1 \<in> {1, 2, 3}" using L by (auto simp: lookup_def split: option.splits)
    then have "va_path va ! (d - 1) < 512" by auto
    then show ?thesis using q x table_nz[OF q(1,2)] by auto
  qed
qed

theorem virt_to_phys_result:
  assumes I: "inv G {} T A s"
  shows "lookup A va = None \<Longrightarrow> \<exists>x s'. virt_to_phys E va s = (Inl x, s') \<and> x \<in> insert Runtime_error (exhausted s')"
    and "lookup A va = Some (d, e) \<Longrightarrow> fst (virt_to_phys E va s) = Inr (tf_phys E (level_at (d - 1)) e)"
proof -
  show "\<exists>x s'. virt_to_phys E va s = (Inl x, s') \<and> x \<in> insert Runtime_error (exhausted s')" if "lookup A va = None"
    using lookup_result(1)[OF I that] by (fastforce simp: virt_to_phys_def bindE_def)
  show "fst (virt_to_phys E va s) = Inr (tf_phys E (level_at (d - 1)) e)" if "lookup A va = Some (d, e)"
    using lookup_result(2)[OF I that] by (auto simp: virt_to_phys_def bindE_def read_at_def num_entries_def getE_def returnE_def)
qed

text \<open>Unmapping an address unmaps the whole page that maps it, and nothing else.\<close>

lemma lookup_unmapped_at:
  assumes I: "inv G D T A s"
  shows "lookup (unmapped_at A va) w =
    (case lookup A va of None \<Rightarrow> lookup A w | Some (d, e) \<Rightarrow> if take d (va_path w) = take d (va_path va) then None else lookup A w)"
proof (cases "lookup A va")
  case None
  then show ?thesis by (simp add: unmapped_at_def)
next
  case (Some y)
  obtain d e where y: "lookup A va = Some (d, e)" using Some by (metis prod.exhaust)
  have N: "T (take d (va_path va)) = None" by (rule lookup_no_table[OF I y])
  have below: "A (take (Suc d) (va_path w)) = None" "T (take (Suc d) (va_path w)) = None"
    if "take d (va_path w) = take d (va_path va)" "d < 4"
  proof -
    have "take (Suc d) (va_path w) = take d (va_path va) @ [va_path w ! d]"
      using that take_Suc_conv_app_nth[of d "va_path w"] by simp
    then show "A (take (Suc d) (va_path w)) = None" "T (take (Suc d) (va_path w)) = None"
      using no_leaf_below[OF I N] no_table_below[OF I N] by simp_all
  qed
  consider "d = 2" | "d = 3" "A (take 2 (va_path va)) = None" | "d = 4" "A (take 2 (va_path va)) = None" "A (take 3 (va_path va)) = None"
    using y by (auto simp: lookup_def simp del: va_path_take split: option.splits)
  then show ?thesis
  proof cases
    case 1
    have "A (take 3 (va_path w)) = None \<and> A (va_path w) = None" if c: "take 2 (va_path w) = take 2 (va_path va)"
    proof -
      have b: "A (take 3 (va_path w)) = None" "T (take 3 (va_path w)) = None" using below 1 c by (simp_all add: numeral_eq_Suc)
      have "va_path w = take 3 (va_path w) @ [pt_index w]" by (simp add: va_path_def)
      then show ?thesis using b no_leaf_below[OF I b(2), of "pt_index w"] by metis
    qed
    then show ?thesis unfolding y unmapped_at_def 1
      by (auto simp: lookup_def simp del: va_path_take split: option.splits)
  next
    case 2
    have "A (va_path w) = None" if "take 3 (va_path w) = take 3 (va_path va)" using below(1) 2(1) that by (simp add: va_path_def)
    then show ?thesis unfolding y unmapped_at_def 2(1) using 2(2) take_va_path_mono[of w va]
      by (auto simp: lookup_def simp del: va_path_take split: option.splits)
  next
    case 3
    then show ?thesis unfolding y unmapped_at_def 3(1) using take_va_path_mono[of w va]
      by (auto simp: lookup_def simp del: va_path_take(1-3) split: option.splits)
  qed
qed

text \<open>
  Mapping a small page inside a large one is not refused: the frame of the large page is taken for a
  table, and the new entry written to it.
\<close>

lemma map_4k_in_2m:
  assumes I: "inv G {} T A s" and e: "A (take 3 (va_path va)) = Some e"
    and c: "pr_phys (m_tab (fst s) PT) \<noteq> tf_phys E PD e" and q: "op_p2v E (tf_phys E PD e) (snd s) = (Inr q, snd s)" "q \<noteq> 0"
    and z: "mem (fst s) q (pt_index va) = 0"
  obtains s' where "map_4k E va f s = (Inr (q, pt_index va), s')" "mem (fst s') q (pt_index va) = f 0"
proof -
  let ?a = "pml4_index va" and ?b = "pdpt_index va" and ?c = "pd_index va"
  obtain q2 where q2: "T [?a, ?b] = Some q2" "mem (fst s) q2 ?c = e" "e \<noteq> 0"
    using leaf_entry[OF I, of "[?a, ?b]" ?c e] e by auto
  obtain q1 where q1: "T [?a] = Some q1" using table_parent[OF I, of "[?a]" ?b q2] q2(1) by auto
  have root: "T [] = Some (pr_virt (m_tab (fst s) PML4))" by (rule tables_root[OF inv_ok[OF I]])
  obtain c1 where c1: "map_table E PML4 PDPT ?a s = (Inr (), ((fst s)\<lparr>m_tab := (m_tab (fst s))(PDPT := c1)\<rparr>, snd s))"
    "pr_virt c1 = q1" "inv G {} T A ((fst s)\<lparr>m_tab := (m_tab (fst s))(PDPT := c1)\<rparr>, snd s)"
    by (rule map_table_link[OF I root, of PDPT ?a q1]) (use q1 in simp_all)
  let ?s1 = "((fst s)\<lparr>m_tab := (m_tab (fst s))(PDPT := c1)\<rparr>, snd s)"
  obtain c2 where c2: "map_table E PDPT PD ?b ?s1 = (Inr (), ((fst ?s1)\<lparr>m_tab := (m_tab (fst ?s1))(PD := c2)\<rparr>, snd ?s1))" "pr_virt c2 = q2"
    "inv G {} T A ((fst ?s1)\<lparr>m_tab := (m_tab (fst ?s1))(PD := c2)\<rparr>, snd ?s1)"
    by (rule map_table_link[OF c1(3), of "[?a]" PDPT PD ?b q2]) (use q1 q2 c1(2) in simp_all)
  let ?s2 = "((fst ?s1)\<lparr>m_tab := (m_tab (fst ?s1))(PD := c2)\<rparr>, snd ?s1)"
  let ?s3 = "((fst ?s2)\<lparr>m_tab := (m_tab (fst ?s2))(PT := \<lparr>pr_virt = q, pr_phys = tf_phys E PD e\<rparr>)\<rparr>, snd s)"
  have nz: "q2 \<noteq> 0" by (rule table_nz[OF I q2(1)])
  have c3: "map_table E PD PT ?c ?s2 = (Inr (), ?s3)"
    using c2(2) q2 nz c q by (simp add: map_table_def Let_def bindE_phys_to_pair)
  have leaf: "map_leaf PT (pt_index va) f ?s3 = (Inr (q, pt_index va), (write_mem q (pt_index va) (f 0) (fst ?s3), snd ?s3))"
    using q(2) z by (simp add: map_leaf_def)
  have "map_4k E va f s = (Inr (q, pt_index va), (write_mem q (pt_index va) (f 0) (fst ?s3), snd ?s3))"
    unfolding map_4k_def map_pdpt_def map_pd_def map_pt_def
    by (subst seqE_Inr, rule c1(1), subst seqE_Inr, rule c2(1), subst seqE_Inr, rule c3, rule leaf)
  then show thesis by (rule that) simp
qed

end

end
