(* ===== verification/Page_Table_Helpers.thy ===== *)
theory Page_Table_Helpers
  imports Page_Table_Run
begin

text \<open>
  Identity maps, \<open>src/extended_apis/bfvmm/include/hve/arch/intel_x64/ept/helpers.h\<close> and
  \<open>src/bareflank/bfvmm/include/memory_manager/arch/x64/cr3/helpers.h\<close>: mapping, unmapping and
  releasing a range page by page, and changing the page size of a range.  The two headers differ in
  the entry format only; \<open>mk l pa\<close> builds the entry that maps the frame \<open>pa\<close> at
  level \<open>l\<close> with the attributes given to the helper.
\<close>

section \<open>The loop over a range\<close>

text \<open>
  \<open>for (auto gpa = saddr; gpa < eaddr; gpa += size)\<close>.  A step that wraps around would never
  end; it is the error \<open>Out_of_fuel\<close> here, and \<open>page_loop_forE\<close> shows that it
  does not happen in an aligned range.
\<close>

function page_loop :: "u64 \<Rightarrow> u64 \<Rightarrow> u64 \<Rightarrow> (u64 \<Rightarrow> ('s, unit) op) \<Rightarrow> ('s, unit) op" where
  "page_loop gpa eaddr sz body =
     (if gpa < eaddr
      then seqE (body gpa) (if gpa < gpa + sz then page_loop (gpa + sz) eaddr sz body else throwE Out_of_fuel)
      else returnE ())"
  by pat_completeness auto
termination
proof (relation "measure (\<lambda>(gpa, eaddr, sz, body). 2 ^ 64 - unat gpa)")
  fix gpa eaddr sz :: u64 and body :: "u64 \<Rightarrow> ('s, unit) op" assume "gpa < gpa + sz"
  then show "((gpa + sz, eaddr, sz, body), gpa, eaddr, sz, body) \<in> measure (\<lambda>(gpa, eaddr, sz, body). 2 ^ 64 - unat gpa)"
    using unat_u64_less[of gpa] unat_u64_less[of "gpa + sz"] by (simp add: word_less_nat_alt diff_less_mono2)
qed simp

declare page_loop.simps [simp del]

section \<open>Helpers\<close>

definition ignoreE :: "('s, 'a) op \<Rightarrow> ('s, unit) op" where
  "ignoreE m = bindE m (\<lambda>r. returnE ())"

definition identity_map_1g :: "('p, 'z) paging_scheme \<Rightarrow> (level \<Rightarrow> u64 \<Rightarrow> u64 \<Rightarrow> u64) \<Rightarrow> u64 \<Rightarrow> u64 \<Rightarrow> ('p tables, unit) op" where
  "identity_map_1g E mk saddr eaddr =
     seqE (expectsE (lower_from saddr pdpt_from = 0))
    (seqE (expectsE (lower_from eaddr pdpt_from = 0))
    (page_loop saddr eaddr pdpt_page_size (\<lambda>gpa. ignoreE (map_1g E gpa (mk PDPT gpa)))))"

definition identity_map_2m :: "('p, 'z) paging_scheme \<Rightarrow> (level \<Rightarrow> u64 \<Rightarrow> u64 \<Rightarrow> u64) \<Rightarrow> u64 \<Rightarrow> u64 \<Rightarrow> ('p tables, unit) op" where
  "identity_map_2m E mk saddr eaddr =
     seqE (expectsE (lower_from saddr pd_from = 0))
    (seqE (expectsE (lower_from eaddr pd_from = 0))
    (page_loop saddr eaddr pd_page_size (\<lambda>gpa. ignoreE (map_2m E gpa (mk PD gpa)))))"

definition identity_map_4k :: "('p, 'z) paging_scheme \<Rightarrow> (level \<Rightarrow> u64 \<Rightarrow> u64 \<Rightarrow> u64) \<Rightarrow> u64 \<Rightarrow> u64 \<Rightarrow> ('p tables, unit) op" where
  "identity_map_4k E mk saddr eaddr =
     seqE (expectsE (lower_from saddr pt_from = 0))
    (seqE (expectsE (lower_from eaddr pt_from = 0))
    (page_loop saddr eaddr pt_page_size (\<lambda>gpa. ignoreE (map_4k E gpa (mk PT gpa)))))"

definition identity_unmap_1g :: "('p, 'z) paging_scheme \<Rightarrow> u64 \<Rightarrow> u64 \<Rightarrow> ('p tables, unit) op" where
  "identity_unmap_1g E saddr eaddr =
     seqE (expectsE (lower_from saddr pdpt_from = 0))
    (seqE (expectsE (lower_from eaddr pdpt_from = 0)) (page_loop saddr eaddr pdpt_page_size (unmap E)))"

definition identity_unmap_2m :: "('p, 'z) paging_scheme \<Rightarrow> u64 \<Rightarrow> u64 \<Rightarrow> ('p tables, unit) op" where
  "identity_unmap_2m E saddr eaddr =
     seqE (expectsE (lower_from saddr pd_from = 0))
    (seqE (expectsE (lower_from eaddr pd_from = 0)) (page_loop saddr eaddr pd_page_size (unmap E)))"

definition identity_unmap_4k :: "('p, 'z) paging_scheme \<Rightarrow> u64 \<Rightarrow> u64 \<Rightarrow> ('p tables, unit) op" where
  "identity_unmap_4k E saddr eaddr =
     seqE (expectsE (lower_from saddr pt_from = 0))
    (seqE (expectsE (lower_from eaddr pt_from = 0)) (page_loop saddr eaddr pt_page_size (unmap E)))"

definition identity_release_1g :: "('p, 'z) paging_scheme \<Rightarrow> u64 \<Rightarrow> u64 \<Rightarrow> ('p tables, unit) op" where
  "identity_release_1g E saddr eaddr =
     seqE (expectsE (lower_from saddr pdpt_from = 0))
    (seqE (expectsE (lower_from eaddr pdpt_from = 0)) (page_loop saddr eaddr pdpt_page_size (release E)))"

definition identity_release_2m :: "('p, 'z) paging_scheme \<Rightarrow> u64 \<Rightarrow> u64 \<Rightarrow> ('p tables, unit) op" where
  "identity_release_2m E saddr eaddr =
     seqE (expectsE (lower_from saddr pd_from = 0))
    (seqE (expectsE (lower_from eaddr pd_from = 0)) (page_loop saddr eaddr pd_page_size (release E)))"

definition identity_release_4k :: "('p, 'z) paging_scheme \<Rightarrow> u64 \<Rightarrow> u64 \<Rightarrow> ('p tables, unit) op" where
  "identity_release_4k E saddr eaddr =
     seqE (expectsE (lower_from saddr pt_from = 0))
    (seqE (expectsE (lower_from eaddr pt_from = 0)) (page_loop saddr eaddr pt_page_size (release E)))"

text \<open>Changes of the page size: the address must be mapped with the old size.\<close>

definition identity_map_convert_1g_to_2m ::
  "('p, 'z) paging_scheme \<Rightarrow> (level \<Rightarrow> u64 \<Rightarrow> u64 \<Rightarrow> u64) \<Rightarrow> u64 \<Rightarrow> ('p tables, unit) op" where
  "identity_map_convert_1g_to_2m E mk addr =
     seqE (expectsE (lower_from addr pdpt_from = 0))
    (bindE (is_1g E addr) (\<lambda>b. seqE (expectsE b)
    (seqE (unmap E addr) (identity_map_2m E mk addr (addr + pdpt_page_size)))))"

definition identity_map_convert_1g_to_4k ::
  "('p, 'z) paging_scheme \<Rightarrow> (level \<Rightarrow> u64 \<Rightarrow> u64 \<Rightarrow> u64) \<Rightarrow> u64 \<Rightarrow> ('p tables, unit) op" where
  "identity_map_convert_1g_to_4k E mk addr =
     seqE (expectsE (lower_from addr pdpt_from = 0))
    (bindE (is_1g E addr) (\<lambda>b. seqE (expectsE b)
    (seqE (unmap E addr) (identity_map_4k E mk addr (addr + pdpt_page_size)))))"

definition identity_map_convert_2m_to_1g ::
  "('p, 'z) paging_scheme \<Rightarrow> (level \<Rightarrow> u64 \<Rightarrow> u64 \<Rightarrow> u64) \<Rightarrow> u64 \<Rightarrow> ('p tables, unit) op" where
  "identity_map_convert_2m_to_1g E mk addr =
     seqE (expectsE (lower_from addr pdpt_from = 0))
    (bindE (is_2m E addr) (\<lambda>b. seqE (expectsE b)
    (seqE (identity_release_2m E addr (addr + pdpt_page_size))
          (ignoreE (map_1g E addr (mk PDPT addr))))))"

definition identity_map_convert_4k_to_1g ::
  "('p, 'z) paging_scheme \<Rightarrow> (level \<Rightarrow> u64 \<Rightarrow> u64 \<Rightarrow> u64) \<Rightarrow> u64 \<Rightarrow> ('p tables, unit) op" where
  "identity_map_convert_4k_to_1g E mk addr =
     seqE (expectsE (lower_from addr pdpt_from = 0))
    (bindE (is_4k E addr) (\<lambda>b. seqE (expectsE b)
    (seqE (identity_release_4k E addr (addr + pdpt_page_size))
          (ignoreE (map_1g E addr (mk PDPT addr))))))"

definition identity_map_convert_2m_to_4k ::
  "('p, 'z) paging_scheme \<Rightarrow> (level \<Rightarrow> u64 \<Rightarrow> u64 \<Rightarrow> u64) \<Rightarrow> u64 \<Rightarrow> ('p tables, unit) op" where
  "identity_map_convert_2m_to_4k E mk addr =
     seqE (expectsE (lower_from addr pd_from = 0))
    (bindE (is_2m E addr) (\<lambda>b. seqE (expectsE b)
    (seqE (unmap E addr) (identity_map_4k E mk addr (addr + pd_page_size)))))"

definition identity_map_convert_4k_to_2m ::
  "('p, 'z) paging_scheme \<Rightarrow> (level \<Rightarrow> u64 \<Rightarrow> u64 \<Rightarrow> u64) \<Rightarrow> u64 \<Rightarrow> ('p tables, unit) op" where
  "identity_map_convert_4k_to_2m E mk addr =
     seqE (expectsE (lower_from addr pd_from = 0))
    (bindE (is_4k E addr) (\<lambda>b. seqE (expectsE b)
    (seqE (identity_release_4k E addr (addr + pd_page_size))
          (ignoreE (map_2m E addr (mk PD addr))))))"

section \<open>An aligned range\<close>

definition gpas :: "u64 \<Rightarrow> u64 \<Rightarrow> u64 \<Rightarrow> u64 list" where
  "gpas saddr eaddr sz = map (\<lambda>i. saddr + of_nat i * sz) [0 ..< (unat eaddr - unat saddr) div unat sz]"

lemma lower_from_dvd:
  assumes "f < 64"
  shows "lower_from v f = 0 \<longleftrightarrow> 2 ^ f dvd unat v"
proof -
  have "unat (lower_from v f) = unat v mod 2 ^ f"
    by (simp add: lower_from_def push_bit_eq_mult flip: mask_eq_exp_minus_1 take_bit_eq_mask take_bit_eq_mod unsigned_take_bit_eq)
  then show ?thesis by (metis dvd_eq_mod_eq_0 unat_eq_zero)
qed

lemma unat_step:
  assumes "unat a + i * unat b < 2 ^ 64"
  shows "unat (a + of_nat i * b :: u64) = unat a + i * unat b"
proof -
  have "a + of_nat i * b = of_nat (unat a + i * unat b)" by simp
  then show ?thesis using unat_of_nat_u64[OF assms] by simp
qed

lemma page_loop_forE:
  assumes "0 < unat sz" "unat sz dvd unat saddr" "unat sz dvd unat eaddr"
  shows "page_loop saddr eaddr sz body = forE (gpas saddr eaddr sz) body"
  using assms
proof (induction "(unat eaddr - unat saddr) div unat sz" arbitrary: saddr)
  case 0
  then have "\<not> saddr < eaddr"
    by (metis div_greater_zero_iff dvd_diff_nat dvd_imp_le not_less_zero word_less_nat_alt zero_less_diff)
  then show ?case using 0 by (simp add: page_loop.simps gpas_def)
next
  case (Suc n)
  then have lt: "unat saddr < unat eaddr" by (metis diff_is_0_eq div_0 nat.distinct(1) not_less)
  have "unat sz dvd unat eaddr - unat saddr" using Suc.prems by (intro dvd_diff_nat)
  then have le: "unat saddr + unat sz \<le> unat eaddr" using lt dvd_imp_le[of "unat sz" "unat eaddr - unat saddr"] by simp
  then have nw: "unat (saddr + sz) = unat saddr + unat sz" using unat_u64_less[of eaddr] unat_step[of saddr 1 sz] by simp
  have n: "n = (unat eaddr - unat (saddr + sz)) div unat sz"
    using Suc.hyps(2) Suc.prems(1) nw le by (simp add: div_if[of "unat eaddr - unat saddr"] diff_diff_left split: if_splits)
  have IH: "page_loop (saddr + sz) eaddr sz body = forE (gpas (saddr + sz) eaddr sz) body"
    by (rule Suc.hyps(1)[OF n]) (use Suc.prems nw in simp_all)
  have "gpas saddr eaddr sz = saddr # gpas (saddr + sz) eaddr sz"
    unfolding gpas_def Suc.hyps(2)[symmetric] n[symmetric] by (simp add: upt_conv_Cons map_Suc_upt[symmetric] algebra_simps del: upt_Suc)
  then show ?case
    using lt nw Suc.prems(1) IH by (subst page_loop.simps) (simp add: word_less_nat_alt)
qed

lemma gpas_mem:
  assumes "0 < unat sz" "unat sz dvd unat saddr" "unat sz dvd unat eaddr" "unat sz dvd unat g"
  shows "g \<in> set (gpas saddr eaddr sz) \<longleftrightarrow> saddr \<le> g \<and> g < eaddr"
proof
  assume "g \<in> set (gpas saddr eaddr sz)"
  then obtain i where i: "i < (unat eaddr - unat saddr) div unat sz" "g = saddr + of_nat i * sz" by (auto simp: gpas_def)
  then have "(i + 1) * unat sz \<le> unat eaddr - unat saddr"
    by (metis Suc_eq_plus1 Suc_leI assms(1) div_times_less_eq_dividend le_trans mult_le_mono1)
  then have le: "unat saddr + i * unat sz + unat sz \<le> unat eaddr" using assms(1) by (cases "unat saddr \<le> unat eaddr") auto
  then have "unat g = unat saddr + i * unat sz"
    using i(2) unat_u64_less[of eaddr] assms(1) unat_step[of saddr i sz] by simp
  then show "saddr \<le> g \<and> g < eaddr" using le assms(1) by (simp add: word_le_nat_alt word_less_nat_alt)
next
  assume g: "saddr \<le> g \<and> g < eaddr"
  then have le: "unat saddr \<le> unat g" "unat g < unat eaddr" by (simp_all add: word_le_nat_alt word_less_nat_alt)
  obtain i where i: "unat g = unat saddr + i * unat sz"
    using assms(2,4) le(1) by (metis dvd_diff_nat dvd_def le_add_diff_inverse mult.commute)
  have "unat sz dvd unat eaddr - unat g" using assms(3,4) by (intro dvd_diff_nat)
  then have "unat g + unat sz \<le> unat eaddr" using le(2) dvd_imp_le[of "unat sz" "unat eaddr - unat g"] by simp
  then have "Suc i * unat sz \<le> unat eaddr - unat saddr" using i by simp
  then have "i < (unat eaddr - unat saddr) div unat sz" using assms(1) by (metis Suc_le_lessD less_eq_div_iff_mult_less_eq)
  moreover have "unat g = unat (saddr + of_nat i * sz)" using unat_step[of saddr i sz] i unat_u64_less[of g] by simp
  then have "g = saddr + of_nat i * sz" by (simp only: word_unat_eq_iff)
  ultimately show "g \<in> set (gpas saddr eaddr sz)" by (auto simp: gpas_def)
qed

lemma gpas_unat:
  fixes saddr eaddr sz :: u64
  assumes "0 < unat sz" "i < (unat eaddr - unat saddr) div unat sz"
  shows "unat (saddr + of_nat i * sz) = unat saddr + i * unat sz" "unat saddr + i * unat sz + unat sz \<le> unat eaddr"
proof -
  have "Suc i * unat sz \<le> (unat eaddr - unat saddr) div unat sz * unat sz" using assms(2) by (intro mult_le_mono1) simp
  also have "\<dots> \<le> unat eaddr - unat saddr" by simp
  finally have "unat sz + i * unat sz \<le> unat eaddr - unat saddr" by (simp only: mult_Suc)
  then show le: "unat saddr + i * unat sz + unat sz \<le> unat eaddr" using assms(1) by linarith
  show "unat (saddr + of_nat i * sz) = unat saddr + i * unat sz"
    by (rule unat_step) (use le unat_u64_less[of eaddr] in linarith)
qed

lemma gpas_nth:
  assumes "g \<in> set (gpas saddr eaddr sz)"
  obtains i where "i < (unat eaddr - unat saddr) div unat sz" "g = saddr + of_nat i * sz"
  using assms unfolding gpas_def by auto

lemma gpas_aligned:
  assumes "0 < unat sz" "unat sz dvd unat saddr" "g \<in> set (gpas saddr eaddr sz)"
  shows "unat sz dvd unat g"
proof -
  from assms(3) obtain i where i: "i < (unat eaddr - unat saddr) div unat sz" "g = saddr + of_nat i * sz" by (rule gpas_nth)
  then have "unat g = unat saddr + i * unat sz" using gpas_unat(1)[OF assms(1) i(1)] by (simp only:)
  then show ?thesis using assms(2) by (simp only: dvd_add dvd_triv_right)
qed

lemma gpas_distinct:
  assumes "0 < unat sz"
  shows "distinct (gpas saddr eaddr sz)"
  unfolding gpas_def distinct_map
proof (intro conjI inj_onI)
  fix i j
  assume ij: "i \<in> set [0..<(unat eaddr - unat saddr) div unat sz]" "j \<in> set [0..<(unat eaddr - unat saddr) div unat sz]"
    and e: "saddr + of_nat i * sz = saddr + of_nat j * sz"
  have "unat saddr + i * unat sz = unat saddr + j * unat sz"
    using arg_cong[OF e, of unat] gpas_unat(1)[OF assms, of i eaddr saddr] gpas_unat(1)[OF assms, of j eaddr saddr] ij
    unfolding set_upt atLeastLessThan_iff by linarith
  then show "i = j" using assms by simp
qed simp

end
