(* ===== verification/Page_Table_Convert.thy ===== *)
theory Page_Table_Convert
  imports Page_Table_Helpers
begin

text \<open>
  What the helpers of \<open>Page_Table_Helpers\<close> do to the map: loops of \<open>map_4k\<close>,
  \<open>map_2m\<close> and \<open>release\<close> over a list of addresses, and the two conversions of the page size
  that are built from them.
\<close>

section \<open>Indices as arithmetic\<close>

lemma table_index_div:
  assumes "f \<le> 55"
  shows "table_index f v = unat v div 2 ^ f mod 512"
proof -
  have "drop_bit f (v AND push_bit f 0x1FF) = take_bit 9 (drop_bit f v)"
    by (rule u64_eqI, subst bit_table_index[OF assms]) (auto simp: bit_take_bit_iff bit_drop_bit_eq)
  then have "table_index f v = take_bit 9 (drop_bit f (unat v))"
    by (simp only: table_index_def unsigned_take_bit_eq unat_drop_bit_eq)
  then show ?thesis by (simp add: take_bit_eq_mod drop_bit_eq_div)
qed

lemma index_div:
  "pml4_index v = unat v div 2 ^ 39 mod 512" "pdpt_index v = unat v div 2 ^ 30 mod 512"
  "pd_index v = unat v div 2 ^ 21 mod 512" "pt_index v = unat v div 2 ^ 12 mod 512"
  by (simp_all only: pml4_index_def pdpt_index_def pd_index_def pt_index_def pml4_from_def pdpt_from_def pd_from_def pt_from_def)
    (subst table_index_div; simp)+

lemma va_path_offset:
  assumes "2 ^ 21 dvd unat addr" "i < 512"
  shows "va_path (addr + of_nat i * 4096) = take 3 (va_path addr) @ [i]"
proof -
  obtain k where k: "unat addr = k * 2 ^ 21" using assms(1) by (metis dvd_def mult.commute)
  have "k < 2 ^ 43" using unat_u64_less[of addr] k by simp
  then have "unat addr + i * 4096 < 2 ^ 64" using k assms(2) by simp
  then have u: "unat (addr + of_nat i * 4096) = k * 2 ^ 21 + i * 4096" using unat_step[of addr i 4096] k by simp
  have 21: "unat (addr + of_nat i * 4096) div 2 ^ 21 = unat addr div 2 ^ 21" unfolding u k using assms(2) by simp
  have d: "x div 2 ^ 39 = x div 2 ^ 21 div 2 ^ 18" "x div 2 ^ 30 = x div 2 ^ 21 div 2 ^ 9" for x :: nat
    by (simp_all flip: div_mult2_eq)
  have "pt_index (addr + of_nat i * 4096) = i"
  proof -
    have "k * 2 ^ 21 + i * 4096 = (k * 512 + i) * 2 ^ 12" by simp
    then have "(k * 2 ^ 21 + i * 4096) div 2 ^ 12 = k * 512 + i" by simp
    then show ?thesis using assms(2) unfolding index_div u by simp
  qed
  then show ?thesis by (simp add: va_path_def index_div d 21 del: power_numeral)
qed

text \<open>The addresses of the small pages of a range of two megabytes.\<close>

definition pd_pages :: "u64 \<Rightarrow> u64 list" where
  "pd_pages addr = map (\<lambda>i. addr + of_nat i * 4096) [0 ..< 512]"

lemma set_pd_pages: "set (pd_pages addr) = (\<lambda>i. addr + of_nat i * 4096) ` {i. i < 512}"
  unfolding pd_pages_def set_map set_upt by auto

lemma pd_pages_ne: "pd_pages addr \<noteq> []"
  using set_pd_pages[of addr] by force

lemma va_path_pd_pages:
  assumes "2 ^ 21 dvd unat addr"
  shows "va_path ` set (pd_pages addr) = {take 3 (va_path addr) @ [i] | i. i < 512}"
proof -
  have "va_path ` set (pd_pages addr) = (\<lambda>i. va_path (addr + of_nat i * 4096)) ` {i. i < 512}"
    unfolding set_pd_pages image_image ..
  also have "\<dots> = (\<lambda>i. take 3 (va_path addr) @ [i]) ` {i. i < 512}"
    by (rule image_cong) (use va_path_offset[OF assms] in auto)
  finally show ?thesis by auto
qed

lemma pd_pages_path:
  assumes "2 ^ 21 dvd unat addr" "g \<in> set (pd_pages addr)"
  shows "take 3 (va_path g) = take 3 (va_path addr)" "take 2 (va_path g) = take 2 (va_path addr)"
proof -
  obtain i where i: "va_path g = take 3 (va_path addr) @ [i]" using va_path_pd_pages[OF assms(1)] assms(2) by blast
  show "take 3 (va_path g) = take 3 (va_path addr)" by (simp add: i del: va_path_take)
  then show "take 2 (va_path g) = take 2 (va_path addr)" by (rule take_va_path_mono(2))
qed

lemma gpas_2m:
  assumes "2 ^ 21 dvd unat addr" "addr < 0x1000000000000"
  shows "gpas addr (addr + pd_page_size) pt_page_size = pd_pages addr"
    "page_loop addr (addr + pd_page_size) pt_page_size body = forE (pd_pages addr) body"
proof -
  have "unat addr < 2 ^ 48" using assms(2) by (simp add: word_less_nat_alt)
  then have u: "unat (addr + 0x200000) = unat addr + 0x200000" using unat_step[of addr 1 "0x200000"] by simp
  then show g: "gpas addr (addr + pd_page_size) pt_page_size = pd_pages addr"
    by (simp add: gpas_def pd_pages_def pd_page_size_def pt_page_size_def)
  have "4096 dvd unat addr" using assms(1) dvd_trans[of 4096 "2 ^ 21" "unat addr"] by simp
  then have "page_loop addr (addr + pd_page_size) pt_page_size body = forE (gpas addr (addr + pd_page_size) pt_page_size) body"
    using u by (intro page_loop_forE) (simp_all add: pd_page_size_def pt_page_size_def)
  then show "page_loop addr (addr + pd_page_size) pt_page_size body = forE (pd_pages addr) body"
    by (simp only: g)
qed

lemma aligned_2m:
  assumes "lower_from addr pd_from = 0" "addr < 0x1000000000000"
  shows "2 ^ 21 dvd unat addr" "lower_from addr pt_from = 0" "lower_from (addr + pd_page_size) pt_from = 0"
proof -
  show al: "2 ^ 21 dvd unat addr" using assms(1) lower_from_dvd[of pd_from addr] by (simp add: pd_from_def)
  have d: "2 ^ 12 dvd unat addr" using al by (rule dvd_trans[rotated]) (simp add: le_imp_power_dvd)
  then show "lower_from addr pt_from = 0" using lower_from_dvd[of pt_from addr] by (simp add: pt_from_def)
  have "unat addr < 2 ^ 48" using assms(2) by (simp add: word_less_nat_alt)
  then have "unat (addr + 0x200000) = unat addr + 0x200000" using unat_step[of addr 1 "0x200000"] by simp
  then have "2 ^ 12 dvd unat (addr + pd_page_size)" using d by (simp add: pd_page_size_def)
  then show "lower_from (addr + pd_page_size) pt_from = 0" using lower_from_dvd[of pt_from "addr + pd_page_size"] by (simp add: pt_from_def)
qed

lemma lookup_cong:
  assumes "A' (take 2 (va_path w)) = A (take 2 (va_path w))" "A' (take 3 (va_path w)) = A (take 3 (va_path w))" "A' (va_path w) = A (va_path w)"
  shows "lookup A' w = lookup A w"
  unfolding lookup_def assms ..

context page_tables
begin

section \<open>Loops\<close>

lemma page_size_result:
  assumes I: "inv G {} T A s"
  shows "lookup A va = None \<Longrightarrow> \<exists>x s'. map_from E va s = (Inl x, s') \<and> x \<in> insert Runtime_error (exhausted s') \<and> (\<exists>T'. inv G {} T' A s')"
    and "lookup A va = Some (d, e) \<Longrightarrow> \<exists>s'. map_from E va s = (Inr (from_bits (level_at (d - 1))), s') \<and> inv G {} T A s'"
proof -
  show "\<exists>x s'. map_from E va s = (Inl x, s') \<and> x \<in> insert Runtime_error (exhausted s') \<and> (\<exists>T'. inv G {} T' A s')" if "lookup A va = None"
    using lookup_result(1)[OF I that] by (fastforce simp: map_from_def bindE_def)
  show "\<exists>s'. map_from E va s = (Inr (from_bits (level_at (d - 1))), s') \<and> inv G {} T A s'" if "lookup A va = Some (d, e)"
    using lookup_result(2)[OF I that] by (auto simp: map_from_def bindE_def returnE_def)
qed

text \<open>Releasing pages that no larger page covers.\<close>

lemma release_loop:
  assumes I: "inv G {} T A s" and gs: "gs \<noteq> []" "\<And>g. g \<in> set gs \<Longrightarrow> A (take 2 (va_path g)) = None \<and> A (take 3 (va_path g)) = None"
    and run: "forE gs (release E) s = (r, s')"
  shows "case r of Inl x \<Rightarrow> x \<in> exhausted s' \<and> (\<exists>T' A'. inv G {} T' A' s')
    | Inr u \<Rightarrow> \<exists>T'. inv G {} T' (A |` (- (va_path ` set gs))) s' \<and> pruned T' (fst s') (last gs)"
  using assms
proof (induction gs arbitrary: T A s)
  case (Cons g gs)
  obtain x s1 where x: "release E g s = (x, s1)" by (rule prod.exhaust)
  note R = release_result[OF Cons.prems(1) x]
  show ?case
  proof (cases x)
    case (Inl e)
    then have "r = Inl e" "s' = s1" using x Cons.prems(4) by (auto simp: seqE_def bindE_def)
    then show ?thesis using R Inl by (simp, blast)
  next
    case (Inr u)
    then obtain T1 where T1: "inv G {} T1 (unmapped_at A g) s1" "pruned T1 (fst s1) g" using R by auto
    have u: "unmapped_at A g = A(va_path g := None)" using unmapped_small Cons.prems(3) by simp
    have e: "A |` (- (va_path ` set (g # gs))) = A(va_path g := None) |` (- (va_path ` set gs))"
      by (auto simp: restrict_map_def fun_eq_iff)
    have run: "forE gs (release E) s1 = (r, s')" using x Inr Cons.prems(4) by (simp add: seqE_def bindE_def)
    show ?thesis
    proof (cases "gs = []")
      case True
      then have "r = Inr ()" "s' = s1" using run by (auto simp: returnE_def)
      moreover have "A |` (- (va_path ` set (g # gs))) = A(va_path g := None)" unfolding e True by (auto simp: restrict_map_def fun_eq_iff)
      ultimately show ?thesis using T1 True u by (simp, blast)
    next
      case False
      have "(A(va_path g := None)) (take 2 (va_path h)) = None \<and> (A(va_path g := None)) (take 3 (va_path h)) = None" if "h \<in> set gs" for h
        using Cons.prems(3) that by auto
      from Cons.IH[OF T1(1)[unfolded u] False this run] show ?thesis unfolding e using False by (cases r) simp_all
    qed
  qed
qed simp

lemma release_2m:
  assumes I: "inv G {} T A s" and a: "2 ^ 21 dvd unat addr" "A (take 2 (va_path addr)) = None" "A (take 3 (va_path addr)) = None"
    and run: "forE (pd_pages addr) (release E) s = (r, s')"
  shows "case r of Inl x \<Rightarrow> x \<in> exhausted s' \<and> (\<exists>T' A'. inv G {} T' A' s')
    | Inr u \<Rightarrow> \<exists>T' A'. inv G {} T' A' s' \<and> T' (take 3 (va_path addr)) = None \<and> A' (take 2 (va_path addr)) = None \<and>
        A' (take 3 (va_path addr)) = None \<and> (\<forall>w. lookup A' w = (if take 3 (va_path w) = take 3 (va_path addr) then None else lookup A w))"
proof -
  let ?gs = "pd_pages addr"
  let ?A = "A |` (- (va_path ` set ?gs))"
  note im = va_path_pd_pages[OF a(1)] and t = pd_pages_path[OF a(1)]
  have gs: "A (take 2 (va_path g)) = None \<and> A (take 3 (va_path g)) = None" if "g \<in> set ?gs" for g using t[OF that] a by simp
  note R = release_loop[OF I pd_pages_ne gs run]
  show ?thesis
  proof (cases r)
    case (Inl x)
    then show ?thesis using R by simp
  next
    case (Inr u)
    then obtain T' where T': "inv G {} T' ?A s'" "pruned T' (fst s') (last ?gs)" using R by auto
    have l: "last ?gs \<in> set ?gs" using pd_pages_ne last_in_set by blast
    have none: "?A (take 3 (va_path addr) @ [i]) = None" if "i < 512" for i using that unfolding im by (auto simp: restrict_map_def)
    have "T' (take 3 (va_path addr)) = None"
    proof (rule ccontr)
      assume "T' (take 3 (va_path addr)) \<noteq> None"
      then obtain q where q: "T' (take 3 (va_path addr)) = Some q" by blast
      then have "\<not> empty_table (fst s') q" using T'(2) t(1)[OF l] unfolding pruned_def by (metis insertI1 insert_commute)
      then obtain i where i: "i < 512" "mem (fst s') q i \<noteq> 0" by (auto simp: empty_table_def)
      have "?A (take 3 (va_path addr) @ [i]) = Some (mem (fst s') q i)"
        using entry_kind(1)[OF T'(1) q i(1)] i(2) by (simp add: is_table_def del: va_path_take)
      then show False using none[OF i(1)] by simp
    qed
    moreover have len: "length \<pi> \<noteq> 4 \<Longrightarrow> ?A \<pi> = A \<pi>" for \<pi> unfolding im by (auto simp: restrict_map_def)
    have "?A (take 2 (va_path addr)) = None" "?A (take 3 (va_path addr)) = None" using a(2,3) by (simp_all add: len del: va_path_take)
    moreover have "lookup ?A w = (if take 3 (va_path w) = take 3 (va_path addr) then None else lookup A w)" for w
    proof (cases "take 3 (va_path w) = take 3 (va_path addr)")
      case True
      have "va_path w = take 3 (va_path addr) @ [pt_index w]" using True by (metis va_path_def va_path_take(3) append_Cons append_Nil)
      then have "?A (va_path w) = None" using none[OF index_less(4)] by simp
      moreover have "?A (take 2 (va_path w)) = None" "?A (take 3 (va_path w)) = None"
        using True take_va_path_mono(2)[OF True] a(2,3) by (simp_all add: len del: va_path_take)
      ultimately show ?thesis using True by (simp add: lookup_def del: va_path_take)
    next
      case False
      have "va_path w = take 3 (va_path w) @ [pt_index w]" by (simp add: va_path_def)
      then have "va_path w \<notin> va_path ` set ?gs" using False unfolding im by auto
      then have "?A (va_path w) = A (va_path w)" by (simp add: restrict_map_def)
      moreover have "?A (take 2 (va_path w)) = A (take 2 (va_path w))" "?A (take 3 (va_path w)) = A (take 3 (va_path w))"
        by (simp_all add: len del: va_path_take)
      ultimately have "lookup ?A w = lookup A w" by (intro lookup_cong)
      then show ?thesis using False by (simp only: if_False)
    qed
    ultimately have "\<exists>T' A'. inv G {} T' A' s' \<and> T' (take 3 (va_path addr)) = None \<and> A' (take 2 (va_path addr)) = None \<and>
        A' (take 3 (va_path addr)) = None \<and> (\<forall>w. lookup A' w = (if take 3 (va_path w) = take 3 (va_path addr) then None else lookup A w))"
      using T'(1) by (intro exI[of _ T'] exI[of _ ?A] conjI allI)
    then show ?thesis using Inr by simp
  qed
qed

text \<open>Mapping small pages where nothing is mapped.\<close>

lemma map_loop_4k:
  assumes I: "inv G {} T A s"
    and gs: "\<And>g. g \<in> set gs \<Longrightarrow> A (take 2 (va_path g)) = None \<and> A (take 3 (va_path g)) = None \<and> A (va_path g) = None"
    and d: "distinct (map va_path gs)" and f: "\<And>g. f g 0 \<noteq> 0"
    and run: "forE gs (\<lambda>g. ignoreE (map_4k E g (f g))) s = (r, s')"
  shows "case r of Inl x \<Rightarrow> x \<in> exhausted s' \<and> (\<exists>T' A'. inv G {} T' A' s')
    | Inr u \<Rightarrow> \<exists>T' A'. inv G {} T' A' s' \<and> (\<forall>g \<in> set gs. A' (va_path g) = Some (f g 0)) \<and>
        (\<forall>\<pi>. \<pi> \<notin> va_path ` set gs \<longrightarrow> A' \<pi> = A \<pi>)"
  using assms
proof (induction gs arbitrary: T A s)
  case Nil
  then have "r = Inr ()" "s' = s" by (auto simp: returnE_def)
  then show ?case using Nil.prems(1) by auto
next
  case (Cons g gs)
  obtain x s1 where x: "map_4k E g (f g) s = (x, s1)" by (rule prod.exhaust)
  have g: "A (take 2 (va_path g)) = None" "A (take 3 (va_path g)) = None" "A (va_path g) = None" using Cons.prems(2) by auto
  have p: "take 3 (va_path g) @ [pt_index g] = va_path g" by (simp add: va_path_def)
  have N: "T (va_path g) = None"
    using tables_depth[OF inv_ok[OF Cons.prems(1)], of "va_path g"] by (cases "T (va_path g)") auto
  note R = map_4k_result[OF Cons.prems(1) g(1,2) x, unfolded map_result_def p]
  show ?case
  proof (cases x)
    case (Inl e)
    then have "r = Inl e" "s' = s1" using x Cons.prems(5) by (auto simp: seqE_def bindE_def ignoreE_def)
    moreover obtain T1 where "inv G {} T1 A s1" "e \<in> exhausted s1" using R g(3) N unfolding Inl by auto
    ultimately show ?thesis by (simp, blast)
  next
    case (Inr v)
    let ?A = "A(va_path g \<mapsto> f g 0)"
    obtain T1 where T1: "inv G {} T1 ?A s1" using R Cons.prems(4)[of g] unfolding Inr by (cases v) auto
    have run: "forE gs (\<lambda>g. ignoreE (map_4k E g (f g))) s1 = (r, s')"
      using x Inr Cons.prems(5) by (simp add: seqE_def bindE_def ignoreE_def returnE_def)
    have ne: "va_path h \<noteq> va_path g" if "h \<in> set gs" for h using Cons.prems(3) that by (auto simp: rev_image_eqI)
    have hs: "?A (take 2 (va_path h)) = None \<and> ?A (take 3 (va_path h)) = None \<and> ?A (va_path h) = None" if "h \<in> set gs" for h
      using Cons.prems(2)[of h] ne[OF that] that by (auto simp del: va_path_take)
    have d: "distinct (map va_path gs)" using Cons.prems(3) by simp
    note IH = Cons.IH[OF T1 hs d Cons.prems(4) run]
    show ?thesis
    proof (cases r)
      case (Inl e)
      then show ?thesis using IH by simp
    next
      case (Inr u)
      then obtain T' A' where A': "inv G {} T' A' s'" "\<forall>h \<in> set gs. A' (va_path h) = Some (f h 0)" "\<forall>\<pi>. \<pi> \<notin> va_path ` set gs \<longrightarrow> A' \<pi> = ?A \<pi>"
        using IH by auto
      have "A' (va_path g) = Some (f g 0)" using A'(3) ne by (metis fun_upd_same imageE)
      moreover have "A' \<pi> = A \<pi>" if "\<pi> \<notin> va_path ` set (g # gs)" for \<pi> using A'(3) that by auto
      ultimately have "\<exists>T' A'. inv G {} T' A' s' \<and> (\<forall>h \<in> set (g # gs). A' (va_path h) = Some (f h 0)) \<and>
          (\<forall>\<pi>. \<pi> \<notin> va_path ` set (g # gs) \<longrightarrow> A' \<pi> = A \<pi>)" using A'(1,2) by (intro exI[of _ T'] exI[of _ A']) auto
      then show ?thesis using Inr by simp
    qed
  qed
qed

lemma map_2m_pages:
  assumes I: "inv G {} T A s" and a: "2 ^ 21 dvd unat addr"
    and e: "\<And>w. take 3 (va_path w) = take 3 (va_path addr) \<Longrightarrow> lookup A w = None" and f: "\<And>g. f g 0 \<noteq> 0"
    and run: "forE (pd_pages addr) (\<lambda>g. ignoreE (map_4k E g (f g))) s = (r, s')"
  shows "case r of Inl x \<Rightarrow> x \<in> exhausted s' \<and> (\<exists>T' A'. inv G {} T' A' s')
    | Inr u \<Rightarrow> \<exists>T' A'. inv G {} T' A' s' \<and> (\<forall>g \<in> set (pd_pages addr). \<forall>w. va_path w = va_path g \<longrightarrow> lookup A' w = Some (4, f g 0)) \<and>
        (\<forall>w. take 3 (va_path w) \<noteq> take 3 (va_path addr) \<longrightarrow> lookup A' w = lookup A w)"
proof -
  note im = va_path_pd_pages[OF a] and t = pd_pages_path[OF a]
  have nl: "A (take 2 (va_path w)) = None \<and> A (take 3 (va_path w)) = None \<and> A (va_path w) = None" if "take 3 (va_path w) = take 3 (va_path addr)" for w
    using e[OF that] by (auto simp: lookup_def simp del: va_path_take split: option.splits)
  have gs: "A (take 2 (va_path g)) = None \<and> A (take 3 (va_path g)) = None \<and> A (va_path g) = None" if "g \<in> set (pd_pages addr)" for g
    using nl t(1)[OF that] by blast
  have d: "distinct (map va_path (pd_pages addr))"
  proof -
    have "map va_path (pd_pages addr) = map (\<lambda>i. take 3 (va_path addr) @ [i]) [0 ..< 512]"
      unfolding pd_pages_def map_map by (rule map_cong[OF refl]) (use va_path_offset[OF a] in \<open>simp only: o_apply set_upt atLeastLessThan_iff\<close>)
    moreover have "distinct (map (\<lambda>i. take 3 (va_path addr) @ [i]) [0 ..< 512])" unfolding distinct_map by (auto simp: inj_on_def)
    ultimately show ?thesis by simp
  qed
  note R = map_loop_4k[OF I gs d f run]
  show ?thesis
  proof (cases r)
    case (Inl x)
    then show ?thesis using R by simp
  next
    case (Inr u)
    then obtain T' A' where A': "inv G {} T' A' s'" "\<forall>h \<in> set (pd_pages addr). A' (va_path h) = Some (f h 0)"
      "\<forall>\<pi>. \<pi> \<notin> va_path ` set (pd_pages addr) \<longrightarrow> A' \<pi> = A \<pi>" using R by auto
    have len: "A' \<pi> = A \<pi>" if "length \<pi> \<noteq> 4" for \<pi> using spec[OF A'(3), of \<pi>] that unfolding im by auto
    have 23: "A' (take 2 (va_path w)) = A (take 2 (va_path w))" "A' (take 3 (va_path w)) = A (take 3 (va_path w))" for w
      by (simp_all add: len del: va_path_take)
    have 1: "lookup A' w = Some (4, f g 0)" if g: "g \<in> set (pd_pages addr)" "va_path w = va_path g" for g w
    proof -
      have "A' (take 2 (va_path w)) = None" "A' (take 3 (va_path w)) = None" using gs[OF g(1)] 23[of w] unfolding g(2) by simp_all
      moreover have "A' (va_path w) = Some (f g 0)" using A'(2) g by simp
      ultimately show ?thesis by (simp add: lookup_def del: va_path_take)
    qed
    have 2: "lookup A' w = lookup A w" if w: "take 3 (va_path w) \<noteq> take 3 (va_path addr)" for w
    proof (rule lookup_cong)
      have "va_path w = take 3 (va_path w) @ [pt_index w]" by (simp add: va_path_def)
      then have "va_path w \<notin> va_path ` set (pd_pages addr)" using w unfolding im by auto
      then show "A' (va_path w) = A (va_path w)" using A'(3) by blast
    qed (rule 23)+
    have "\<exists>T' A'. inv G {} T' A' s' \<and> (\<forall>g \<in> set (pd_pages addr). \<forall>w. va_path w = va_path g \<longrightarrow> lookup A' w = Some (4, f g 0)) \<and>
        (\<forall>w. take 3 (va_path w) \<noteq> take 3 (va_path addr) \<longrightarrow> lookup A' w = lookup A w)"
      using A'(1) 1 2 by blast
    then show ?thesis using Inr by simp
  qed
qed

section \<open>Conversions\<close>

text \<open>Every conversion first asks for the size of the page at the address.\<close>

lemma is_page_cases:
  assumes I: "inv G {} T A s" and d: "d \<in> {2, 3, 4}"
    and run: "bindE (bindE (map_from E addr) (\<lambda>x. returnE (x = from_bits (level_at (d - 1))))) (\<lambda>b. seqE (expectsE b) k) s = (r, s')"
  obtains (fail) x where "r = Inl x" "\<exists>T'. inv G {} T' A s'"
      "x \<in> exhausted s' \<or> x = Runtime_error \<and> lookup A addr = None \<or> x = Expects_failed \<and> (\<exists>d' e. lookup A addr = Some (d', e) \<and> d' \<noteq> d)"
  | (ok) e s1 where "lookup A addr = Some (d, e)" "inv G {} T A s1" "k s1 = (r, s')"
proof (cases "lookup A addr")
  case None
  then obtain x s1 where x: "map_from E addr s = (Inl x, s1)" "x \<in> insert Runtime_error (exhausted s1)" "\<exists>T'. inv G {} T' A s1"
    using page_size_result(1)[OF I] by blast
  then have "r = Inl x" "s' = s1" using run by (auto simp: bindE_def)
  then show ?thesis using x(2,3) None by (intro fail[of x]) auto
next
  case (Some y)
  obtain d' e where y: "y = (d', e)" by (rule prod.exhaust)
  obtain s1 where s1: "map_from E addr s = (Inr (from_bits (level_at (d' - 1))), s1)" "inv G {} T A s1"
    using page_size_result(2)[OF I Some[unfolded y]] by blast
  have d': "d' \<in> {2, 3, 4}" using Some y by (auto simp: lookup_def split: option.splits)
  have q: "(from_bits (level_at (d' - 1)) = from_bits (level_at (d - 1))) = (d' = d)"
    using d d' by (auto simp: from_bits_def pt_from_def pd_from_def pdpt_from_def numeral_eq_Suc)
  show ?thesis
  proof (cases "d' = d")
    case True
    then show ?thesis using run s1 Some y q by (intro ok[of e s1]) (auto simp: bindE_def returnE_def seqE_def expectsE_def)
  next
    case False
    then have "r = Inl Expects_failed" "s' = s1" using run s1(1) q by (auto simp: bindE_def returnE_def seqE_def expectsE_def throwE_def)
    then show ?thesis using False Some y s1(2) by (intro fail) auto
  qed
qed

lemma is_page_4k: "is_4k E addr = bindE (map_from E addr) (\<lambda>x. returnE (x = from_bits (level_at (4 - 1))))"
  by (simp add: is_4k_def from_bits_def numeral_eq_Suc)

lemma is_page_2m: "is_2m E addr = bindE (map_from E addr) (\<lambda>x. returnE (x = from_bits (level_at (3 - 1))))"
  by (simp add: is_2m_def from_bits_def numeral_eq_Suc)

text \<open>
  From small pages to one large page: whatever small pages were there, with whatever access, the range
  is mapped to itself with the attributes given.
\<close>

theorem convert_4k_to_2m_result:
  assumes I: "inv G {} T A s" and a: "lower_from addr pd_from = 0" "addr < 0x1000000000000"
    and mk: "\<not> is_table E 2 (mk PD addr 0)" "mk PD addr 0 \<noteq> 0" and run: "identity_map_convert_4k_to_2m E mk addr s = (r, s')"
  shows "case r of
      Inl x \<Rightarrow> (x \<in> exhausted s' \<or> x = Runtime_error \<and> lookup A addr = None \<or> x = Expects_failed \<and> (\<exists>d e. lookup A addr = Some (d, e) \<and> d \<noteq> 4)) \<and>
        (\<exists>T' A'. inv G {} T' A' s')
    | Inr u \<Rightarrow> (\<exists>e. lookup A addr = Some (4, e)) \<and> (\<exists>T' A'. inv G {} T' A' s' \<and>
        (\<forall>w. lookup A' w = (if take 3 (va_path w) = take 3 (va_path addr) then Some (3, mk PD addr 0) else lookup A w)))"
proof -
  note al = aligned_2m[OF a]
  have body: "bindE (is_4k E addr) (\<lambda>b. seqE (expectsE b) (seqE (forE (pd_pages addr) (release E)) (ignoreE (map_2m E addr (mk PD addr))))) s = (r, s')"
    using run a(1) al(2,3) by (simp add: identity_map_convert_4k_to_2m_def identity_release_4k_def gpas_2m[OF al(1) a(2)])
  have four: "(4::nat) \<in> {2, 3, 4}" by simp
  from I four body[unfolded is_page_4k] show ?thesis
  proof (cases rule: is_page_cases)
    case (fail x)
    then show ?thesis by auto
  next
    case (ok e s1)
    have nl: "A (take 2 (va_path addr)) = None" "A (take 3 (va_path addr)) = None"
      using ok(1) by (auto simp: lookup_def split: option.splits)
    obtain x s2 where x: "forE (pd_pages addr) (release E) s1 = (x, s2)" by (rule prod.exhaust)
    note R = release_2m[OF ok(2) al(1) nl x]
    show ?thesis
    proof (cases x)
      case (Inl f)
      then have "r = Inl f" "s' = s2" using ok(3) x by (auto simp: seqE_def bindE_def)
      moreover have "f \<in> exhausted s2" "\<exists>T' A'. inv G {} T' A' s2" using R unfolding Inl by simp_all
      ultimately show ?thesis by simp
    next
      case (Inr u)
      then obtain T2 A2 where A2: "inv G {} T2 A2 s2" "T2 (take 3 (va_path addr)) = None" "A2 (take 2 (va_path addr)) = None" "A2 (take 3 (va_path addr)) = None"
        "\<forall>w. lookup A2 w = (if take 3 (va_path w) = take 3 (va_path addr) then None else lookup A w)" using R by auto
      obtain z s3 where z: "map_2m E addr (mk PD addr) s2 = (z, s3)" by (rule prod.exhaust)
      have p: "[pml4_index addr, pdpt_index addr] @ [pd_index addr] = take 3 (va_path addr)" by simp
      note M = map_2m_result[OF A2(1) A2(3)[unfolded va_path_take] mk(1) z, unfolded map_result_def p]
      show ?thesis
      proof (cases z)
        case (Inl f)
        then have "r = Inl f" "s' = s3" using ok(3) x Inr z by (auto simp: seqE_def bindE_def ignoreE_def)
        moreover obtain T3 where "inv G {} T3 A2 s3" "f \<in> exhausted s3" using M A2(2,4) unfolding Inl by auto
        ultimately show ?thesis by (simp, blast)
      next
        case v: (Inr v)
        then have "r = Inr ()" "s' = s3" using ok(3) x Inr z by (auto simp: seqE_def bindE_def ignoreE_def returnE_def)
        moreover obtain T3 where T3: "inv G {} T3 (A2(take 3 (va_path addr) \<mapsto> mk PD addr 0)) s3" using M v mk(2) by (cases v) auto
        have "lookup (A2(take 3 (va_path addr) \<mapsto> mk PD addr 0)) w =
            (if take 3 (va_path w) = take 3 (va_path addr) then Some (3, mk PD addr 0) else lookup A w)" for w
          using spec[OF A2(5), of w] lookup_map_2m[of A2 addr "mk PD addr 0" w, OF A2(3)]
          by (cases "take 3 (va_path w) = take 3 (va_path addr)") (simp_all only: if_True if_False simp_thms)
        then have "\<exists>T' A'. inv G {} T' A' s3 \<and> (\<forall>w. lookup A' w =
            (if take 3 (va_path w) = take 3 (va_path addr) then Some (3, mk PD addr 0) else lookup A w))" using T3 by blast
        ultimately show ?thesis using ok(1) by simp
      qed
    qed
  qed
qed

text \<open>
  From one large page to 512 small ones, each mapped to itself with the attributes given.
\<close>

lemma unmapped_2m:
  assumes I: "inv G {} T A s" and e: "lookup A addr = Some (3, e)"
  shows "lookup (unmapped_at A addr) w = (if take 3 (va_path w) = take 3 (va_path addr) then None else lookup A w)"
proof -
  have u: "unmapped_at A addr = A(take 3 (va_path addr) := None)" by (simp add: unmapped_at_def e del: va_path_take)
  have n2: "A (take 2 (va_path addr)) = None" using e by (auto simp: lookup_def split: option.splits)
  show ?thesis
  proof (cases "take 3 (va_path w) = take 3 (va_path addr)")
    case True
    have "A (take 3 (va_path w) @ [pt_index w]) = None" unfolding True by (rule no_leaf_below[OF I lookup_no_table[OF I e]])
    moreover have "va_path w = take 3 (va_path w) @ [pt_index w]" by (simp add: va_path_def)
    ultimately have "A (va_path w) = None" by metis
    then show ?thesis unfolding u using True n2 take_va_path_mono(2)[OF True]
      by (simp add: lookup_def take_va_path_ne del: va_path_take)
  next
    case False
    have "lookup (A(take 3 (va_path addr) := None)) w = lookup A w"
      using False by (intro lookup_cong) (simp_all add: take_va_path_ne del: va_path_take)
    then show ?thesis unfolding u using False by (simp only: if_False)
  qed
qed

theorem convert_2m_to_4k_result:
  assumes I: "inv G {} T A s" and a: "lower_from addr pd_from = 0" "addr < 0x1000000000000"
    and mk: "\<And>g. mk PT g 0 \<noteq> 0" and run: "identity_map_convert_2m_to_4k E mk addr s = (r, s')"
  shows "case r of
      Inl x \<Rightarrow> (x \<in> exhausted s' \<or> x = Runtime_error \<and> lookup A addr = None \<or> x = Expects_failed \<and> (\<exists>d e. lookup A addr = Some (d, e) \<and> d \<noteq> 3)) \<and>
        (\<exists>T' A'. inv G {} T' A' s')
    | Inr u \<Rightarrow> (\<exists>e. lookup A addr = Some (3, e)) \<and> (\<exists>T' A'. inv G {} T' A' s' \<and>
        (\<forall>g \<in> set (pd_pages addr). \<forall>w. va_path w = va_path g \<longrightarrow> lookup A' w = Some (4, mk PT g 0)) \<and>
        (\<forall>w. take 3 (va_path w) \<noteq> take 3 (va_path addr) \<longrightarrow> lookup A' w = lookup A w))"
proof -
  note al = aligned_2m[OF a]
  have body: "bindE (is_2m E addr) (\<lambda>b. seqE (expectsE b) (seqE (unmap E addr) (forE (pd_pages addr) (\<lambda>g. ignoreE (map_4k E g (mk PT g)))))) s = (r, s')"
    using run a(1) al(2,3) by (simp add: identity_map_convert_2m_to_4k_def identity_map_4k_def gpas_2m[OF al(1) a(2)])
  have three: "(3::nat) \<in> {2, 3, 4}" by simp
  from I three body[unfolded is_page_2m] show ?thesis
  proof (cases rule: is_page_cases)
    case (fail x)
    then show ?thesis by auto
  next
    case (ok e s1)
    obtain x s2 where x: "unmap E addr s1 = (x, s2)" by (rule prod.exhaust)
    obtain y where y: "x = Inr y" using unmap_result[OF ok(2) x] ok(1) by (cases x) auto
    obtain T2 where T2: "inv G {} T2 (unmapped_at A addr) s2" using unmap_result[OF ok(2) x] y by auto
    have run: "forE (pd_pages addr) (\<lambda>g. ignoreE (map_4k E g (mk PT g))) s2 = (r, s')" using ok(3) x y by (simp add: seqE_def bindE_def)
    have "lookup (unmapped_at A addr) w = None" if "take 3 (va_path w) = take 3 (va_path addr)" for w
      using unmapped_2m[OF ok(2,1), of w] that by (simp del: va_path_take)
    note M = map_2m_pages[of G T2 "unmapped_at A addr" s2 addr "mk PT", OF T2 al(1) this mk run]
    show ?thesis
    proof (cases r)
      case (Inl f)
      then show ?thesis using M by simp
    next
      case (Inr u)
      then obtain T3 A3 where A3: "inv G {} T3 A3 s'" "\<forall>g \<in> set (pd_pages addr). \<forall>w. va_path w = va_path g \<longrightarrow> lookup A3 w = Some (4, mk PT g 0)"
        "\<forall>w. take 3 (va_path w) \<noteq> take 3 (va_path addr) \<longrightarrow> lookup A3 w = lookup (unmapped_at A addr) w" using M by auto
      have "\<forall>w. take 3 (va_path w) \<noteq> take 3 (va_path addr) \<longrightarrow> lookup A3 w = lookup A w"
        using A3(3) unmapped_2m[OF ok(2,1)] by (simp del: va_path_take)
      then show ?thesis using A3(1,2) ok(1) Inr by (simp, blast)
    qed
  qed
qed

end

end
