(* ===== verification/Paging_Memory.thy ===== *)
theory Paging_Memory
  imports Page_Table_Convert Memory_Spec
begin

text \<open>
  The memory manager as the provider of table pages: pages come from the page pool through
  \<open>alloc_page\<close> and \<open>free_page\<close>, and their physical addresses from the address
  maps.  This discharges the laws of \<open>page_tables\<close> that do not depend on the entry format.
\<close>

definition mm_page_ops :: "memory_manager page_ops" where
  "mm_page_ops = \<lparr>op_alloc = page_poolE c_alloc_page, op_free = (\<lambda>q. page_poolE (c_free_page q)),
                  op_v2p = virtint_to_physint, op_p2v = physint_to_virtint\<rparr>"

section \<open>The pages of the pool\<close>

definition pool_pages :: "nat \<Rightarrow> u64 \<Rightarrow> u64 list" where
  "pool_pages k base = map (\<lambda>i. base + of_nat (i * 4096)) [0 ..< 2 ^ k]"

lemma blocks_aligned:
  "(q, n) \<in> blocks l p t \<Longrightarrow> \<exists>i. q = p + i * 4096 \<and> q + bsize n \<le> p + bsize l"
proof (induction l p t rule: blocks.induct)
  case (3 l p i k a b)
  have s: "bsize l = 2 ^ l * 4096" by (simp add: bsize_def power_add)
  have d: "bsize (Suc l) = bsize l + bsize l" by (simp add: bsize_def power_add)
  consider "(q, n) = (p, Suc l)" | "(q, n) \<in> blocks l p a" "k = KParent \<or> k = KFull"
    | "(q, n) \<in> blocks l (p + bsize l) b" "k = KParent \<or> k = KFull"
    using "3.prems" by (cases k) auto
  then show ?case
  proof cases
    case 2
    then obtain j where "q = p + j * 4096" "q + bsize n \<le> p + bsize l" using "3.IH" by auto
    then show ?thesis using d by (intro exI[of _ j]) simp
  next
    case 3
    then obtain j where j: "q = p + bsize l + j * 4096" "q + bsize n \<le> p + bsize l + bsize l" using "3.IH" by auto
    have "q = p + (2 ^ l + j) * 4096" using j(1) s by (simp add: algebra_simps)
    then show ?thesis using j(2) d by (intro exI[of _ "2 ^ l + j"]) simp
  qed auto
qed (auto split: if_splits)

lemma live_page_in_pool:
  assumes "pool_inv k base b" "page_block q \<in> live_blocks b"
  shows "q \<in> set (pool_pages k base)"
proof -
  obtain t where t: "buddy_tree k b t" using assms(1) by (auto simp: pool_inv_def buddy_inv_def)
  have base: "m_buffer b = base" "unat base + bsize k \<le> 2 ^ 64" using assms(1) t by (auto simp: pool_inv_def buddy_tree_def)
  obtain x where x: "x \<in> blocks k (unat base) t" "page_block q = bytes_of x"
    using assms(2) unfolding live_blocks_tree[OF t] base(1) by (rule imageE)
  then have "fst x = unat q" "bsize (snd x) = 4096" by (simp_all add: page_block_def bytes_of_def)
  then obtain i where i: "unat q = unat base + i * 4096" "unat q + 4096 \<le> unat base + bsize k"
    using blocks_aligned[of "fst x" "snd x" k "unat base" t] x(1) by (cases x) auto
  have "bsize k = 2 ^ k * 4096" by (simp add: bsize_def power_add)
  then have "i < 2 ^ k" using i by simp
  moreover have "q = base + of_nat (i * 4096)"
  proof -
    have "q = of_nat (unat q)" by simp
    also have "\<dots> = base + of_nat (i * 4096)" unfolding i(1) of_nat_add by simp
    finally show ?thesis .
  qed
  ultimately show ?thesis by (auto simp: pool_pages_def)
qed

lemma pool_page_nz:
  assumes "pool_inv k base b" "q \<in> set (pool_pages k base)"
  shows "q \<noteq> 0"
proof
  assume z: "q = 0"
  obtain i where i: "i < 2 ^ k" "q = base + of_nat (i * 4096)" using assms(2) by (auto simp: pool_pages_def)
  have base: "base \<noteq> 0" "unat base + bsize k \<le> 2 ^ 64" using assms(1) by (auto simp: pool_inv_def buddy_inv_def buddy_tree_def)
  have "bsize k = 2 ^ k * 4096" by (simp add: bsize_def power_add)
  then have lt: "unat base + i * 4096 < 2 ^ 64" using i(1) base(2) by simp
  have "q = of_nat (unat base + i * 4096)" unfolding i(2) of_nat_add by simp
  then have "unat q = unat base + i * 4096" using unat_of_nat_u64[OF lt] by simp
  then show False using z base(1) by (simp add: unat_eq_zero)
qed

text \<open>\<open>alloc_page\<close> fails only when every page of the pool overlaps a block in use.\<close>

lemma pool_exhausted:
  assumes "pool_inv k base b" "c_alloc_page b = (Inl e, b')"
  shows "pages_full (set (pool_pages k base)) (live_blocks b)"
proof -
  have I: "buddy_inv k b" "m_buffer b = base" using assms(1) by (simp_all add: pool_inv_def)
  have f: "allocate 0x1000 b = (Inl Bad_alloc, b')" using c_alloc_page_cases[OF I(1) assms(2)] by auto
  have k: "bsize k = 2 ^ k * 4096" by (simp add: bsize_def power_add)
  have le: "unat base + bsize k \<le> 2 ^ 64" using I by (auto simp: buddy_inv_def buddy_tree_def)
  have "\<exists>x \<in> live_blocks b. extent x \<inter> extent (page_block (base + of_nat (j * 4096))) \<noteq> {}" if "j < 2 ^ k" for j
  proof -
    have j: "(j + 1) * 4096 \<le> bsize k" using that by (simp add: k)
    have "unat base + j * 4096 < 2 ^ 64" using j le by simp
    from unat_of_nat_u64[OF this] have "unat (base + of_nat (j * 4096)) = unat base + j * 4096" by simp
    then show ?thesis using allocate_error(5)[OF I(1) f, of j] j I(2) by (simp add: block_bytes_page page_block_def k)
  qed
  then show ?thesis by (auto simp: pages_full_def pool_pages_def)
qed

section \<open>The invariant of the provider\<close>

text \<open>
  Every page of the pool is mapped, to a nonzero physical address that fits the entries.
\<close>

definition frame_of :: "(u64 \<times> virt_t) list \<Rightarrow> u64 \<Rightarrow> u64" where
  "frame_of V q = (case map_of V q of Some e \<Rightarrow> vt_phys e | None \<Rightarrow> 0)"

definition frame_fits :: "(u64 \<times> virt_t) list \<Rightarrow> u64 \<Rightarrow> bool" where
  "frame_fits V q \<longleftrightarrow> map_of V q \<noteq> None \<and> frame_of V q \<noteq> 0 \<and> frame_of V q < 0x1000000000000"

definition paging_inv :: "nat \<Rightarrow> u64 \<Rightarrow> (u64 \<times> virt_t) list \<Rightarrow> memory_manager \<Rightarrow> bool" where
  "paging_inv k base V s \<longleftrightarrow>
     pool_inv k base (g_page_pool s) \<and> m_virt_map s = V \<and> md_inv s \<and> list_all (frame_fits V) (pool_pages k base)"

definition page_live :: "memory_manager \<Rightarrow> (nat \<times> nat) set" where
  "page_live s = live_blocks (g_page_pool s)"

lemma paging_entry:
  assumes "paging_inv k base V s" "q \<in> set (pool_pages k base)"
  obtains e where "map_of (m_virt_map s) q = Some e" "frame_of V q = vt_phys e" "vt_phys e \<noteq> 0" "vt_phys e < 0x1000000000000"
    "lower q = 0" "lower (vt_phys e) = 0" "map_of (m_phys_map s) (vt_phys e) = Some \<lparr>pt_virt = q, pt_attr = vt_attr e\<rparr>"
proof -
  have f: "frame_fits V q" using assms by (auto simp: paging_inv_def list_all_iff)
  then obtain e where e: "map_of V q = Some e" by (auto simp: frame_fits_def)
  have s: "m_virt_map s = V" "md_inv s" using assms(1) by (simp_all add: paging_inv_def)
  show thesis
    using f e virt_entry[OF s(2), of q e] by (intro that[of e]) (auto simp: s(1) frame_fits_def frame_of_def)
qed

lemma upper_of_aligned: "lower q = 0 \<Longrightarrow> upper q = q"
  using split_join[of q] by simp

lemma mm_page_provider: "page_provider (paging_inv k base V) page_live (op_alloc mm_page_ops) (op_free mm_page_ops) {Null_deref}"
proof
  fix p q p' assume P: "paging_inv k base V p" and c: "op_alloc mm_page_ops p = (Inr q, p')"
  then obtain b where b: "c_alloc_page (g_page_pool p) = (Inr q, b)" "p' = p\<lparr>g_page_pool := b\<rparr>"
    by (auto simp: mm_page_ops_def page_poolE_def split: prod.splits)
  show "paging_inv k base V p' \<and> q \<noteq> 0 \<and> unat q + 4096 \<le> 2 ^ 64 \<and> page_live p' = insert (unat q, 4096) (page_live p) \<and>
      (\<forall>b \<in> page_live p. extent b \<inter> extent (unat q, 4096) = {})"
    using pool.page_ok[OF _ b(1), of k base] P by (auto simp: paging_inv_def page_live_def b(2) md_inv_def)
next
  fix p e p' assume P: "paging_inv k base V p" and c: "op_alloc mm_page_ops p = (Inl e, p')"
  then obtain b where b: "c_alloc_page (g_page_pool p) = (Inl e, b)" "p' = p\<lparr>g_page_pool := b\<rparr>"
    by (auto simp: mm_page_ops_def page_poolE_def split: prod.splits)
  show "paging_inv k base V p' \<and> page_live p' = page_live p \<and> e \<in> {Null_deref}"
    using pool.page_err[OF _ b(1), of k base] P by (auto simp: paging_inv_def page_live_def b(2) md_inv_def)
next
  fix p and q :: u64 assume P: "paging_inv k base V p" and l: "(unat q, 4096) \<in> page_live p"
  obtain b where "c_free_page q (g_page_pool p) = (Inr (), b)" "pool_inv k base b" "live_blocks b = live_blocks (g_page_pool p) - {(unat q, 4096)}"
    using pool.page_free[of k base "g_page_pool p" q] P l by (auto simp: paging_inv_def page_live_def)
  then show "\<exists>p'. op_free mm_page_ops q p = (Inr (), p') \<and> paging_inv k base V p' \<and> page_live p' = page_live p - {(unat q, 4096)}"
    using P by (auto simp: mm_page_ops_def page_poolE_def paging_inv_def page_live_def md_inv_def)
next
  fix p b c assume "paging_inv k base V p" "b \<in> page_live p" "c \<in> page_live p" "b \<noteq> c"
  then show "extent b \<inter> extent c = {}" using pool.plive_apart[of k base "g_page_pool p" b c] by (simp add: paging_inv_def page_live_def)
qed

lemma mm_v2p:
  assumes "paging_inv k base V p" "page_block q \<in> page_live p"
  shows "op_v2p mm_page_ops q p = (Inr (frame_of V q), p)"
proof -
  have "q \<in> set (pool_pages k base)" using live_page_in_pool assms by (auto simp: paging_inv_def page_live_def)
  then show ?thesis using assms(1)
    by (elim paging_entry) (auto simp: mm_page_ops_def virtint_to_physint_def upper_of_aligned)
qed

lemma mm_p2v:
  assumes "paging_inv k base V p" "page_block q \<in> page_live p"
  shows "op_p2v mm_page_ops (frame_of V q) p = (Inr q, p)"
proof -
  have "q \<in> set (pool_pages k base)" using live_page_in_pool assms by (auto simp: paging_inv_def page_live_def)
  then show ?thesis using assms(1)
    by (elim paging_entry) (auto simp: mm_page_ops_def physint_to_virtint_def upper_of_aligned)
qed

lemma mm_frame_inj:
  assumes "paging_inv k base V p" "q \<in> set (pool_pages k base)" "r \<in> set (pool_pages k base)" "frame_of V q = frame_of V r"
  shows "q = r"
  by (rule paging_entry[OF assms(1,2)], rule paging_entry[OF assms(1,3)]) (use assms(4) in auto)

lemma mm_frame_bits:
  assumes "paging_inv k base V p" "q \<in> set (pool_pages k base)" "bit (frame_of V q) n"
  shows "12 \<le> n" "n < 48"
proof -
  obtain e :: virt_t where e: "frame_of V q = vt_phys e" "vt_phys e < 0x1000000000000" "lower (vt_phys e) = 0"
    by (rule paging_entry[OF assms(1,2)], rule that)
  have "\<not> bit (lower (vt_phys e)) n" by (simp add: e(3))
  then show "12 \<le> n" using assms(3) e(1) by auto
  have "unat (vt_phys e) < 2 ^ 48" using e(2) by (simp add: word_less_nat_alt)
  then have "take_bit 48 (vt_phys e) = vt_phys e"
    by (metis take_bit_nat_eq_self_iff unsigned_take_bit_eq word_unat_eq_iff)
  then show "n < 48" using assms(3) e(1) by (metis bit_take_bit_iff)
qed

text \<open>An entry format that can link to every page-aligned address of 48 bits makes page tables.\<close>

lemma mm_page_tables:
  assumes ops: "op_alloc E = op_alloc mm_page_ops" "op_free E = op_free mm_page_ops" "op_v2p E = op_v2p mm_page_ops" "op_p2v E = op_p2v mm_page_ops"
    and ps: "\<And>l. \<not> tf_ps E l 0"
    and link: "\<And>d pa. d < 3 \<Longrightarrow> (\<And>n. bit pa n \<Longrightarrow> 12 \<le> n \<and> n < 48) \<Longrightarrow> is_table E d (tf_link E (level_at d) pa 0)"
      "\<And>d pa. d < 3 \<Longrightarrow> (\<And>n. bit pa n \<Longrightarrow> 12 \<le> n \<and> n < 48) \<Longrightarrow> tf_phys E (level_at d) (tf_link E (level_at d) pa 0) = pa"
  shows "page_tables (paging_inv k base V) page_live E {Null_deref} (frame_of V) (set (pool_pages k base))"
proof (intro page_tables.intro page_tables_axioms.intro)
  show "page_provider (paging_inv k base V) page_live (op_alloc E) (op_free E) {Null_deref}"
    unfolding ops by (rule mm_page_provider)
next
  fix p q assume p: "paging_inv k base V p" "q \<in> set (pool_pages k base)"
  show "is_table E d (tf_link E (level_at d) (frame_of V q) 0)" if "d < 3" for d
    using link(1)[OF that] mm_frame_bits[OF p] by blast
  show "tf_phys E (level_at d) (tf_link E (level_at d) (frame_of V q) 0) = frame_of V q" if "d < 3" for d
    using link(2)[OF that] mm_frame_bits[OF p] by blast
  show "q \<noteq> 0" using pool_page_nz p by (auto simp: paging_inv_def)
  show "frame_of V q \<noteq> 0" by (rule paging_entry[OF p]) simp
next
  fix p q assume p: "paging_inv k base V p" "page_block q \<in> page_live p"
  show "op_v2p E q p = (Inr (frame_of V q), p)" unfolding ops by (rule mm_v2p[OF p])
  show "op_p2v E (frame_of V q) p = (Inr q, p)" unfolding ops by (rule mm_p2v[OF p])
  show "q \<in> set (pool_pages k base)" using live_page_in_pool p by (auto simp: paging_inv_def page_live_def)
next
  fix p e p' assume "paging_inv k base V p" "op_alloc E p = (Inl e, p')"
  then show "pages_full (set (pool_pages k base)) (page_live p)" unfolding ops
    by (auto simp: mm_page_ops_def page_poolE_def paging_inv_def page_live_def split: prod.splits intro: pool_exhausted)
next
  fix p q r assume "paging_inv k base V p" "q \<in> set (pool_pages k base)" "r \<in> set (pool_pages k base)" "frame_of V q = frame_of V r"
  then show "q = r" by (rule mm_frame_inj)
qed (rule ps)

section \<open>A concrete memory manager\<close>

text \<open>A page pool of four pages, mapped to physical addresses eight megabytes above.\<close>

definition map4 :: "(u64 \<times> virt_t) list" where
  "map4 = [(0x100000, \<lparr>vt_phys = 0x800000, vt_attr = 7\<rparr>), (0x101000, \<lparr>vt_phys = 0x801000, vt_attr = 7\<rparr>),
           (0x102000, \<lparr>vt_phys = 0x802000, vt_attr = 7\<rparr>), (0x103000, \<lparr>vt_phys = 0x803000, vt_attr = 7\<rparr>)]"

definition inverse_map :: "(u64 \<times> virt_t) list \<Rightarrow> (u64 \<times> phys_t) list" where
  "inverse_map V = map (\<lambda>(v, e). (vt_phys e, \<lparr>pt_virt = v, pt_attr = vt_attr e\<rparr>)) V"

definition mm4 :: memory_manager where
  "mm4 = \<lparr>g_page_pool = make_buddy 0x100000 2 (replicate 7 zero_node), g_huge_pool = make_buddy 0x200000 0 [zero_node],
     g_mem_map_pool = make_buddy MEM_MAP_POOL_START 0 [zero_node], slabs = (\<lambda>i. empty_allocator),
     m_virt_map = map4, m_phys_map = inverse_map map4\<rparr>"

lemma inverse_map_md:
  assumes "distinct (map fst V)" "distinct (map fst (inverse_map V))" "list_all (\<lambda>(v, e). lower v = 0 \<and> lower (vt_phys e) = 0) V"
    and "m_virt_map s = V" "m_phys_map s = inverse_map V"
  shows "md_inv s"
proof -
  have "(p, \<lparr>pt_virt = v, pt_attr = a\<rparr>) \<in> set (inverse_map V) \<longleftrightarrow> (v, \<lparr>vt_phys = p, vt_attr = a\<rparr>) \<in> set V" for v p a
  proof -
    have "e = \<lparr>vt_phys = p, vt_attr = a\<rparr> \<longleftrightarrow> p = vt_phys e \<and> a = vt_attr e" for e :: virt_t by (cases e) auto
    then show ?thesis by (auto simp: inverse_map_def image_iff split: prod.splits) (metis virt_t.surjective old.unit.exhaust)+
  qed
  then show ?thesis using assms(3) unfolding md_inv_def assms(4,5)
    by (auto simp: map_of_eq_Some_iff assms(1,2) list_all_iff)
qed

lemma mm4_inv: "paging_inv 2 0x100000 map4 mm4"
proof -
  have "pool_inv 2 0x100000 (g_page_pool mm4)"
    using make_buddy_inv(1)[of 2 "0x100000" "replicate 7 zero_node"]
    by (simp add: mm4_def pool_inv_def make_buddy_def bsize_def zero_node_def)
  moreover have "md_inv mm4"
    by (rule inverse_map_md[of map4]) (code_simp, code_simp, code_simp, simp_all add: mm4_def)
  moreover have "list_all (frame_fits map4) (pool_pages 2 0x100000)"
    by (simp add: pool_pages_def upt_rec frame_fits_def frame_of_def map4_def)
  ultimately show ?thesis by (simp add: paging_inv_def mm4_def)
qed

text \<open>No tables yet.\<close>

definition no_tables :: mmap where
  "no_tables = \<lparr>m_tab = (\<lambda>l. null_pair), mem = (\<lambda>q i. 0)\<rparr>"

lemma mm4_live: "page_live mm4 = {}"
  using make_buddy_inv(2)[of 2 "0x100000" "replicate 7 zero_node"]
  by (simp add: page_live_def mm4_def bsize_def zero_node_def)

text \<open>The pool after each of its four pages is taken.\<close>

definition mm4a :: memory_manager where "mm4a = snd (page_poolE c_alloc_page mm4)"
definition mm4b :: memory_manager where "mm4b = snd (page_poolE c_alloc_page mm4a)"
definition mm4c :: memory_manager where "mm4c = snd (page_poolE c_alloc_page mm4b)"
definition mm4d :: memory_manager where "mm4d = snd (page_poolE c_alloc_page mm4c)"

lemma mm4_allocs:
  "page_poolE c_alloc_page mm4 = (Inr 0x100000, mm4a)" "page_poolE c_alloc_page mm4a = (Inr 0x101000, mm4b)"
  "page_poolE c_alloc_page mm4b = (Inr 0x102000, mm4c)" "page_poolE c_alloc_page mm4c = (Inr 0x103000, mm4d)"
  by (simp only: prod_eq_iff fst_conv snd_conv mm4a_def mm4b_def mm4c_def mm4d_def, intro conjI refl, code_simp)+

lemma mm4_virt_map: "m_virt_map mm4a = map4" "m_virt_map mm4b = map4" "m_virt_map mm4c = map4" "m_virt_map mm4d = map4"
proof -
  have "m_virt_map (snd (page_poolE m s)) = m_virt_map s" for m :: "(buddy_allocator, u64) op" and s
    by (simp add: page_poolE_def split: prod.splits)
  then show "m_virt_map mm4a = map4" "m_virt_map mm4b = map4" "m_virt_map mm4c = map4" "m_virt_map mm4d = map4"
    by (simp_all add: mm4a_def mm4b_def mm4c_def mm4d_def mm4_def)
qed

lemma mm4_v2p:
  assumes "m_virt_map s = map4"
  shows "virtint_to_physint 0x100000 s = (Inr 0x800000, s)" "virtint_to_physint 0x101000 s = (Inr 0x801000, s)"
    "virtint_to_physint 0x102000 s = (Inr 0x802000, s)" "virtint_to_physint 0x103000 s = (Inr 0x803000, s)"
  by (simp_all add: virtint_to_physint_def assms map4_def upper_def lower_def)

lemma mm4_p2v: "physint_to_virtint 0x800000 mm4c = (Inr 0x100000, mm4c)"
proof -
  have "m_phys_map (snd (page_poolE m s)) = m_phys_map s" for m :: "(buddy_allocator, u64) op" and s
    by (simp add: page_poolE_def split: prod.splits)
  then have "m_phys_map mm4c = inverse_map map4" by (simp add: mm4a_def mm4b_def mm4c_def mm4_def)
  then show ?thesis by (simp add: physint_to_virtint_def inverse_map_def map4_def upper_def lower_def)
qed

lemmas mm4_ops = mm_page_ops_def mm4_allocs mm4_v2p[OF mm4_virt_map(1)] mm4_v2p[OF mm4_virt_map(2)]
  mm4_v2p[OF mm4_virt_map(3)] mm4_v2p[OF mm4_virt_map(4)]

lemmas index_defs = pml4_index_def pdpt_index_def pd_index_def pt_index_def table_index_def pml4_from_def pdpt_from_def pd_from_def pt_from_def

lemmas table_steps = map_table_def allocate_table_def allocate_span_def mmE_def bindE_def seqE_def getE_def modifyE_def returnE_def
  tabE_def set_tab_def read_at_def upd_at_def write_mem_def clear_page_def num_entries_def null_pair_def

end
