(* ===== verification/Ept_Map.thy ===== *)
theory Ept_Map
  imports Paging_Memory
begin

text \<open>
  The extended page tables: the entry format of
  \<open>src/extended_apis/bfvmm/include/hve/arch/intel_x64/ept/mmap.h\<close> over the layouts of
  \<open>Ept_Entry\<close>, and the table operations of \<open>Page_Table\<close> at this format, with the
  memory manager as the source of pages.
\<close>

datatype attr_type = none | read_only | write_only | execute_only | read_write | read_execute | read_write_execute

datatype memory_type_t = uncacheable | write_combining | write_through | write_protected | write_back

definition memory_type_value :: "memory_type_t \<Rightarrow> u64" where
  "memory_type_value c =
     (case c of uncacheable \<Rightarrow> 0 | write_combining \<Rightarrow> 1 | write_through \<Rightarrow> 4 | write_protected \<Rightarrow> 5 | write_back \<Rightarrow> 6)"

section \<open>Building entries\<close>

definition set_attr :: "leaf_layout \<Rightarrow> attr_type \<Rightarrow> u64 \<Rightarrow> u64" where
  "set_attr L attr e =
     (case attr of
        none \<Rightarrow> e
      | read_only \<Rightarrow> flag_enable (read_access L) e
      | write_only \<Rightarrow> flag_enable (write_access L) e
      | execute_only \<Rightarrow> flag_enable (execute_access L) e
      | read_write \<Rightarrow> flag_enable (write_access L) (flag_enable (read_access L) e)
      | read_execute \<Rightarrow> flag_enable (execute_access L) (flag_enable (read_access L) e)
      | read_write_execute \<Rightarrow>
          flag_enable (execute_access L) (flag_enable (write_access L) (flag_enable (read_access L) e)))"

definition set_cache :: "leaf_layout \<Rightarrow> memory_type_t \<Rightarrow> u64 \<Rightarrow> u64" where
  "set_cache L cache e = field_set (memory_type L) (memory_type_value cache) e"

definition ept_pdpte :: "u64 \<Rightarrow> attr_type \<Rightarrow> memory_type_t \<Rightarrow> u64 \<Rightarrow> u64" where
  "ept_pdpte pa attr cache e =
     flag_enable (ps pdpt_entry)
       (set_cache pdpt_entry cache (set_attr pdpt_entry attr (field_set (phys_addr pdpt_entry) pa e)))"

definition ept_pde :: "u64 \<Rightarrow> attr_type \<Rightarrow> memory_type_t \<Rightarrow> u64 \<Rightarrow> u64" where
  "ept_pde pa attr cache e =
     flag_enable (ps pd_entry)
       (set_cache pd_entry cache (set_attr pd_entry attr (field_set (phys_addr pd_entry) pa e)))"

definition ept_pte :: "u64 \<Rightarrow> attr_type \<Rightarrow> memory_type_t \<Rightarrow> u64 \<Rightarrow> u64" where
  "ept_pte pa attr cache e =
     set_cache pt_entry cache (set_attr pt_entry attr (field_set (phys_addr pt_entry) pa e))"

definition link_entry :: "('a) entry_layout_scheme \<Rightarrow> u64 \<Rightarrow> u64 \<Rightarrow> u64" where
  "link_entry L pa e =
     flag_enable (execute_access L) (flag_enable (write_access L) (flag_enable (read_access L) (field_set (phys_addr L) pa e)))"

definition ept_link :: "level \<Rightarrow> u64 \<Rightarrow> u64 \<Rightarrow> u64" where
  "ept_link l pa e =
     (case l of PML4 \<Rightarrow> link_entry pml4_entry pa e | PDPT \<Rightarrow> link_entry pdpt_entry pa e
      | PD \<Rightarrow> link_entry pd_entry pa e | PT \<Rightarrow> e)"

definition ept_phys :: "level \<Rightarrow> u64 \<Rightarrow> u64" where
  "ept_phys l e =
     (case l of PML4 \<Rightarrow> field_get (phys_addr pml4_entry) e | PDPT \<Rightarrow> field_get (phys_addr pdpt_entry) e
      | PD \<Rightarrow> field_get (phys_addr pd_entry) e | PT \<Rightarrow> field_get (phys_addr pt_entry) e)"

text \<open>The first level has no large pages.\<close>

definition ept_ps :: "level \<Rightarrow> u64 \<Rightarrow> bool" where
  "ept_ps l e =
     (case l of PML4 \<Rightarrow> False | PDPT \<Rightarrow> flag_is_enabled (ps pdpt_entry) e
      | PD \<Rightarrow> flag_is_enabled (ps pd_entry) e | PT \<Rightarrow> flag_is_enabled (ps pt_entry) e)"

definition ept_paging :: "memory_manager paging" where
  "ept_paging =
     \<lparr>op_alloc = op_alloc mm_page_ops, op_free = op_free mm_page_ops, op_v2p = op_v2p mm_page_ops, op_p2v = op_p2v mm_page_ops,
      tf_phys = ept_phys, tf_ps = ept_ps, tf_link = ept_link\<rparr>"

section \<open>Operations\<close>

definition ept_map_1g :: "u64 \<Rightarrow> u64 \<Rightarrow> attr_type \<Rightarrow> memory_type_t \<Rightarrow> (memory_manager tables, eref) op" where
  "ept_map_1g va pa attr cache = map_1g ept_paging va (ept_pdpte pa attr cache)"

definition ept_map_2m :: "u64 \<Rightarrow> u64 \<Rightarrow> attr_type \<Rightarrow> memory_type_t \<Rightarrow> (memory_manager tables, eref) op" where
  "ept_map_2m va pa attr cache = map_2m ept_paging va (ept_pde pa attr cache)"

definition ept_map_4k :: "u64 \<Rightarrow> u64 \<Rightarrow> attr_type \<Rightarrow> memory_type_t \<Rightarrow> (memory_manager tables, eref) op" where
  "ept_map_4k va pa attr cache = map_4k ept_paging va (ept_pte pa attr cache)"

section \<open>The bits of an entry\<close>

lemma bit_phys_mask: "bit (0x0000FFFFFFFFF000 :: u64) n \<longleftrightarrow> 12 \<le> n \<and> n < 48"
proof -
  have "(0x0000FFFFFFFFF000 :: u64) = push_bit 12 (mask 36)" by (simp add: mask_eq_exp_minus_1 push_bit_eq_mult)
  then show ?thesis by (simp only: bit_push_bit_iff bit_mask_iff) auto
qed

lemma bit_type_mask: "bit (0x0000000000000038 :: u64) n \<longleftrightarrow> 3 \<le> n \<and> n < 6"
proof -
  have "(0x0000000000000038 :: u64) = push_bit 3 (mask 3)" by (simp add: mask_eq_exp_minus_1 push_bit_eq_mult)
  then show ?thesis by (simp only: bit_push_bit_iff bit_mask_iff) auto
qed

lemma bit_memory_type: "bit (memory_type_value c) n \<longleftrightarrow>
    (n = 0 \<and> c \<in> {write_combining, write_protected}) \<or> (n = 1 \<and> c = write_back) \<or>
    (n = 2 \<and> c \<in> {write_through, write_protected, write_back})"
proof (cases "n < 3")
  case True
  then consider "n = 0" | "n = 1" | "n = 2" by linarith
  then show ?thesis by cases (simp_all add: memory_type_value_def split: memory_type_t.splits)
next
  case False
  have "take_bit 3 (memory_type_value c) = memory_type_value c" by (cases c) (simp_all add: memory_type_value_def)
  then show ?thesis using False bit_take_bit_iff[of 3 "memory_type_value c" n] by auto
qed

definition attr_bit :: "attr_type \<Rightarrow> nat \<Rightarrow> bool" where
  "attr_bit attr n \<longleftrightarrow>
     (n = 0 \<and> attr \<in> {read_only, read_write, read_execute, read_write_execute}) \<or>
     (n = 1 \<and> attr \<in> {write_only, read_write, read_write_execute}) \<or>
     (n = 2 \<and> attr \<in> {execute_only, read_execute, read_write_execute})"

definition leaf_bit :: "u64 \<Rightarrow> attr_type \<Rightarrow> memory_type_t \<Rightarrow> nat \<Rightarrow> bool" where
  "leaf_bit pa attr c n \<longleftrightarrow>
     (if n < 3 then attr_bit attr n else if n < 6 then bit (memory_type_value c) (n - 3) else 12 \<le> n \<and> n < 48 \<and> bit pa n)"

lemma bit_set_attr:
  assumes "L \<in> {pdpt_entry, pd_entry, pt_entry}"
  shows "bit (set_attr L attr e) n \<longleftrightarrow> bit e n \<or> attr_bit attr n"
  using assms by (cases attr) (auto simp: set_attr_def attr_bit_def flag_enable_def dest: bit_imp_le_length)

lemma bit_set_cache:
  assumes "L \<in> {pdpt_entry, pd_entry, pt_entry}"
  shows "bit (set_cache L c e) n \<longleftrightarrow> (if 3 \<le> n \<and> n < 6 then bit (memory_type_value c) (n - 3) else bit e n)"
  using assms by (auto simp: set_cache_def field_set_def bit_type_mask bit_push_bit_iff simp del: bit_numeral_word_iff)

lemma bit_field_set_phys:
  "bit (field_set \<lparr>bf_mask = 0x0000FFFFFFFFF000, bf_from = 0\<rparr> pa 0) n \<longleftrightarrow> 12 \<le> n \<and> n < 48 \<and> bit pa n"
  by (auto simp: field_set_def bit_phys_mask simp del: bit_numeral_word_iff)

lemma bit_leaf:
  assumes "L \<in> {pdpt_entry, pd_entry, pt_entry}" "phys_addr L = \<lparr>bf_mask = 0x0000FFFFFFFFF000, bf_from = 0\<rparr>"
  shows "bit (set_cache L c (set_attr L attr (field_set (phys_addr L) pa 0))) n \<longleftrightarrow> leaf_bit pa attr c n"
  unfolding bit_set_cache[OF assms(1)] bit_set_attr[OF assms(1)] assms(2) bit_field_set_phys
  by (auto simp: leaf_bit_def attr_bit_def)

lemma bit_ept_leaf:
  "bit (ept_pdpte pa attr c 0) n \<longleftrightarrow> leaf_bit pa attr c n \<or> n = 7"
  "bit (ept_pde pa attr c 0) n \<longleftrightarrow> leaf_bit pa attr c n \<or> n = 7"
  "bit (ept_pte pa attr c 0) n \<longleftrightarrow> leaf_bit pa attr c n"
proof -
  have l: "leaf_bit pa attr c n \<Longrightarrow> n < 64" by (auto simp: leaf_bit_def split: if_splits)
  show "bit (ept_pdpte pa attr c 0) n \<longleftrightarrow> leaf_bit pa attr c n \<or> n = 7"
    using bit_leaf[of pdpt_entry c attr pa n] l by (auto simp: ept_pdpte_def flag_enable_def)
  show "bit (ept_pde pa attr c 0) n \<longleftrightarrow> leaf_bit pa attr c n \<or> n = 7"
    using bit_leaf[of pd_entry c attr pa n] l by (auto simp: ept_pde_def flag_enable_def)
  show "bit (ept_pte pa attr c 0) n \<longleftrightarrow> leaf_bit pa attr c n"
    using bit_leaf[of pt_entry c attr pa n] by (auto simp: ept_pte_def)
qed

lemma ept_ps_iff [simp]: "ept_ps l e \<longleftrightarrow> l \<noteq> PML4 \<and> bit e 7"
  by (cases l) (simp_all add: ept_ps_def flag_is_enabled_def)

lemma bit_ept_phys [simp]: "bit (ept_phys l e) n \<longleftrightarrow> 12 \<le> n \<and> n < 48 \<and> bit e n"
  by (cases l) (auto simp: ept_phys_def field_get_def bit_phys_mask simp del: bit_numeral_word_iff)

lemma bit_ept_link: "l \<noteq> PT \<Longrightarrow> bit (ept_link l pa 0) n \<longleftrightarrow> n < 3 \<or> (12 \<le> n \<and> n < 48 \<and> bit pa n)"
  by (cases l) (auto simp: ept_link_def link_entry_def flag_enable_def bit_field_set_phys dest: bit_imp_le_length)

section \<open>The tables on the memory manager\<close>

interpretation ept: page_tables "paging_inv k base V" page_live ept_paging "{Null_deref}" "frame_of V" "set (pool_pages k base)"
proof (rule mm_page_tables)
  fix d pa assume d: "d < (3 :: nat)" and pa: "\<And>n. bit (pa :: u64) n \<Longrightarrow> 12 \<le> n \<and> n < 48"
  have l: "level_at d \<noteq> PT" using d by (auto simp: numeral_eq_Suc less_Suc_eq)
  let ?e = "ept_link (level_at d) pa 0"
  have "bit ?e 0" using l by (simp add: bit_ept_link)
  then have "?e \<noteq> 0" by auto
  then show "is_table ept_paging d (tf_link ept_paging (level_at d) pa 0)"
    using d l by (simp add: is_table_def ept_paging_def bit_ept_link)
  show "tf_phys ept_paging (level_at d) (tf_link ept_paging (level_at d) pa 0) = pa"
    by (rule u64_eqI) (use l pa in \<open>auto simp: ept_paging_def bit_ept_link\<close>)
qed (simp_all add: ept_paging_def)

end
