(* ===== verification/Ept_Properties.thy ===== *)
theory Ept_Properties
  imports Ept_Map
begin

text \<open>
  The properties of the extended page tables, over the memory manager as their source of pages.
\<close>

section \<open>States\<close>

definition ept_leaf :: "level \<Rightarrow> u64 \<times> attr_type \<times> memory_type_t \<Rightarrow> u64 \<Rightarrow> u64" where
  "ept_leaf l x e =
     (case x of (pa, attr, cache) \<Rightarrow>
      case l of PDPT \<Rightarrow> ept_pdpte pa attr cache e | PD \<Rightarrow> ept_pde pa attr cache e | _ \<Rightarrow> ept_pte pa attr cache e)"

text \<open>
  The state \<open>s\<close> has the tables \<open>T\<close> and maps what \<open>A\<close> says; \<open>G\<close> are the blocks
  of the page pool that others hold.
\<close>

definition ept_maps ::
  "nat \<Rightarrow> u64 \<Rightarrow> (u64 \<times> virt_t) list \<Rightarrow> (nat \<times> nat) set \<Rightarrow> (nat list \<Rightarrow> u64 option) \<Rightarrow> (nat list \<Rightarrow> u64 option) \<Rightarrow>
     memory_manager tables \<Rightarrow> bool" where
  "ept_maps k base V G T A s \<longleftrightarrow>
     pt_inv (paging_inv k base V) page_live ept_paging (frame_of V) (set (pool_pages k base)) G {} T A s"

definition pool_full :: "nat \<Rightarrow> u64 \<Rightarrow> memory_manager tables \<Rightarrow> bool" where
  "pool_full k base s \<longleftrightarrow> pages_full (set (pool_pages k base)) (page_live (snd s))"

lemma exhausted_iff: "x \<in> ept.exhausted k base s \<longleftrightarrow> x = Null_deref \<and> pool_full k base s"
  by (auto simp: ept.exhausted_def pool_full_def)

lemma ept_leaf_ok: "\<not> is_table ept_paging 1 (ept_leaf PDPT x 0)" "\<not> is_table ept_paging 2 (ept_leaf PD x 0)"
  by (cases x; simp add: is_table_def ept_leaf_def ept_paging_def bit_ept_leaf)+

lemma ept_leaf_apply [simp]:
  "ept_leaf PDPT (pa, attr, c) = ept_pdpte pa attr c" "ept_leaf PD (pa, attr, c) = ept_pde pa attr c" "ept_leaf PT (pa, attr, c) = ept_pte pa attr c"
  by (simp_all add: ept_leaf_def fun_eq_iff)

lemma ept_pte_ok: "\<not> is_table ept_paging 1 (ept_pdpte pa attr c 0)" "\<not> is_table ept_paging 2 (ept_pde pa attr c 0)"
  using ept_leaf_ok[of "(pa, attr, c)"] by (simp_all add: ept_leaf_def)

section \<open>Sequences of calls\<close>

lemma ept_run_maps:
  assumes "paging_inv k base V p" "make_mmap ept_paging (m, p) = (Inr (), s0)" "table_run ept_paging ept_leaf s0 A s"
  shows "\<exists>T. ept_maps k base V (page_live p) T A s"
proof -
  obtain q where q: "pt_inv (paging_inv k base V) page_live ept_paging (frame_of V) (set (pool_pages k base))
      (page_live p) {} [[] \<mapsto> q] (\<lambda>\<pi>. None) s0"
    using ept.make_mmap_result[of k base V "(m, p)"] assms(1,2) by auto
  show ?thesis using ept.run_inv[OF assms(3) q ept_leaf_ok] by (auto simp: ept_maps_def)
qed




section \<open>Mapping a page\<close>

lemma ept_phys_of:
  assumes "\<And>n. bit e n \<longleftrightarrow> leaf_bit pa attr c n \<or> n = 7 \<and> B" "lower pa = 0" "pa < 0x1000000000000"
  shows "ept_phys l e = pa"
proof (rule u64_eqI)
  fix n
  have "unat pa < 2 ^ 48" using assms(3) by (simp add: word_less_nat_alt)
  then have "take_bit 48 pa = pa" by (metis take_bit_nat_eq_self_iff unsigned_take_bit_eq word_unat_eq_iff)
  then have "n < 48" if "bit pa n" using that by (metis bit_take_bit_iff)
  moreover have "12 \<le> n" if "bit pa n" using that arg_cong[OF assms(2), of "\<lambda>w. bit w n"] by auto
  ultimately show "bit (ept_phys l e) n \<longleftrightarrow> bit pa n" by (auto simp: assms(1) leaf_bit_def)
qed

lemma ept_translate:
  assumes "ept_maps k base V G T A s" "lookup A va = Some (d, e)"
  shows "fst (virt_to_phys ept_paging va s) = Inr (ept_phys (level_at (d - 1)) e)"
  using ept.virt_to_phys_result(2)[OF assms(1)[unfolded ept_maps_def] assms(2)] by (simp add: ept_paging_def)

lemma ept_no_table_below_4k: "ept_maps k base V G T A s \<Longrightarrow> T (va_path va) = None"
  using tables_depth[OF ept.inv_ok, of k base V G "{}" T A s "va_path va"]
  by (cases "T (va_path va)") (auto simp: ept_maps_def)



text \<open>
  C21. \<open>map_1g\<close> likewise, for a page of one gigabyte and with no condition on what is
  mapped before.
\<close>

theorem ept_map_1g_spec:
  assumes "ept_maps k base V G T A s" "lower pa = 0" "pa < 0x1000000000000" "ept_map_1g va pa attr c s = (r, s')"
  shows "case r of
      Inl x \<Rightarrow> (x = Runtime_error \<and> (A (take 2 (va_path va)) \<noteq> None \<or> T (take 2 (va_path va)) \<noteq> None) \<or>
          x = Null_deref \<and> pool_full k base s') \<and> (\<exists>T'. ept_maps k base V G T' A s')
    | Inr (q, i) \<Rightarrow> mem (fst s') q i = ept_pdpte pa attr c 0 \<and>
        (\<forall>w. take 2 (va_path w) = take 2 (va_path va) \<longrightarrow> fst (virt_to_phys ept_paging w s') = Inr pa) \<and>
        (\<exists>T' A'. ept_maps k base V G T' A' s' \<and>
          (\<forall>w. lookup A' w = (if take 2 (va_path w) = take 2 (va_path va) then Some (2, ept_pdpte pa attr c 0) else lookup A w)))"
proof -
  let ?e = "ept_pdpte pa attr c 0"
  have "bit ?e 7" by (simp add: bit_ept_leaf)
  then have nz: "?e \<noteq> 0" by auto
  have p: "[pml4_index va] @ [pdpt_index va] = take 2 (va_path va)" by simp
  note R = ept.map_1g_result[OF assms(1)[unfolded ept_maps_def] ept_pte_ok(1) assms(4)[unfolded ept_map_1g_def],
      unfolded ept.map_result_def p, folded ept_maps_def]
  show ?thesis
  proof (cases r)
    case (Inl x)
    then show ?thesis using R by (auto simp: exhausted_iff)
  next
    case (Inr y)
    then obtain q T' where y: "y = (q, pdpt_index va)" "ept_maps k base V G T' (A(take 2 (va_path va) \<mapsto> ?e)) s'"
      "mem (fst s') q (pdpt_index va) = ?e" using R nz by (cases y) auto
    note L = lookup_map_1g[of A va ?e]
    have "fst (virt_to_phys ept_paging w s') = Inr pa" if "take 2 (va_path w) = take 2 (va_path va)" for w
    proof -
      have "lookup (A(take 2 (va_path va) \<mapsto> ?e)) w = Some (2, ?e)" using L[of w] that by (simp only: if_True simp_thms)
      from ept_translate[OF y(2) this] show ?thesis
        using ept_phys_of[of ?e pa attr c True "level_at 1"] assms(2,3) by (simp add: bit_ept_leaf)
    qed
    moreover have "\<exists>T' A'. ept_maps k base V G T' A' s' \<and>
        (\<forall>w. lookup A' w = (if take 2 (va_path w) = take 2 (va_path va) then Some (2, ?e) else lookup A w))" using y(2) L by blast
    ultimately show ?thesis using y(1,3) Inr by (simp del: va_path_take)
  qed
qed

section \<open>Removing a page\<close>

text \<open>
  C22. \<open>unmap\<close> removes the page that maps the address, whatever its size, and no other
  page: the addresses of that page are mapped no more, all others as before.
\<close>

theorem ept_unmap_spec:
  assumes "ept_maps k base V G T A s" "unmap ept_paging va s = (r, s')"
  shows "case r of
      Inl x \<Rightarrow> x = Null_deref \<and> pool_full k base s' \<and> lookup A va = None \<and> (\<exists>T'. ept_maps k base V G T' A s')
    | Inr u \<Rightarrow> \<exists>T' A'. ept_maps k base V G T' A' s' \<and> (\<forall>w. lookup A' w =
        (case lookup A va of None \<Rightarrow> lookup A w
         | Some (d, e) \<Rightarrow> if take d (va_path w) = take d (va_path va) then None else lookup A w))"
proof -
  note L = ept.lookup_unmapped_at[OF assms(1)[unfolded ept_maps_def]]
  from ept.unmap_result[OF assms(1)[unfolded ept_maps_def] assms(2), folded ept_maps_def]
  show ?thesis using L[of va] by (cases r) (auto simp: exhausted_iff simp del: va_path_take)
qed

text \<open>
  C23. \<open>release\<close> of an address removes the page that maps it just as \<open>unmap\<close>
  does, although its documentation says that it has no effect on an address that is still mapped; and
  it leaves no empty table on the path to the address.
\<close>

theorem ept_release_spec:
  assumes "ept_maps k base V G T A s" "release ept_paging va s = (Inr (), s')"
  shows "\<exists>T' A'. ept_maps k base V G T' A' s' \<and> pruned T' (fst s') va \<and> lookup A' va = None \<and> (\<forall>w. lookup A' w =
      (case lookup A va of None \<Rightarrow> lookup A w
       | Some (d, e) \<Rightarrow> if take d (va_path w) = take d (va_path va) then None else lookup A w))"
proof -
  note L = ept.lookup_unmapped_at[OF assms(1)[unfolded ept_maps_def], of va]
  obtain T' where T': "ept_maps k base V G T' (unmapped_at A va) s'" "pruned T' (fst s') va"
    using ept.release_result[OF assms(1)[unfolded ept_maps_def] assms(2), folded ept_maps_def] by auto
  moreover have "lookup (unmapped_at A va) va = None" using L[of va] by (auto split: option.splits)
  ultimately show ?thesis using L by blast
qed

section \<open>Entries\<close>

lemma flag_leaf: "flag_is_enabled n e \<longleftrightarrow> bit e n"
  by (simp add: flag_is_enabled_def)

lemma field_get_type:
  assumes "\<And>n. bit e n \<longleftrightarrow> leaf_bit pa attr c n \<or> n = 7 \<and> B"
  shows "field_get \<lparr>bf_mask = 0x38, bf_from = 3\<rparr> e = memory_type_value c"
proof (rule u64_eqI)
  fix n
  have "bit (memory_type_value c) n \<Longrightarrow> n < 3" by (auto simp: bit_memory_type)
  then show "bit (field_get \<lparr>bf_mask = 0x38, bf_from = 3\<rparr> e) n \<longleftrightarrow> bit (memory_type_value c) n"
    by (auto simp: field_get_def bit_drop_bit_eq bit_type_mask assms leaf_bit_def simp del: bit_numeral_word_iff)
qed

definition grants :: "leaf_layout \<Rightarrow> u64 \<Rightarrow> attr_type \<Rightarrow> memory_type_t \<Rightarrow> bool \<Rightarrow> bool" where
  "grants L e attr c large \<longleftrightarrow>
     (flag_is_enabled (read_access L) e \<longleftrightarrow> attr \<in> {read_only, read_write, read_execute, read_write_execute}) \<and>
     (flag_is_enabled (write_access L) e \<longleftrightarrow> attr \<in> {write_only, read_write, read_write_execute}) \<and>
     (flag_is_enabled (execute_access L) e \<longleftrightarrow> attr \<in> {execute_only, read_execute, read_write_execute}) \<and>
     field_get (memory_type L) e = memory_type_value c \<and> (flag_is_enabled (ps L) e \<longleftrightarrow> large)"

text \<open>
  C24. The entry of a page grants exactly the access asked for, at every page size: it is readable,
  writable and executable as the attribute says, its memory type is the one given, and it is a
  large page unless it is in a table of the last level.
\<close>

theorem ept_entry_access:
  "grants pdpt_entry (ept_pdpte pa attr c 0) attr c True \<and> grants pd_entry (ept_pde pa attr c 0) attr c True \<and>
   grants pt_entry (ept_pte pa attr c 0) attr c False"
proof -
  have 1: "field_get \<lparr>bf_mask = 0x38, bf_from = 3\<rparr> (ept_pdpte pa attr c 0) = memory_type_value c"
    by (rule field_get_type[where B = True]) (simp add: bit_ept_leaf)
  have 2: "field_get \<lparr>bf_mask = 0x38, bf_from = 3\<rparr> (ept_pde pa attr c 0) = memory_type_value c"
    by (rule field_get_type[where B = True]) (simp add: bit_ept_leaf)
  have 3: "field_get \<lparr>bf_mask = 0x38, bf_from = 3\<rparr> (ept_pte pa attr c 0) = memory_type_value c"
    by (rule field_get_type[where B = False]) (simp add: bit_ept_leaf)
  show ?thesis by (auto simp: 1 2 3 grants_def flag_leaf bit_ept_leaf leaf_bit_def attr_bit_def)
qed


section \<open>Concrete runs\<close>

text \<open>A new map, and the same map with one page of each size.\<close>

definition ept0 :: "memory_manager tables" where
  "ept0 = snd (make_mmap ept_paging (no_tables, mm4))"

definition ept1g :: "memory_manager tables" where
  "ept1g = snd (ept_map_1g 0x40000000 0x80000000 read_only write_back ept0)"

definition ept2m :: "memory_manager tables" where
  "ept2m = snd (ept_map_2m 0x200000 0x800000 read_write write_back ept0)"

definition ept4k :: "memory_manager tables" where
  "ept4k = snd (ept_map_4k 0x3000 0xABC000 execute_only uncacheable ept0)"

lemmas ept_ops = ept_paging_def mm4_ops

lemma ept0_eq: "make_mmap ept_paging (no_tables, mm4) =
    (Inr (), (\<lparr>m_tab = (\<lambda>l. null_pair)(PML4 := \<lparr>pr_virt = 0x100000, pr_phys = 0\<rparr>), mem = (\<lambda>q i. 0)\<rparr>, mm4a))"
  by (simp add: make_mmap_def allocate_span_def table_steps ept_ops no_tables_def fun_upd_idem)

lemma ept0_run: "make_mmap ept_paging (no_tables, mm4) = (Inr (), ept0)"
  by (simp add: ept0_def ept0_eq)

lemma ept0_state: "ept0 = (\<lparr>m_tab = (\<lambda>l. null_pair)(PML4 := \<lparr>pr_virt = 0x100000, pr_phys = 0\<rparr>), mem = (\<lambda>q i. 0)\<rparr>, mm4a)"
  by (simp add: ept0_def ept0_eq)

lemma ept0_maps: "\<exists>q. ept_maps 2 0x100000 map4 {} [[] \<mapsto> q] Map.empty ept0"
  using ept.make_mmap_result[of 2 "0x100000" map4 "(no_tables, mm4)"] mm4_inv ept0_run mm4_live by (auto simp: ept_maps_def)

lemma ept1g_run: "ept_map_1g 0x40000000 0x80000000 read_only write_back ept0 = (Inr (0x101000, 1), ept1g)"
  unfolding ept1g_def prod_eq_iff fst_conv snd_conv
  by (simp add: ept_map_1g_def map_1g_def map_leaf_def map_pdpt_def table_steps ept0_state ept_ops) (simp add: index_defs)

lemma ept2m_run: "ept_map_2m 0x200000 0x800000 read_write write_back ept0 = (Inr (0x102000, 1), ept2m)"
  unfolding ept2m_def prod_eq_iff fst_conv snd_conv
  by (simp add: ept_map_2m_def map_2m_def map_leaf_def map_pdpt_def map_pd_def table_steps ept0_state ept_ops) (simp add: index_defs)

lemma ept4k_run: "ept_map_4k 0x3000 0xABC000 execute_only uncacheable ept0 = (Inr (0x103000, 3), ept4k)"
  unfolding ept4k_def prod_eq_iff fst_conv snd_conv
  by (simp add: ept_map_4k_def map_4k_def map_leaf_def map_pdpt_def map_pd_def map_pt_def table_steps ept0_state ept_ops) (simp add: index_defs)

text \<open>The map of \<open>ept4k\<close> and \<open>ept1g\<close>, as runs from the new map.\<close>

abbreviation map_of_4k :: "nat list \<Rightarrow> u64 option" where
  "map_of_4k \<equiv> [va_path 0x3000 \<mapsto> ept_pte 0xABC000 execute_only uncacheable 0]"

abbreviation map_of_1g :: "nat list \<Rightarrow> u64 option" where
  "map_of_1g \<equiv> [take 2 (va_path 0x40000000) \<mapsto> ept_pdpte 0x80000000 read_only write_back 0]"

lemma ept_entries_nz: "ept_pte 0xABC000 execute_only uncacheable 0 \<noteq> 0" "ept_pdpte 0x80000000 read_only write_back 0 \<noteq> 0"
  "ept_pde 0x800000 read_write write_back 0 \<noteq> 0"
  by code_simp+

lemma ept4k_table_run: "table_run ept_paging ept_leaf ept0 map_of_4k ept4k"
proof -
  have "exec ept_paging ept_leaf (Map_4k 0x3000 (0xABC000, execute_only, uncacheable)) ept0 = (Inr (), ept4k)"
    using ept4k_run by (simp add: exec_def ept_map_4k_def bindE_unit)
  from run_ok[OF run_start _ this] show ?thesis
    using ept_entries_nz(1) by (simp add: abs_call_def legal_def)
qed

lemma ept1g_table_run: "table_run ept_paging ept_leaf ept0 map_of_1g ept1g"
proof -
  have "exec ept_paging ept_leaf (Map_1g 0x40000000 (0x80000000, read_only, write_back)) ept0 = (Inr (), ept1g)"
    using ept1g_run by (simp add: exec_def ept_map_1g_def bindE_unit)
  from run_ok[OF run_start _ this] show ?thesis
    using ept_entries_nz(2) by (simp add: abs_call_def legal_def)
qed

lemma ept1g_maps: "\<exists>T. ept_maps 2 0x100000 map4 {} T map_of_1g ept1g"
  using ept_run_maps[OF mm4_inv ept0_run ept1g_table_run] mm4_live by simp

lemma ept1g_lookup: "lookup map_of_1g 0x40001000 = Some (2, ept_pdpte 0x80000000 read_only write_back 0)"
  by (simp add: lookup_def va_path_def index_defs)



lemma ept0_lookup_fails: "fst (exec ept_paging ept_leaf (Virt_to_phys 0x5000) ept0) = Inl Runtime_error"
  by (simp add: exec_def virt_to_phys_def find_entry_def map_pdpt_def table_steps throwE_def ept0_state ept_ops)




theorem ept_map_1g_spec_witness:
  "fst (ept_map_1g 0x40000000 0x80000000 read_only write_back ept0) = Inr (0x101000, 1) \<and> fst (virt_to_phys ept_paging 0x40001000 ept1g) = Inr 0x80000000"
proof -
  obtain q where q: "ept_maps 2 0x100000 map4 {} [[] \<mapsto> q] Map.empty ept0" using ept0_maps by blast
  have l: "lower 0x80000000 = 0" by code_simp
  have "take 2 (va_path 0x40001000) = take 2 (va_path 0x40000000)" by (simp add: va_path_def index_defs)
  then show ?thesis using ept_map_1g_spec[OF q l _ ept1g_run] ept1g_run by simp
qed

theorem ept_unmap_spec_witness:
  "\<exists>s' T' A'. unmap ept_paging 0x40001000 ept1g = (Inr (), s') \<and> ept_maps 2 0x100000 map4 {} T' A' s' \<and> lookup A' 0x40000000 = None"
proof -
  obtain T where T: "ept_maps 2 0x100000 map4 {} T map_of_1g ept1g" using ept1g_maps by blast
  obtain r s' where r: "unmap ept_paging 0x40001000 ept1g = (r, s')" by (rule prod.exhaust)
  have p: "take 2 (va_path 0x40000000) = take 2 (va_path 0x40001000)" by (simp add: va_path_def index_defs)
  from ept_unmap_spec[OF T r] show ?thesis
  proof (cases r)
    case (Inr u)
    from ept_unmap_spec[OF T r] obtain T' A' where "ept_maps 2 0x100000 map4 {} T' A' s'" "\<forall>w. lookup A' w =
        (if take 2 (va_path w) = take 2 (va_path 0x40001000) then None else lookup map_of_1g w)"
      unfolding Inr ept1g_lookup by auto
    moreover from this(2) have "lookup A' 0x40000000 = None" by (simp only: p if_True simp_thms)
    moreover have "r = Inr ()" using Inr by simp
    ultimately show ?thesis using r by blast
  qed (simp add: ept1g_lookup del: va_path_take)
qed

theorem ept_release_spec_witness:
  "\<exists>s' T' A'. release ept_paging 0x40001000 ept1g = (Inr (), s') \<and> ept_maps 2 0x100000 map4 {} T' A' s' \<and> lookup A' 0x40001000 = None"
proof -
  obtain T where T: "ept_maps 2 0x100000 map4 {} T map_of_1g ept1g" using ept1g_maps by blast
  obtain r s' where r: "release ept_paging 0x40001000 ept1g = (r, s')" by (rule prod.exhaust)
  then have "r = Inr ()"
    using ept.release_result[OF T[unfolded ept_maps_def] r] by (cases r) (simp_all add: ept1g_lookup del: va_path_take)
  then show ?thesis using ept_release_spec[OF T, of "0x40001000" s'] r by blast
qed

lemma ept2m_maps: "\<exists>T. ept_maps 2 0x100000 map4 {} T [take 3 (va_path 0x200000) \<mapsto> ept_pde 0x800000 read_write write_back 0] ept2m"
proof -
  have "exec ept_paging ept_leaf (Map_2m 0x200000 (0x800000, read_write, write_back)) ept0 = (Inr (), ept2m)"
    using ept2m_run by (simp add: exec_def ept_map_2m_def bindE_unit)
  from run_ok[OF run_start _ this] have "table_run ept_paging ept_leaf ept0 [take 3 (va_path 0x200000) \<mapsto> ept_pde 0x800000 read_write write_back 0] ept2m"
    using ept_entries_nz(3) by (simp add: abs_call_def legal_def)
  from ept_run_maps[OF mm4_inv ept0_run this] show ?thesis using mm4_live by simp
qed


end
