(* ===== verification/Ept_Helpers.thy ===== *)
theory Ept_Helpers
  imports Ept_Properties
begin

text \<open>
  The identity maps of the extended page tables,
  \<open>src/extended_apis/bfvmm/include/hve/arch/intel_x64/ept/helpers.h\<close>, over the memory
  manager, and what the two conversions between small and large pages do to a map.
\<close>

section \<open>Operations\<close>

definition ept_identity_map_1g :: "u64 \<Rightarrow> u64 \<Rightarrow> attr_type \<Rightarrow> memory_type_t \<Rightarrow> (memory_manager tables, unit) op" where
  "ept_identity_map_1g saddr eaddr attr cache = identity_map_1g ept_paging (\<lambda>l gpa. ept_leaf l (gpa, attr, cache)) saddr eaddr"

definition ept_identity_map_2m :: "u64 \<Rightarrow> u64 \<Rightarrow> attr_type \<Rightarrow> memory_type_t \<Rightarrow> (memory_manager tables, unit) op" where
  "ept_identity_map_2m saddr eaddr attr cache = identity_map_2m ept_paging (\<lambda>l gpa. ept_leaf l (gpa, attr, cache)) saddr eaddr"

definition ept_identity_map_4k :: "u64 \<Rightarrow> u64 \<Rightarrow> attr_type \<Rightarrow> memory_type_t \<Rightarrow> (memory_manager tables, unit) op" where
  "ept_identity_map_4k saddr eaddr attr cache = identity_map_4k ept_paging (\<lambda>l gpa. ept_leaf l (gpa, attr, cache)) saddr eaddr"

definition ept_identity_unmap_1g :: "u64 \<Rightarrow> u64 \<Rightarrow> (memory_manager tables, unit) op" where
  "ept_identity_unmap_1g = identity_unmap_1g ept_paging"

definition ept_identity_unmap_2m :: "u64 \<Rightarrow> u64 \<Rightarrow> (memory_manager tables, unit) op" where
  "ept_identity_unmap_2m = identity_unmap_2m ept_paging"

definition ept_identity_unmap_4k :: "u64 \<Rightarrow> u64 \<Rightarrow> (memory_manager tables, unit) op" where
  "ept_identity_unmap_4k = identity_unmap_4k ept_paging"

definition ept_identity_release_1g :: "u64 \<Rightarrow> u64 \<Rightarrow> (memory_manager tables, unit) op" where
  "ept_identity_release_1g = identity_release_1g ept_paging"

definition ept_identity_release_2m :: "u64 \<Rightarrow> u64 \<Rightarrow> (memory_manager tables, unit) op" where
  "ept_identity_release_2m = identity_release_2m ept_paging"

definition ept_identity_release_4k :: "u64 \<Rightarrow> u64 \<Rightarrow> (memory_manager tables, unit) op" where
  "ept_identity_release_4k = identity_release_4k ept_paging"

definition ept_identity_map_convert_1g_to_2m :: "u64 \<Rightarrow> attr_type \<Rightarrow> memory_type_t \<Rightarrow> (memory_manager tables, unit) op" where
  "ept_identity_map_convert_1g_to_2m addr attr cache = identity_map_convert_1g_to_2m ept_paging (\<lambda>l gpa. ept_leaf l (gpa, attr, cache)) addr"

definition ept_identity_map_convert_1g_to_4k :: "u64 \<Rightarrow> attr_type \<Rightarrow> memory_type_t \<Rightarrow> (memory_manager tables, unit) op" where
  "ept_identity_map_convert_1g_to_4k addr attr cache = identity_map_convert_1g_to_4k ept_paging (\<lambda>l gpa. ept_leaf l (gpa, attr, cache)) addr"

definition ept_identity_map_convert_2m_to_1g :: "u64 \<Rightarrow> attr_type \<Rightarrow> memory_type_t \<Rightarrow> (memory_manager tables, unit) op" where
  "ept_identity_map_convert_2m_to_1g addr attr cache = identity_map_convert_2m_to_1g ept_paging (\<lambda>l gpa. ept_leaf l (gpa, attr, cache)) addr"

definition ept_identity_map_convert_4k_to_1g :: "u64 \<Rightarrow> attr_type \<Rightarrow> memory_type_t \<Rightarrow> (memory_manager tables, unit) op" where
  "ept_identity_map_convert_4k_to_1g addr attr cache = identity_map_convert_4k_to_1g ept_paging (\<lambda>l gpa. ept_leaf l (gpa, attr, cache)) addr"

definition ept_identity_map_convert_2m_to_4k :: "u64 \<Rightarrow> attr_type \<Rightarrow> memory_type_t \<Rightarrow> (memory_manager tables, unit) op" where
  "ept_identity_map_convert_2m_to_4k addr attr cache = identity_map_convert_2m_to_4k ept_paging (\<lambda>l gpa. ept_leaf l (gpa, attr, cache)) addr"

definition ept_identity_map_convert_4k_to_2m :: "u64 \<Rightarrow> attr_type \<Rightarrow> memory_type_t \<Rightarrow> (memory_manager tables, unit) op" where
  "ept_identity_map_convert_4k_to_2m addr attr cache = identity_map_convert_4k_to_2m ept_paging (\<lambda>l gpa. ept_leaf l (gpa, attr, cache)) addr"

section \<open>Properties\<close>

lemma ept_pte_nz:
  assumes "attr \<noteq> none \<or> c \<noteq> uncacheable"
  shows "ept_pte pa attr c 0 \<noteq> 0"
proof
  assume z: "ept_pte pa attr c 0 = 0"
  have b: "\<not> leaf_bit pa attr c n" for n using bit_ept_leaf(3)[of pa attr c n] unfolding z by simp
  have "attr = none" using b[of 0] b[of 1] b[of 2] by (cases attr) (simp_all add: leaf_bit_def attr_bit_def)
  moreover have "c = uncacheable" using b[of 3] b[of 4] b[of 5] by (cases c) (simp_all add: leaf_bit_def bit_memory_type)
  ultimately show False using assms by simp
qed

lemma ept_pde_nz: "ept_pde pa attr c 0 \<noteq> 0"
proof -
  have "bit (ept_pde pa attr c 0) 7" by (simp add: bit_ept_leaf)
  then show ?thesis by auto
qed

text \<open>
  C29. Converting an aligned range from small pages to a large page replaces whatever small pages
  were there: every address of the range is afterwards mapped by one page of two megabytes to itself,
  with the access and memory type given (the access of the small pages is forgotten), every other address keeps its page, and no other
  page of the pool is lost.  The call fails with \<open>std::runtime_error\<close> only when the
  address is not mapped, with a contract violation only when its page is not a small one, or when
  the pool is exhausted.
\<close>

theorem ept_convert_4k_to_2m_spec:
  assumes "ept_maps k base V G T A s" "lower_from addr pd_from = 0" "addr < 0x1000000000000"
    and "ept_identity_map_convert_4k_to_2m addr attr c s = (r, s')"
  shows "case r of
      Inl x \<Rightarrow> (x = Null_deref \<and> pool_full k base s' \<or> x = Runtime_error \<and> lookup A addr = None \<or>
          x = Expects_failed \<and> (\<exists>d e. lookup A addr = Some (d, e) \<and> d \<noteq> 4)) \<and> (\<exists>T' A'. ept_maps k base V G T' A' s')
    | Inr u \<Rightarrow> (\<exists>e. lookup A addr = Some (4, e)) \<and> (\<exists>T' A'. ept_maps k base V G T' A' s' \<and>
        (\<forall>w. lookup A' w = (if take 3 (va_path w) = take 3 (va_path addr) then Some (3, ept_pde addr attr c 0) else lookup A w)))"
proof -
  have mk: "\<not> is_table ept_paging 2 (ept_leaf PD (addr, attr, c) 0)" "ept_leaf PD (addr, attr, c) 0 \<noteq> 0"
    using ept_leaf_ok(2)[of "(addr, attr, c)"] ept_pde_nz by simp_all
  show ?thesis
    using ept.convert_4k_to_2m_result[OF assms(1)[unfolded ept_maps_def] assms(2,3) mk
        assms(4)[unfolded ept_identity_map_convert_4k_to_2m_def], unfolded exhausted_iff ept_leaf_apply, folded ept_maps_def] .
qed

text \<open>
  C30. Converting a page of two megabytes to small pages gives each of the 512 pages of the range its
  own entry, which maps the page to itself with the access and memory type given, and changes no
  other address.  It fails only as the opposite conversion does.
\<close>

theorem ept_convert_2m_to_4k_spec:
  assumes "ept_maps k base V G T A s" "lower_from addr pd_from = 0" "addr < 0x1000000000000" "attr \<noteq> none \<or> c \<noteq> uncacheable"
    and "ept_identity_map_convert_2m_to_4k addr attr c s = (r, s')"
  shows "case r of
      Inl x \<Rightarrow> (x = Null_deref \<and> pool_full k base s' \<or> x = Runtime_error \<and> lookup A addr = None \<or>
          x = Expects_failed \<and> (\<exists>d e. lookup A addr = Some (d, e) \<and> d \<noteq> 3)) \<and> (\<exists>T' A'. ept_maps k base V G T' A' s')
    | Inr u \<Rightarrow> (\<exists>e. lookup A addr = Some (3, e)) \<and> (\<exists>T' A'. ept_maps k base V G T' A' s' \<and>
        (\<forall>g \<in> set (pd_pages addr). \<forall>w. va_path w = va_path g \<longrightarrow> lookup A' w = Some (4, ept_pte g attr c 0)) \<and>
        (\<forall>w. take 3 (va_path w) \<noteq> take 3 (va_path addr) \<longrightarrow> lookup A' w = lookup A w))"
proof -
  have mk: "\<And>g. ept_leaf PT (g, attr, c) 0 \<noteq> 0" using ept_pte_nz[OF assms(4)] by simp
  show ?thesis
    using ept.convert_2m_to_4k_result[OF assms(1)[unfolded ept_maps_def] assms(2,3) mk
        assms(5)[unfolded ept_identity_map_convert_2m_to_4k_def], unfolded exhausted_iff ept_leaf_apply, folded ept_maps_def] .
qed

text \<open>
  C31. The loop of an identity map ends: on a range of whole pages it maps every page of the range once,
  in order, also when the range ends at the top of the address space, and nothing outside of it.
\<close>

theorem ept_identity_map_visits:
  assumes "lower_from saddr pd_from = 0" "lower_from eaddr pd_from = 0"
  shows "ept_identity_map_2m saddr eaddr attr c = forE (gpas saddr eaddr pd_page_size) (\<lambda>g. ignoreE (ept_map_2m g g attr c)) \<and>
    distinct (gpas saddr eaddr pd_page_size) \<and>
    set (gpas saddr eaddr pd_page_size) = {g. lower_from g pd_from = 0 \<and> saddr \<le> g \<and> g < eaddr}"
proof -
  have al: "lower_from a pd_from = 0 \<longleftrightarrow> unat pd_page_size dvd unat a" for a
    using lower_from_dvd[of pd_from a] by (simp add: pd_from_def pd_page_size_def)
  have z: "0 < unat pd_page_size" by (simp add: pd_page_size_def)
  note d = assms[unfolded al]
  have g: "unat pd_page_size dvd unat g" if "g \<in> set (gpas saddr eaddr pd_page_size)" for g
    using gpas_aligned[OF z d(1) that] .
  have "set (gpas saddr eaddr pd_page_size) = {g. lower_from g pd_from = 0 \<and> saddr \<le> g \<and> g < eaddr}"
    unfolding al using gpas_mem[OF z d] g by blast
  then show ?thesis
    using assms gpas_distinct[OF z]
    by (simp add: page_loop_forE[OF z d] ept_identity_map_2m_def identity_map_2m_def ept_map_2m_def)
qed

section \<open>Concrete runs\<close>

definition ept4k_low :: "memory_manager tables" where
  "ept4k_low = snd (ept_map_4k 0x200000 0xABC000 execute_only uncacheable ept0)"

lemma ept4k_low_maps: "\<exists>T. ept_maps 2 0x100000 map4 {} T [va_path 0x200000 \<mapsto> ept_pte 0xABC000 execute_only uncacheable 0] ept4k_low"
proof -
  have "fst (ept_map_4k 0x200000 0xABC000 execute_only uncacheable ept0) = Inr (0x103000, 0)"
    by (simp add: ept_map_4k_def map_4k_def map_leaf_def map_pdpt_def map_pd_def map_pt_def table_steps ept0_state ept_ops) (simp add: index_defs)
  then have "ept_map_4k 0x200000 0xABC000 execute_only uncacheable ept0 = (Inr (0x103000, 0), ept4k_low)"
    unfolding ept4k_low_def prod_eq_iff fst_conv snd_conv by simp
  then have "exec ept_paging ept_leaf (Map_4k 0x200000 (0xABC000, execute_only, uncacheable)) ept0 = (Inr (), ept4k_low)"
    by (simp add: exec_def ept_map_4k_def bindE_unit)
  from run_ok[OF run_start _ this]
  have "table_run ept_paging ept_leaf ept0 [va_path 0x200000 \<mapsto> ept_pte 0xABC000 execute_only uncacheable 0] ept4k_low"
    using ept_entries_nz(1) by (simp add: abs_call_def legal_def)
  from ept_run_maps[OF mm4_inv ept0_run this] show ?thesis using mm4_live by simp
qed

lemma lower_from_2m: "lower_from 0x200000 pd_from = 0"
  by code_simp

theorem ept_convert_4k_to_2m_spec_witness:
  "\<exists>r s'. ept_identity_map_convert_4k_to_2m 0x200000 read_write write_back ept4k_low = (r, s') \<and>
     (case r of Inl x \<Rightarrow> x = Null_deref \<and> pool_full 2 0x100000 s'
      | Inr u \<Rightarrow> \<exists>A' T'. ept_maps 2 0x100000 map4 {} T' A' s' \<and> lookup A' 0x200000 = Some (3, ept_pde 0x200000 read_write write_back 0))"
proof -
  obtain T where T: "ept_maps 2 0x100000 map4 {} T [va_path 0x200000 \<mapsto> ept_pte 0xABC000 execute_only uncacheable 0] ept4k_low"
    using ept4k_low_maps by blast
  obtain r s' where r: "ept_identity_map_convert_4k_to_2m 0x200000 read_write write_back ept4k_low = (r, s')" by (rule prod.exhaust)
  have l: "lookup [va_path 0x200000 \<mapsto> ept_pte 0xABC000 execute_only uncacheable 0] 0x200000 = Some (4, ept_pte 0xABC000 execute_only uncacheable 0)"
    using lookup_map_4k[of Map.empty "0x200000"] by simp
  from ept_convert_4k_to_2m_spec[OF T lower_from_2m _ r] show ?thesis unfolding r l by (cases r) auto
qed

theorem ept_convert_2m_to_4k_spec_witness:
  "\<exists>r s'. ept_identity_map_convert_2m_to_4k 0x200000 read_only write_back ept2m = (r, s') \<and>
     (case r of Inl x \<Rightarrow> x = Null_deref \<and> pool_full 2 0x100000 s'
      | Inr u \<Rightarrow> \<exists>A' T'. ept_maps 2 0x100000 map4 {} T' A' s' \<and> lookup A' 0x201000 = Some (4, ept_pte 0x201000 read_only write_back 0))"
proof -
  obtain T where T: "ept_maps 2 0x100000 map4 {} T [take 3 (va_path 0x200000) \<mapsto> ept_pde 0x800000 read_write write_back 0] ept2m"
    using ept2m_maps by blast
  obtain r s' where r: "ept_identity_map_convert_2m_to_4k 0x200000 read_only write_back ept2m = (r, s')" by (rule prod.exhaust)
  have l: "lookup [take 3 (va_path 0x200000) \<mapsto> ept_pde 0x800000 read_write write_back 0] 0x200000 = Some (3, ept_pde 0x800000 read_write write_back 0)"
    using lookup_map_2m[of Map.empty "0x200000" _ "0x200000"] by simp
  have g: "0x201000 \<in> set (pd_pages 0x200000)" unfolding set_pd_pages by (intro image_eqI[of _ _ 1]) auto
  show ?thesis
  proof (cases r)
    case (Inl x)
    then show ?thesis using ept_convert_2m_to_4k_spec[OF T lower_from_2m _ _ r] r l by auto
  next
    case (Inr u)
    then show ?thesis using ept_convert_2m_to_4k_spec[OF T lower_from_2m _ _ r] r g by (simp, blast)
  qed
qed

theorem ept_identity_map_visits_witness:
  "ept_identity_map_2m 0x200000 0x600000 read_write write_back =
     forE [0x200000, 0x400000] (\<lambda>g. ignoreE (ept_map_2m g g read_write write_back))"
proof -
  have "lower_from 0x600000 pd_from = 0" by code_simp
  moreover have "gpas 0x200000 0x600000 pd_page_size = [0x200000, 0x400000]"
  proof -
    have "[0 ..< 2] = [0, 1::nat]" by (simp add: upt_rec)
    then show ?thesis by (simp add: gpas_def pd_page_size_def)
  qed
  ultimately show ?thesis using ept_identity_map_visits[OF lower_from_2m, of "0x600000" read_write write_back] by metis
qed

end
