(* ===== verification/Mtrrs.thy ===== *)
theory Mtrrs
  imports Ept_Map "HOL-Library.Multiset"
begin

text \<open>
  The memory type ranges, \<open>src/extended_apis/bfvmm/include/hve/arch/intel_x64/mtrrs.h\<close> and
  \<open>src/extended_apis/bfvmm/src/hve/arch/intel_x64/mtrrs.cpp\<close>: an array of 256 ranges that is
  filled from the model specific registers and then flattened, by splitting a range around the range
  it contains, until no two ranges overlap.  The registers are the function \<open>rdmsr\<close>, the
  number of physical address bits of \<open>cpuid\<close> is \<open>addr_size\<close>, and \<open>srt\<close>
  is \<open>std::sort\<close>, which fixes no order of equivalent elements.  The debug output is not
  modelled.
\<close>

section \<open>State\<close>

record range_t =
  rtype :: memory_type_t
  rbase :: u64
  rsize :: u64

definition invalid :: u64 where
  "invalid = 0xFFFFFFFFFFFFFFFF"

definition invalid_range :: range_t where
  "invalid_range = \<lparr>rtype = uncacheable, rbase = invalid, rsize = invalid\<rparr>"

definition range_contains :: "range_t \<Rightarrow> u64 \<Rightarrow> bool" where
  "range_contains r addr \<longleftrightarrow> rbase r \<le> addr \<and> addr \<le> rbase r + rsize r"

definition distance :: "range_t \<Rightarrow> u64 \<Rightarrow> u64" where
  "distance r addr = rsize r - (addr - rbase r)"

text \<open>\<open>m_num\<close> is an eight-bit counter.\<close>

record mtrrs =
  m_num :: nat
  m_ranges :: "range_t list"

definition no_ranges :: mtrrs where
  "no_ranges = \<lparr>m_num = 0, m_ranges = replicate 256 invalid_range\<rparr>"

section \<open>Adding ranges\<close>

definition physbase_to_base :: "u64 \<Rightarrow> u64" where
  "physbase_to_base physbase = push_bit 12 physbase"

definition physmask_to_size :: "nat \<Rightarrow> u64 \<Rightarrow> u64" where
  "physmask_to_size addr_size physmask = (NOT (push_bit 12 physmask) AND (push_bit addr_size 1 - 1)) + 1"

definition add_range :: "range_t \<Rightarrow> (mtrrs, unit) op" where
  "add_range r =
     bindE (getE m_num) (\<lambda>n.
     seqE (expectsE (n < 255))
    (seqE (expectsE (pt_page_size \<le> rsize r))
    (seqE (modifyE (\<lambda>m. m\<lparr>m_num := (n + 1) mod 256\<rparr>))
    (bindE (getE m_ranges) (\<lambda>rs. seqE (expectsE (n < length rs)) (modifyE (\<lambda>m. m\<lparr>m_ranges := rs[n := r]\<rparr>)))))))"

definition mtrr_type :: "u64 \<Rightarrow> memory_type_t" where
  "mtrr_type t =
     (if t = 6 then write_back else if t = 5 then write_protected else if t = 4 then write_through
      else if t = 1 then write_combining else uncacheable)"

definition physbase_type :: bit_field where "physbase_type = \<lparr>bf_mask = 0xFF, bf_from = 0\<rparr>"
definition physbase_physbase :: bit_field where "physbase_physbase = \<lparr>bf_mask = 0x000FFFFFFFFFF000, bf_from = 12\<rparr>"
definition physmask_valid :: nat where "physmask_valid = 11"
definition physmask_physmask :: bit_field where "physmask_physmask = \<lparr>bf_mask = 0x000FFFFFFFFFF000, bf_from = 12\<rparr>"
definition mtrrcap_vcnt :: bit_field where "mtrrcap_vcnt = \<lparr>bf_mask = 0xFF, bf_from = 0\<rparr>"
definition def_type_type :: bit_field where "def_type_type = \<lparr>bf_mask = 7, bf_from = 0\<rparr>"
definition def_type_mtrr_enable :: nat where "def_type_mtrr_enable = 11"

definition ia32_mtrrcap_addr :: u32 where "ia32_mtrrcap_addr = 0xFE"
definition ia32_mtrr_def_type_addr :: u32 where "ia32_mtrr_def_type_addr = 0x2FF"
definition ia32_mtrr_physbase_addr :: u32 where "ia32_mtrr_physbase_addr = 0x200"
definition ia32_mtrr_physmask_addr :: u32 where "ia32_mtrr_physmask_addr = 0x201"

definition variable_range :: "nat \<Rightarrow> u64 \<Rightarrow> u64 \<Rightarrow> range_t" where
  "variable_range addr_size physbase physmask =
     \<lparr>rtype = mtrr_type (field_get physbase_type physbase),
      rbase = physbase_to_base (field_get physbase_physbase physbase),
      rsize = physmask_to_size addr_size (field_get physmask_physmask physmask)\<rparr>"

definition add_variable_range :: "nat \<Rightarrow> u64 \<Rightarrow> u64 \<Rightarrow> (mtrrs, unit) op" where
  "add_variable_range addr_size physbase physmask = add_range (variable_range addr_size physbase physmask)"

definition get_fixed_ranges :: "(mtrrs, unit) op" where
  "get_fixed_ranges = add_range \<lparr>rtype = uncacheable, rbase = 0, rsize = 0x100000\<rparr>"

definition get_variable_ranges :: "(u32 \<Rightarrow> u64) \<Rightarrow> nat \<Rightarrow> (mtrrs, unit) op" where
  "get_variable_ranges rdmsr addr_size =
     forE (map of_nat [0 ..< unat (field_get mtrrcap_vcnt (rdmsr ia32_mtrrcap_addr))]) (\<lambda>k.
       let physbase = rdmsr (ia32_mtrr_physbase_addr + 2 * k);
           physmask = rdmsr (ia32_mtrr_physmask_addr + 2 * k)
       in if flag_is_disabled physmask_valid physmask then returnE ()
          else add_variable_range addr_size physbase physmask)"

section \<open>Flattening\<close>

definition is_subset :: "range_t \<Rightarrow> range_t \<Rightarrow> bool" where
  "is_subset r1 r2 \<longleftrightarrow> rbase r1 \<le> rbase r2 \<and> rbase r2 + rsize r2 \<le> rbase r1 + rsize r1"

definition is_intersecting :: "range_t \<Rightarrow> range_t \<Rightarrow> bool" where
  "is_intersecting r1 r2 \<longleftrightarrow> rbase r1 < rbase r2 \<and> rbase r2 < rbase r1 + rsize r1"

definition compare :: "range_t \<Rightarrow> range_t \<Rightarrow> bool" where
  "compare r1 r2 \<longleftrightarrow> (if rbase r1 = rbase r2 then rsize r2 < rsize r1 else rbase r1 < rbase r2)"

text \<open>\<open>r1\<close> is the range at \<open>i\<close>, replaced by what \<open>r2\<close> leaves of it.\<close>

definition split_range :: "nat \<Rightarrow> range_t \<Rightarrow> range_t \<Rightarrow> (mtrrs, bool) op" where
  "split_range i r1 r2 =
     (let size1 = rbase r2 - rbase r1;
          size2 = rbase r1 + rsize r1 - rbase r2 - rsize r2
      in seqE (if size1 \<noteq> 0 then add_range \<lparr>rtype = rtype r1, rbase = rbase r1, rsize = size1\<rparr> else returnE ())
        (seqE (if size2 \<noteq> 0 then add_range \<lparr>rtype = rtype r1, rbase = rbase r2 + rsize r2, rsize = size2\<rparr> else returnE ())
        (seqE (modifyE (\<lambda>m. m\<lparr>m_ranges := (m_ranges m)[i := invalid_range]\<rparr>))
        (seqE (modifyE (\<lambda>m. m\<lparr>m_num := (m_num m + 255) mod 256\<rparr>))
        (returnE False)))))"

text \<open>
  \<open>m_num - 1U\<close> is an unsigned subtraction of 32 bits, and the accesses are checked.
\<close>

definition last_index :: "mtrrs \<Rightarrow> nat" where
  "last_index m = (if m_num m = 0 then 2 ^ 32 - 1 else m_num m - 1)"

function scan_ranges :: "nat \<Rightarrow> (mtrrs, bool) op" where
  "scan_ranges i m =
     (if i < last_index m
      then if i + 1 < length (m_ranges m)
        then let r1 = m_ranges m ! i; r2 = m_ranges m ! (i + 1)
          in if is_subset r1 r2 then split_range i r1 r2 m
             else if is_intersecting r1 r2 then throwE Runtime_error m
             else scan_ranges (i + 1) m
        else throwE Expects_failed m
      else returnE True m)"
  by pat_completeness auto
termination by (relation "measure (\<lambda>(i, m). length (m_ranges m) - i)") auto

declare scan_ranges.simps [simp del]

definition make_continuous :: "(range_t list \<Rightarrow> range_t list) \<Rightarrow> (mtrrs, bool) op" where
  "make_continuous srt = seqE (modifyE (\<lambda>m. m\<lparr>m_ranges := srt (m_ranges m)\<rparr>)) (scan_ranges 0)"

text \<open>\<open>while (this->make_continuous() == false);\<close>\<close>

partial_function (option) flatten ::
  "(range_t list \<Rightarrow> range_t list) \<Rightarrow> mtrrs \<Rightarrow> ((error + unit) \<times> mtrrs) option" where
  "flatten srt m =
     (case make_continuous srt m of
        (Inl e, m') \<Rightarrow> Some (Inl e, m')
      | (Inr b, m') \<Rightarrow> if b then Some (Inr (), m') else flatten srt m')"

declare flatten.simps [code]

section \<open>The constructor\<close>

definition default_range :: "memory_type_t \<Rightarrow> range_t" where
  "default_range t = \<lparr>rtype = t, rbase = 0, rsize = 0xFFFFFFFFFFFFFFFF\<rparr>"

definition read_ranges ::
  "(range_t list \<Rightarrow> range_t list) \<Rightarrow> (u32 \<Rightarrow> u64) \<Rightarrow> nat \<Rightarrow> mtrrs \<Rightarrow> ((error + unit) \<times> mtrrs) option" where
  "read_ranges srt rdmsr addr_size m =
     (if flag_is_disabled def_type_mtrr_enable (rdmsr ia32_mtrr_def_type_addr)
      then Some (add_range (default_range write_back) m)
      else case seqE get_fixed_ranges (get_variable_ranges rdmsr addr_size) m of
          (Inl e, m1) \<Rightarrow> Some (Inl e, m1)
        | (Inr u, m1) \<Rightarrow> (case flatten srt m1 of
              None \<Rightarrow> None
            | Some (Inl e, m2) \<Rightarrow> Some (Inl e, m2)
            | Some (Inr u, m2) \<Rightarrow>
                (case add_range (default_range (mtrr_type (field_get def_type_type (rdmsr ia32_mtrr_def_type_addr)))) m2 of
                   (Inl e, m3) \<Rightarrow> Some (Inl e, m3)
                 | (Inr u, m3) \<Rightarrow> flatten srt m3)))"

text \<open>Whatever is thrown, the ranges are cleared; the value is \<open>None\<close> if a loop does not end.\<close>

definition make_mtrrs :: "(range_t list \<Rightarrow> range_t list) \<Rightarrow> (u32 \<Rightarrow> u64) \<Rightarrow> nat \<Rightarrow> mtrrs option" where
  "make_mtrrs srt rdmsr addr_size =
     (case read_ranges srt rdmsr addr_size no_ranges of
        None \<Rightarrow> None
      | Some (Inl e, m) \<Rightarrow> Some (m\<lparr>m_ranges := replicate (length (m_ranges m)) invalid_range, m_num := 0\<rparr>)
      | Some (Inr u, m) \<Rightarrow> Some m)"

section \<open>Sorting\<close>

text \<open>
  What \<open>std::sort\<close> promises: a permutation in which no element is less than one before it.
\<close>

locale std_sort =
  fixes srt :: "range_t list \<Rightarrow> range_t list"
  assumes srt_perm: "mset (srt rs) = mset rs"
    and srt_sorted: "sorted_wrt (\<lambda>a b. \<not> compare b a) (srt rs)"

text \<open>Insertion sort keeps the order of equivalent elements.\<close>

fun insert_range :: "range_t \<Rightarrow> range_t list \<Rightarrow> range_t list" where
  "insert_range r [] = [r]"
| "insert_range r (q # rs) = (if compare q r then q # insert_range r rs else r # q # rs)"

definition sort_ranges :: "range_t list \<Rightarrow> range_t list" where
  "sort_ranges rs = foldr insert_range rs []"

lemma compare_trans: "\<not> compare b a \<Longrightarrow> \<not> compare c b \<Longrightarrow> \<not> compare c a"
  by (auto simp: compare_def split: if_splits)

lemma compare_asym: "compare a b \<Longrightarrow> \<not> compare b a"
  by (auto simp: compare_def split: if_splits)

lemma mset_insert_range: "mset (insert_range r rs) = add_mset r (mset rs)"
  by (induction rs) auto

lemma set_insert_range: "set (insert_range r rs) = insert r (set rs)"
  by (induction rs) auto

lemma sorted_insert_range:
  "sorted_wrt (\<lambda>a b. \<not> compare b a) rs \<Longrightarrow> sorted_wrt (\<lambda>a b. \<not> compare b a) (insert_range r rs)"
  by (induction rs) (auto simp: set_insert_range dest: compare_asym compare_trans)

interpretation insertion: std_sort sort_ranges
proof
  fix rs
  show "mset (sort_ranges rs) = mset rs" by (induction rs) (auto simp: sort_ranges_def mset_insert_range)
  show "sorted_wrt (\<lambda>a b. \<not> compare b a) (sort_ranges rs)"
    by (induction rs) (auto simp: sort_ranges_def sorted_insert_range)
qed

end
