(* ===== verification/Mtrrs_Split.thy ===== *)
theory Mtrrs_Split
  imports Mtrrs
begin

text \<open>
  Splitting ranges, on multisets: the effect of one round of \<open>make_continuous\<close> on the set of
  ranges, and what it keeps.  A range is read as an interval of natural numbers.
\<close>

section \<open>Ranges as intervals\<close>

definition rlow :: "range_t \<Rightarrow> nat" where "rlow r = unat (rbase r)"
definition rend :: "range_t \<Rightarrow> nat" where "rend r = unat (rbase r) + unat (rsize r)"

text \<open>A range of at least one page that does not wrap around.\<close>

definition range_ok :: "range_t \<Rightarrow> bool" where
  "range_ok r \<longleftrightarrow> 4096 \<le> unat (rsize r) \<and> rend r < 2 ^ 64"

abbreviation in_range :: "nat \<Rightarrow> range_t \<Rightarrow> bool" where
  "in_range a r \<equiv> rlow r \<le> a \<and> a < rend r"

definition within :: "range_t \<Rightarrow> range_t \<Rightarrow> bool" where
  "within r q \<longleftrightarrow> rlow q \<le> rlow r \<and> rend r \<le> rend q"

definition inside :: "range_t \<Rightarrow> range_t \<Rightarrow> bool" where
  "inside r q \<longleftrightarrow> within r q \<and> (rlow r \<noteq> rlow q \<or> rend r \<noteq> rend q)"

definition separate :: "range_t \<Rightarrow> range_t \<Rightarrow> bool" where
  "separate r q \<longleftrightarrow> rend r \<le> rlow q \<or> rend q \<le> rlow r"

text \<open>No later than \<open>r\<close> in the order of \<open>compare\<close>.\<close>

definition not_before :: "range_t \<Rightarrow> range_t \<Rightarrow> bool" where
  "not_before r q \<longleftrightarrow> rlow r < rlow q \<or> rlow r = rlow q \<and> rend q \<le> rend r"

lemma range_ok_less: "range_ok r \<Longrightarrow> rlow r < rend r"
  by (simp add: range_ok_def rlow_def rend_def)

lemma unat_rend: "range_ok r \<Longrightarrow> unat (rbase r + rsize r) = rend r"
  by (simp add: range_ok_def rend_def unat_word_ariths)

lemma is_subset_iff: "range_ok r1 \<Longrightarrow> range_ok r2 \<Longrightarrow> is_subset r1 r2 \<longleftrightarrow> within r2 r1"
  by (simp add: is_subset_def within_def word_le_nat_alt unat_rend rlow_def)

lemma is_intersecting_iff: "range_ok r1 \<Longrightarrow> is_intersecting r1 r2 \<longleftrightarrow> rlow r1 < rlow r2 \<and> rlow r2 < rend r1"
  by (simp add: is_intersecting_def word_less_nat_alt unat_rend rlow_def)

lemma compare_iff: "\<not> compare q r \<longleftrightarrow> not_before r q"
  by (auto simp: compare_def not_before_def rlow_def rend_def word_less_nat_alt unat_arith_simps)

section \<open>Pieces\<close>

definition low_piece :: "range_t \<Rightarrow> range_t \<Rightarrow> range_t" where
  "low_piece r1 r2 = \<lparr>rtype = rtype r1, rbase = rbase r1, rsize = rbase r2 - rbase r1\<rparr>"

definition high_piece :: "range_t \<Rightarrow> range_t \<Rightarrow> range_t" where
  "high_piece r1 r2 = \<lparr>rtype = rtype r1, rbase = rbase r2 + rsize r2, rsize = rbase r1 + rsize r1 - rbase r2 - rsize r2\<rparr>"

definition pieces :: "range_t \<Rightarrow> range_t \<Rightarrow> range_t list" where
  "pieces r1 r2 =
     (if rlow r1 < rlow r2 then [low_piece r1 r2] else []) @ (if rend r2 < rend r1 then [high_piece r1 r2] else [])"

lemma low_piece_bounds:
  assumes "range_ok r1" "within r2 r1"
  shows "rlow (low_piece r1 r2) = rlow r1" "rend (low_piece r1 r2) = rlow r2" "rtype (low_piece r1 r2) = rtype r1"
proof -
  have "rbase r1 \<le> rbase r2" using assms(2) by (simp add: within_def rlow_def word_le_nat_alt)
  then show "rend (low_piece r1 r2) = rlow r2" by (simp add: low_piece_def rend_def rlow_def unat_sub word_le_nat_alt)
qed (simp_all add: low_piece_def rlow_def)

lemma high_piece_bounds:
  assumes "range_ok r1" "range_ok r2" "within r2 r1"
  shows "rlow (high_piece r1 r2) = rend r2" "rend (high_piece r1 r2) = rend r1" "rtype (high_piece r1 r2) = rtype r1"
proof -
  show l: "rlow (high_piece r1 r2) = rend r2" using assms(2) by (simp add: high_piece_def rlow_def unat_rend)
  have "rbase r2 + rsize r2 \<le> rbase r1 + rsize r1" using assms by (simp add: word_le_nat_alt unat_rend within_def)
  then have "unat (rbase r1 + rsize r1 - (rbase r2 + rsize r2)) = rend r1 - rend r2" using assms by (simp add: unat_sub unat_rend)
  then have "unat (rsize (high_piece r1 r2)) = rend r1 - rend r2" by (simp add: high_piece_def diff_diff_eq)
  then show "rend (high_piece r1 r2) = rend r1" using l assms(3) by (simp add: rend_def rlow_def within_def)
qed (simp add: high_piece_def)

lemma pieces_cases:
  assumes "range_ok r1" "range_ok r2" "within r2 r1" "p \<in> set (pieces r1 r2)"
  obtains (low) "p = low_piece r1 r2" "rlow p = rlow r1" "rend p = rlow r2" "rlow r1 < rlow r2" "rtype p = rtype r1"
  | (high) "p = high_piece r1 r2" "rlow p = rend r2" "rend p = rend r1" "rend r2 < rend r1" "rtype p = rtype r1"
  using assms low_piece_bounds[OF assms(1,3)] high_piece_bounds[OF assms(1-3)]
  by (auto simp: pieces_def split: if_splits)

section \<open>A split\<close>

text \<open>
  \<open>r1\<close> and \<open>r2\<close> are neighbours in the sorted list, and everything before \<open>r1\<close>
  ends before it.
\<close>

definition split_of :: "range_t multiset \<Rightarrow> range_t \<Rightarrow> range_t \<Rightarrow> range_t multiset \<Rightarrow> range_t multiset \<Rightarrow> bool" where
  "split_of M r1 r2 Q M' \<longleftrightarrow>
     M = add_mset r1 (add_mset r2 Q) \<and> M' = mset (pieces r1 r2) + add_mset r2 Q \<and> within r2 r1 \<and>
     (\<forall>q \<in># Q. rend q \<le> rlow r1 \<or> not_before r2 q)"

definition all_ok :: "range_t multiset \<Rightarrow> bool" where
  "all_ok M \<longleftrightarrow> (\<forall>r \<in># M. range_ok r)"

text \<open>Any two of the ranges are apart or one is a proper part of the other.\<close>

definition nested :: "range_t multiset \<Rightarrow> bool" where
  "nested M \<longleftrightarrow> (\<forall>r q. {#r, q#} \<subseteq># M \<longrightarrow> separate r q \<or> inside r q \<or> inside q r)"

text \<open>No range ends with two adjoining parts.\<close>

definition untiled :: "range_t multiset \<Rightarrow> bool" where
  "untiled M \<longleftrightarrow> (\<forall>r \<in># M. \<forall>q \<in># M. \<forall>p \<in># M. \<not> (within q r \<and> within p r \<and> rend q = rlow p \<and> rend p = rend r))"

text \<open>The innermost range around \<open>a\<close> has the type \<open>t\<close>.\<close>

definition decides :: "range_t multiset \<Rightarrow> nat \<Rightarrow> memory_type_t \<Rightarrow> bool" where
  "decides M a t \<longleftrightarrow> (\<exists>r \<in># M. in_range a r \<and> rtype r = t \<and> (\<forall>q \<in># M. in_range a q \<longrightarrow> within r q))"

definition total_size :: "range_t multiset \<Rightarrow> nat" where
  "total_size M = (\<Sum>r \<in># M. unat (rsize r))"

definition covers :: "range_t multiset \<Rightarrow> nat \<Rightarrow> bool" where
  "covers M a \<longleftrightarrow> (\<exists>r \<in># M. in_range a r)"

lemma nestedD:
  assumes "nested M" "r \<in># M" "q \<in># M - {#r#}"
  shows "separate r q \<or> inside r q \<or> inside q r"
proof -
  obtain N where N: "M = add_mset r N" using assms(2) by (metis mset_add)
  then have "{#r, q#} \<subseteq># M" using assms(3) by simp
  then show ?thesis using assms(1) by (simp add: nested_def)
qed

lemma nested_add:
  "nested (add_mset r M) \<longleftrightarrow> nested M \<and> (\<forall>q \<in># M. separate r q \<or> inside r q \<or> inside q r)"
proof
  assume n: "nested (add_mset r M)"
  have "nested M" unfolding nested_def
  proof (intro allI impI)
    fix a b assume "{#a, b#} \<subseteq># M"
    then have "{#a, b#} \<subseteq># add_mset r M" by (metis add_mset_add_single mset_subset_eq_add_left subset_mset.order_trans)
    then show "separate a b \<or> inside a b \<or> inside b a" using n by (simp add: nested_def)
  qed
  moreover have "separate r q \<or> inside r q \<or> inside q r" if "q \<in># M" for q using nestedD[OF n, of r q] that by simp
  ultimately show "nested M \<and> (\<forall>q \<in># M. separate r q \<or> inside r q \<or> inside q r)" by blast
next
  assume n: "nested M \<and> (\<forall>q \<in># M. separate r q \<or> inside r q \<or> inside q r)"
  show "nested (add_mset r M)" unfolding nested_def
  proof (intro allI impI)
    fix a b assume s: "{#a, b#} \<subseteq># add_mset r M"
    have "a \<in># add_mset r M" "b \<in># add_mset r M" using mset_subset_eqD[OF s] by auto
    moreover have "{#a, b#} \<subseteq># M" if "a \<noteq> r" "b \<noteq> r" using s that by (auto simp: insert_subset_eq_iff)
    moreover have "b \<in># M" if "a = r" using s that by simp
    moreover have "a \<in># M" if "b = r" using s that by (simp add: add_mset_commute)
    ultimately show "separate a b \<or> inside a b \<or> inside b a"
      using n unfolding nested_def separate_def by blast
  qed
qed

lemma nested_append:
  assumes "nested N" "sorted_wrt (\<lambda>a b. separate a b \<or> inside a b \<or> inside b a) xs"
    and "\<And>p x. p \<in> set xs \<Longrightarrow> x \<in># N \<Longrightarrow> separate p x \<or> inside p x \<or> inside x p"
  shows "nested (mset xs + N)"
  using assms(2,3)
proof (induction xs)
  case Nil
  then show ?case using assms(1) by simp
next
  case (Cons p xs)
  have "separate p x \<or> inside p x \<or> inside x p" if "x \<in># mset xs + N" for x
    using that Cons.prems(1) Cons.prems(2)[of p x] by auto
  moreover have "nested (mset xs + N)" using Cons.prems by (intro Cons.IH) simp_all
  ultimately show ?case unfolding mset.simps union_mset_add_mset_left nested_add by blast
qed

section \<open>What a split keeps\<close>

text \<open>One split, with the facts that its proofs share.\<close>

lemma split_facts:
  assumes "split_of M r1 r2 Q M'" "all_ok M"
  shows "M = add_mset r1 (add_mset r2 Q)" "M' = mset (pieces r1 r2) + add_mset r2 Q"
    and "within r2 r1" "range_ok r1" "range_ok r2" "rlow r2 < rend r2" "rlow r1 < rend r1"
    and "q \<in># Q \<Longrightarrow> range_ok q \<and> rlow q < rend q \<and> (rend q \<le> rlow r1 \<or> not_before r2 q)"
    and "p \<in> set (pieces r1 r2) \<Longrightarrow>
      rlow p < rend p \<and> (rlow p = rlow r1 \<and> rend p = rlow r2 \<or> rlow p = rend r2 \<and> rend p = rend r1) \<and> rtype p = rtype r1"
proof -
  show ok: "range_ok r1" "range_ok r2" and w: "within r2 r1" using assms by (auto simp: split_of_def all_ok_def)
  show "rlow p < rend p \<and> (rlow p = rlow r1 \<and> rend p = rlow r2 \<or> rlow p = rend r2 \<and> rend p = rend r1) \<and> rtype p = rtype r1"
    if "p \<in> set (pieces r1 r2)"
    using pieces_cases[OF ok w that] by (cases) simp_all
qed (use assms in \<open>auto simp: split_of_def all_ok_def range_ok_less\<close>)

lemma pieces_cover:
  assumes "range_ok r1" "range_ok r2" "within r2 r1"
  shows "(\<exists>p \<in> set (pieces r1 r2). in_range a p) \<longleftrightarrow> in_range a r1 \<and> \<not> in_range a r2"
proof -
  have "(\<exists>p \<in> set (pieces r1 r2). in_range a p) \<longleftrightarrow> rlow r1 \<le> a \<and> a < rlow r2 \<or> rend r2 \<le> a \<and> a < rend r1"
    using low_piece_bounds[OF assms(1,3)] high_piece_bounds[OF assms]
    by (cases "rlow r1 < rlow r2"; cases "rend r2 < rend r1") (auto simp: pieces_def)
  then show ?thesis using assms(3) range_ok_less[OF assms(2)] unfolding within_def by linarith
qed

lemma split_covers:
  assumes "split_of M r1 r2 Q M'" "all_ok M"
  shows "covers M' a \<longleftrightarrow> covers M a"
proof -
  note S = split_facts[OF assms(1,2)]
  note M = S(1,2) and w = S(3) and ok = S(4,5) and l = S(6,7) and q = S(8) and p = S(9)
  have "(\<exists>p \<in> set (pieces r1 r2). in_range a p) \<or> in_range a r2 \<longleftrightarrow> in_range a r1 \<or> in_range a r2"
    using pieces_cover[OF ok w, of a] by blast
  then show ?thesis by (auto simp: covers_def M)
qed

lemma split_total_size:
  assumes "split_of M r1 r2 Q M'" "all_ok M"
  shows "total_size M' < total_size M"
proof -
  note S = split_facts[OF assms(1,2)]
  note M = S(1,2) and w = S(3) and ok = S(4,5) and l = S(6,7) and q = S(8) and p = S(9)
  have sz: "unat (rsize r) = rend r - rlow r" for r by (simp add: rend_def rlow_def)
  have "(\<Sum>p \<in># mset (pieces r1 r2). unat (rsize p)) + unat (rsize r2) = unat (rsize r1)"
    using w l low_piece_bounds[OF ok(1) w] high_piece_bounds[OF ok w] by (auto simp: pieces_def within_def sz)
  then show ?thesis using l by (simp add: total_size_def M sz)
qed

text \<open>The type of an address comes from a range around it.\<close>

lemma split_type:
  assumes "split_of M r1 r2 Q M'" "all_ok M" "r \<in># M'" "in_range a r"
  shows "\<exists>q \<in># M. in_range a q \<and> rtype q = rtype r"
proof -
  note S = split_facts[OF assms(1,2)]
  note M = S(1,2) and w = S(3) and ok = S(4,5) and l = S(6,7) and q = S(8) and p = S(9)
  show ?thesis
  proof (cases "r \<in> set (pieces r1 r2)")
    case True
    then have "in_range a r1 \<and> rtype r1 = rtype r" using p[OF True] assms(4) w l by (auto simp: within_def)
    then show ?thesis by (auto simp: M)
  next
    case False
    then show ?thesis using assms(3,4) by (auto simp: M)
  qed
qed

lemma split_decides:
  assumes "split_of M r1 r2 Q M'" "all_ok M" "nested M" "decides M a t"
  shows "decides M' a t"
proof -
  note S = split_facts[OF assms(1,2)]
  note M = S(1,2) and w = S(3) and ok = S(4,5) and l = S(6,7) and q = S(8) and p = S(9)
  obtain r where r: "r \<in># M" "in_range a r" "rtype r = t" "\<And>q. q \<in># M \<Longrightarrow> in_range a q \<Longrightarrow> within r q"
    using assms(4) by (auto simp: decides_def)
  have n2: "inside r2 r1" using assms(3) w q ok[THEN range_ok_less] unfolding M nested_add by (auto simp: separate_def inside_def within_def)
  consider (r1) "r = r1" | (r2) "r = r2" | (Q) "r \<in># Q" using r(1) by (auto simp: M)
  then show ?thesis
  proof cases
    case r1
    have "\<not> in_range a r2" using r(4)[of r2] n2 unfolding r1 M by (auto simp: inside_def within_def)
    then obtain p' where p': "p' \<in> set (pieces r1 r2)" "in_range a p'"
      using r(2) pieces_cover[OF ok w, of a] unfolding r1 by blast
    have "within p' x" if x: "x \<in># M'" "in_range a x" for x
    proof -
      consider "x \<in> set (pieces r1 r2)" | "x = r2" | "x \<in># Q" using x(1) by (auto simp: M)
      then show ?thesis
      proof cases
        case 1
        then show ?thesis using p[OF p'(1)] p[OF 1] p'(2) x(2) ok[THEN range_ok_less] by (auto simp: within_def)
      next
        case 2
        then show ?thesis using x(2) \<open>\<not> in_range a r2\<close> by simp
      next
        case 3
        have "within r1 x" using r(4)[of x] x(2) 3 by (simp add: M r1)
        then show ?thesis using q[OF 3] p[OF p'(1)] p'(2) w x(2) \<open>\<not> in_range a r2\<close> r(2) unfolding r1 by (auto simp: within_def not_before_def)
      qed
    qed
    then show ?thesis using p' p[OF p'(1)] r(3) r1 unfolding decides_def M by auto
  next
    case r2
    have "within r2 x" if x: "x \<in># M'" "in_range a x" for x
    proof (cases "x \<in> set (pieces r1 r2)")
      case True
      then show ?thesis using p[OF True] x(2) r(2) unfolding r2 by auto
    next
      case False
      then show ?thesis using r(4)[of x] x unfolding r2 M by auto
    qed
    then show ?thesis using r(2,3) r2 unfolding decides_def M by auto
  next
    case Q
    have n: "separate r r2 \<or> inside r r2 \<or> inside r2 r" using assms(3) Q unfolding M nested_add by (auto simp: separate_def)
    have "within r x" if x: "x \<in># M'" "in_range a x" for x
    proof (cases "x \<in> set (pieces r1 r2)")
      case True
      have "in_range a r1" using p[OF True] x(2) w ok[THEN range_ok_less] by (auto simp: within_def)
      then have "within r r1" using r(4)[of r1] by (simp add: M)
      then show ?thesis using p[OF True] x(2) q[OF Q] n r(2) w ok[THEN range_ok_less]
        by (auto simp: within_def inside_def separate_def not_before_def)
    next
      case False
      then show ?thesis using r(4)[of x] x unfolding M by auto
    qed
    then show ?thesis using r(2,3) Q unfolding decides_def M by auto
  qed
qed

text \<open>A piece is part of nothing else, and nested ranges stay nested.\<close>

lemma piece_maximal:
  assumes "split_of M r1 r2 Q M'" "all_ok M" "nested M" "untiled M" "p \<in> set (pieces r1 r2)" "r \<in># add_mset r2 Q"
  shows "\<not> within p r"
proof
  note S = split_facts[OF assms(1,2)]
  note M = S(1,2) and w = S(3) and l = S(6,7) and P = S(9)[OF assms(5)]
  assume pr: "within p r"
  show False
  proof (cases "r \<in># Q")
    case False
    then have "r = r2" using assms(6) by simp
    then show False using P pr l by (auto simp: within_def)
  next
    case True
    note q = S(8)[OF True]
    have n2: "separate r r2 \<or> inside r r2 \<or> inside r2 r" using assms(3) True unfolding M nested_add by (auto simp: separate_def)
    have n1: "separate r r1 \<or> inside r r1 \<or> inside r1 r" using assms(3) True unfolding M nested_add by (auto simp: separate_def)
    have t: "\<not> (within r2 r1 \<and> within r r1 \<and> rend r2 = rlow r \<and> rend r = rend r1)"
      using assms(4) True unfolding untiled_def M by auto
    have "rlow r \<le> rlow p" "rend p \<le> rend r" using pr by (simp_all add: within_def)
    then show False
      using P l q n1 n2 t w unfolding within_def not_before_def separate_def inside_def by (elim disjE conjE) linarith+
  qed
qed

lemma split_nested:
  assumes "split_of M r1 r2 Q M'" "all_ok M" "nested M" "untiled M"
  shows "nested M'"
proof -
  note S = split_facts[OF assms(1,2)]
  note M = S(1,2) and w = S(3) and ok = S(4,5) and l = S(6,7) and q = S(8) and p = S(9)
  have Q: "nested (add_mset r2 Q)" using assms(3) unfolding M nested_add by blast
  have pq: "separate p' x \<or> inside p' x \<or> inside x p'" if "p' \<in> set (pieces r1 r2)" "x \<in># add_mset r2 Q" for p' x
  proof (cases "x \<in># Q")
    case False
    then have "x = r2" using that(2) by simp
    then show ?thesis using p[OF that(1)] l by (auto simp: separate_def)
  next
    case True
    have n2: "separate x r2 \<or> inside x r2 \<or> inside r2 x" using assms(3) True unfolding M nested_add by (auto simp: separate_def)
    have n1: "separate x r1 \<or> inside x r1 \<or> inside r1 x" using assms(3) True unfolding M nested_add by (auto simp: separate_def)
    show ?thesis using p[OF that(1)] q[OF True] l n1 n2 w piece_maximal[OF assms that]
      unfolding within_def not_before_def separate_def inside_def by (elim disjE conjE) linarith+
  qed
  have lh: "separate (low_piece r1 r2) (high_piece r1 r2)"
    using low_piece_bounds[OF ok(1) w] high_piece_bounds[OF ok w] l by (simp add: separate_def)
  have "sorted_wrt (\<lambda>a b. separate a b \<or> inside a b \<or> inside b a) (pieces r1 r2)" using lh by (simp add: pieces_def)
  then show ?thesis unfolding M(2) by (rule nested_append[OF Q]) (rule pq)
qed

lemma split_untiled:
  assumes "split_of M r1 r2 Q M'" "all_ok M" "nested M" "untiled M"
  shows "untiled M'"
  unfolding untiled_def
proof (intro ballI notI)
  note S = split_facts[OF assms(1,2)]
  note M = S(1,2) and w = S(3) and ok = S(4,5) and l = S(6,7) and q = S(8) and p = S(9)
  fix a b c
  assume m: "a \<in># M'" "b \<in># M'" "c \<in># M'" and t: "within b a \<and> within c a \<and> rend b = rlow c \<and> rend c = rend a"
  have pos: "rlow x < rend x" if "x \<in># M'" for x using that p q l unfolding M by auto
  note tt = t pos[OF m(1)] pos[OF m(2)] pos[OF m(3)]
  have old: "x \<in># add_mset r2 Q" if "x \<in># M'" "x \<notin> set (pieces r1 r2)" for x using that by (auto simp: M)
  show False
  proof (cases "a \<in> set (pieces r1 r2)")
    case True
    have nb: "b \<notin> set (pieces r1 r2)" using p[OF True] p[of b] tt l w by (auto simp: within_def)
    have nc: "c \<notin> set (pieces r1 r2)" using p[OF True] p[of c] tt l w by (auto simp: within_def)
    note b = old[OF m(2) nb] and c = old[OF m(3) nc]
    show False
    proof (cases "rlow a = rlow r1 \<and> rend a = rlow r2")
      case True
      have "b = r2 \<or> rend b \<le> rlow r1 \<or> not_before r2 b" using b q[of b] by auto
      then show False using True tt l by (auto simp: within_def not_before_def)
    next
      case False
      then have e: "rlow a = rend r2" "rend a = rend r1" using p[OF \<open>a \<in> set (pieces r1 r2)\<close>] by auto
      then have wi: "within b r1" "within c r1" using tt l w by (auto simp: within_def)
      have "r1 \<in># M" "b \<in># M" "c \<in># M" using b c by (auto simp: M(1))
      then show False using assms(4) wi t e(2) unfolding untiled_def by fastforce
    qed
  next
    case False
    note a = old[OF m(1) False]
    have "b \<notin> set (pieces r1 r2)" "c \<notin> set (pieces r1 r2)" using piece_maximal[OF assms _ a] t by blast+
    then have "a \<in># M" "b \<in># M" "c \<in># M" using a old m unfolding M(1) by (metis union_iff add_mset_add_single)+
    then show False using assms(4) t unfolding untiled_def by blast
  qed
qed

text \<open>The number of ranges that are part of another.\<close>

definition parts :: "range_t multiset \<Rightarrow> nat" where
  "parts M = size {#q \<in># M. \<exists>r \<in># M. inside q r#}"

lemma split_parts:
  assumes "split_of M r1 r2 Q M'" "all_ok M" "nested M" "untiled M"
  shows "parts M' < parts M"
proof -
  note S = split_facts[OF assms(1,2)]
  note M = S(1,2) and w = S(3) and l = S(6,7) and q = S(8) and p = S(9)
  have n: "inside r2 r1" using assms(3) w l unfolding M nested_add by (auto simp: separate_def inside_def within_def)
  have r2: "\<not> inside r2 x" if x: "x \<in># M'" for x
  proof (cases "x \<in> set (pieces r1 r2)")
    case True
    then show ?thesis using p[OF True] l by (auto simp: inside_def within_def)
  next
    case False
    then show ?thesis using q[of x] x l w by (auto simp: M inside_def within_def not_before_def)
  qed
  have pc: "\<not> inside p' x" if p': "p' \<in> set (pieces r1 r2)" and x: "x \<in># M'" for p' x
  proof (cases "x \<in> set (pieces r1 r2)")
    case True
    then show ?thesis using p[OF True] p[OF p'] l w by (auto simp: inside_def within_def)
  next
    case False
    then show ?thesis using piece_maximal[OF assms p', of x] x by (auto simp: M inside_def)
  qed
  have qq: "\<exists>r \<in># M. inside x r" if "x \<in># Q" "y \<in># M'" "inside x y" for x y
  proof (cases "y \<in> set (pieces r1 r2)")
    case True
    then have "inside x r1" using that(3) p[OF True] l w by (auto simp: inside_def within_def)
    then show ?thesis by (simp add: M)
  next
    case False
    then show ?thesis using that by (auto simp: M)
  qed
  have "filter_mset (\<lambda>q. \<exists>r \<in># M'. inside q r) (mset (pieces r1 r2)) = {#}" using pc by (auto simp: filter_mset_eq_conv)
  then have "{#q \<in># M'. \<exists>r \<in># M'. inside q r#} = {#q \<in># Q. \<exists>r \<in># M'. inside q r#}"
    using r2 by (subst (1) M(2)) (simp only: filter_union_mset filter_mset_add_mset, simp)
  moreover have "{#q \<in># Q. \<exists>r \<in># M'. inside q r#} \<subseteq># {#q \<in># Q. \<exists>r \<in># M. inside q r#}"
    using qq by (intro filter_mset_mono_strong) auto
  moreover have "add_mset r2 {#q \<in># Q. \<exists>r \<in># M. inside q r#} \<subseteq># {#q \<in># M. \<exists>r \<in># M. inside q r#}"
  proof -
    have "\<exists>r \<in># M. inside r2 r" using n by (simp add: M)
    then have "add_mset r2 {#q \<in># Q. \<exists>r \<in># M. inside q r#} = {#q \<in># add_mset r2 Q. \<exists>r \<in># M. inside q r#}" by simp
    also have "\<dots> \<subseteq># {#q \<in># M. \<exists>r \<in># M. inside q r#}" by (subst (3) M(1)) (rule multiset_filter_mono, simp)
    finally show ?thesis .
  qed
  ultimately show ?thesis unfolding parts_def by (metis (no_types, lifting) size_add_mset size_mset_mono le_less_trans less_eq_Suc_le Suc_le_lessD lessI not_less order_trans)
qed

end
