(* ===== verification/Mtrrs_Spec.thy ===== *)
theory Mtrrs_Spec
  imports Mtrrs_Split
begin

text \<open>
  The array of the memory type ranges as a multiset of ranges: a round of \<open>make_continuous\<close>
  is a split or finds the ranges in order, and the loop over it ends.
\<close>

section \<open>The array\<close>

text \<open>The array holds the ranges \<open>V\<close>, and nothing else, in some order.\<close>

definition slots :: "range_t list \<Rightarrow> range_t multiset \<Rightarrow> bool" where
  "slots rs V \<longleftrightarrow> size V \<le> 256 \<and> mset rs = V + replicate_mset (256 - size V) invalid_range"

definition holds_ranges :: "mtrrs \<Rightarrow> range_t multiset \<Rightarrow> bool" where
  "holds_ranges m V \<longleftrightarrow> m_num m = size V \<and> slots (m_ranges m) V"

text \<open>The unused slots are those from \<open>m_num\<close> on.\<close>

definition packed :: "mtrrs \<Rightarrow> bool" where
  "packed m \<longleftrightarrow> (\<forall>j. m_num m \<le> j \<and> j < 256 \<longrightarrow> m_ranges m ! j = invalid_range)"

lemma slots_length: "slots rs V \<Longrightarrow> length rs = 256"
  by (simp add: slots_def flip: size_mset)

lemma slots_put:
  assumes "slots rs V" "n < 256" "rs ! n = invalid_range" "size V < 256"
  shows "slots (rs[n := r]) (add_mset r V)"
proof -
  have "256 - size V = Suc (256 - Suc (size V))" using assms(4) by simp
  then have "replicate_mset (256 - size V) invalid_range = add_mset invalid_range (replicate_mset (256 - Suc (size V)) invalid_range)"
    by (metis replicate_mset_Suc)
  then show ?thesis using assms slots_length[OF assms(1)] by (simp add: slots_def mset_update)
qed

lemma slots_drop:
  assumes "slots rs (add_mset r V)" "n < 256" "rs ! n = r"
  shows "slots (rs[n := invalid_range]) V"
proof -
  have "size V < 256" using assms(1) by (simp add: slots_def)
  then have "256 - size V = Suc (256 - Suc (size V))" by simp
  then have "replicate_mset (256 - size V) invalid_range = add_mset invalid_range (replicate_mset (256 - Suc (size V)) invalid_range)"
    by (metis replicate_mset_Suc)
  then show ?thesis using assms slots_length[OF assms(1)] by (simp add: slots_def mset_update)
qed

lemma invalid_not_ok: "\<not> range_ok invalid_range"
  by (simp add: range_ok_def rend_def invalid_range_def invalid_def)

lemma sorted_partition:
  assumes "sorted_wrt (\<lambda>a b. P b \<longrightarrow> P a) xs"
  shows "xs = filter P xs @ filter (\<lambda>x. \<not> P x) xs"
  using assms
proof (induction xs)
  case (Cons x xs)
  show ?case
  proof (cases "P x")
    case True
    then show ?thesis using Cons by simp
  next
    case False
    then have "filter P xs = []" using Cons.prems by (auto simp: filter_empty_conv)
    then show ?thesis using False Cons by simp
  qed
qed simp

lemma sorted_slots:
  assumes "sorted_wrt (\<lambda>a b. \<not> compare b a) rs" "slots rs V" "all_ok V"
  shows "\<exists>ys. rs = ys @ replicate (256 - size V) invalid_range \<and> mset ys = V \<and> sorted_wrt not_before ys"
proof -
  have m: "mset rs = V + replicate_mset (256 - size V) invalid_range" using assms(2) by (simp add: slots_def)
  have i: "r = invalid_range" if "r \<in> set rs" "\<not> range_ok r" for r
  proof -
    have "r \<in># V + replicate_mset (256 - size V) invalid_range" using that(1) by (simp flip: m)
    then show ?thesis using that(2) assms(3) by (auto simp: all_ok_def split: if_splits)
  qed
  have "sorted_wrt (\<lambda>a b. range_ok b \<longrightarrow> range_ok a) rs"
  proof (rule sorted_wrt_mono_rel[OF _ assms(1)])
    fix a b assume ab: "a \<in> set rs" "b \<in> set rs" "\<not> compare b a"
    show "range_ok b \<longrightarrow> range_ok a"
    proof (rule ccontr)
      assume "\<not> (range_ok b \<longrightarrow> range_ok a)"
      then have "range_ok b" "a = invalid_range" using i[OF ab(1)] by auto
      then show False using ab(3) by (auto simp: compare_iff not_before_def invalid_range_def invalid_def rlow_def rend_def range_ok_def)
    qed
  qed
  from sorted_partition[OF this] have p: "rs = filter range_ok rs @ filter (\<lambda>x. \<not> range_ok x) rs" .
  have "mset (filter range_ok rs) = V"
  proof -
    have "filter_mset range_ok V = V" using assms(3) by (auto simp: all_ok_def filter_mset_eq_conv)
    moreover have "filter_mset range_ok (replicate_mset k invalid_range) = {#}" for k using invalid_not_ok by (induction k) auto
    ultimately show ?thesis by (simp only: mset_filter m filter_union_mset add_0_right)
  qed
  moreover have "filter (\<lambda>x. \<not> range_ok x) rs = replicate (256 - size V) invalid_range"
  proof -
    let ?f = "filter (\<lambda>x. \<not> range_ok x) rs"
    have "length rs = 256" by (rule slots_length[OF assms(2)])
    moreover have "length (filter range_ok rs) = size V" using calculation \<open>mset (filter range_ok rs) = V\<close> by (metis size_mset)
    ultimately have "length ?f = 256 - size V" using arg_cong[OF p, of length] by simp
    moreover have "\<forall>x \<in> set ?f. x = invalid_range" using i by simp
    ultimately show ?thesis by (metis replicate_length_same)
  qed
  moreover have "sorted_wrt not_before (filter range_ok rs)"
    by (rule sorted_wrt_filter, rule sorted_wrt_mono_rel[OF _ assms(1)]) (simp add: compare_iff)
  ultimately show ?thesis using p by metis
qed

section \<open>Adding ranges\<close>

lemma add_range_run:
  assumes "holds_ranges m V" "packed m"
  shows "size V < 255 \<Longrightarrow> 4096 \<le> unat (rsize r) \<Longrightarrow> \<exists>m'. add_range r m = (Inr (), m') \<and> holds_ranges m' (add_mset r V) \<and> packed m' \<and>
      (\<forall>j < size V. m_ranges m' ! j = m_ranges m ! j)"
    and "\<not> (size V < 255 \<and> 4096 \<le> unat (rsize r)) \<Longrightarrow> add_range r m = (Inl Expects_failed, m)"
proof -
  note h = assms(1)[unfolded holds_ranges_def] and len = slots_length[of "m_ranges m" V]
  have sz: "pt_page_size \<le> rsize r \<longleftrightarrow> 4096 \<le> unat (rsize r)" by (simp add: pt_page_size_def word_le_nat_alt)
  show "\<exists>m'. add_range r m = (Inr (), m') \<and> holds_ranges m' (add_mset r V) \<and> packed m' \<and> (\<forall>j < size V. m_ranges m' ! j = m_ranges m ! j)"
    if g: "size V < 255" "4096 \<le> unat (rsize r)"
  proof -
    have "add_range r m = (Inr (), m\<lparr>m_num := Suc (size V), m_ranges := (m_ranges m)[size V := r]\<rparr>)"
      using g h len by (simp add: add_range_def sz)
    moreover have "slots ((m_ranges m)[size V := r]) (add_mset r V)"
      using assms(2) g h by (intro slots_put) (auto simp: packed_def)
    ultimately show ?thesis using assms(2) h len by (auto simp: holds_ranges_def packed_def)
  qed
  show "add_range r m = (Inl Expects_failed, m)" if "\<not> (size V < 255 \<and> 4096 \<le> unat (rsize r))"
    using that h by (cases "size V < 255") (simp_all add: add_range_def sz expectsE_def)
qed

lemma add_ranges_run:
  assumes "holds_ranges m V" "packed m"
  shows "if size V + length xs \<le> 255 \<and> (\<forall>r \<in> set xs. 4096 \<le> unat (rsize r))
    then \<exists>m'. forE xs add_range m = (Inr (), m') \<and> holds_ranges m' (mset xs + V) \<and> packed m' \<and> (\<forall>j < size V. m_ranges m' ! j = m_ranges m ! j)
    else xs = [] \<or> (\<exists>m'. forE xs add_range m = (Inl Expects_failed, m'))"
  using assms
proof (induction xs arbitrary: m V)
  case (Cons r xs)
  show ?case
  proof (cases "size V < 255 \<and> 4096 \<le> unat (rsize r)")
    case True
    then obtain m1 where m1: "add_range r m = (Inr (), m1)" "holds_ranges m1 (add_mset r V)" "packed m1" "\<forall>j < size V. m_ranges m1 ! j = m_ranges m ! j"
      using add_range_run(1)[OF Cons.prems] by blast
    have "forE (r # xs) add_range m = forE xs add_range m1" using m1(1) by (simp add: seqE_Inr)
    then show ?thesis using Cons.IH[OF m1(2,3)] m1(4) True by (cases "xs = []") (fastforce split: if_splits)+
  next
    case False
    then show ?thesis using add_range_run(2)[OF Cons.prems, of r] by (auto simp: seqE_Inl)
  qed
qed simp

section \<open>One round\<close>

lemma seqE_assoc: "seqE (seqE a b) c = seqE a (seqE b c)"
  by (auto simp: seqE_def bindE_def fun_eq_iff split: prod.splits sum.splits)

lemma split_range_pieces:
  assumes "range_ok r1" "range_ok r2" "within r2 r1"
  shows "split_range i r1 r2 = seqE (forE (pieces r1 r2) add_range)
     (seqE (modifyE (\<lambda>m. m\<lparr>m_ranges := (m_ranges m)[i := invalid_range]\<rparr>))
     (seqE (modifyE (\<lambda>m. m\<lparr>m_num := (m_num m + 255) mod 256\<rparr>)) (returnE False)))"
proof -
  have 1: "rbase r2 - rbase r1 \<noteq> 0 \<longleftrightarrow> rlow r1 < rlow r2"
    using assms(3) by (auto simp: within_def rlow_def unat_arith_simps)
  have "rbase r1 + rsize r1 - rbase r2 - rsize r2 \<noteq> 0 \<longleftrightarrow> unat (rbase r1 + rsize r1) \<noteq> unat (rbase r2 + rsize r2)"
    by (simp add: diff_diff_eq word_unat_eq_iff[symmetric])
  then have 2: "rbase r1 + rsize r1 - rbase r2 - rsize r2 \<noteq> 0 \<longleftrightarrow> rend r2 < rend r1"
    using assms by (auto simp: unat_rend within_def)
  show ?thesis
    unfolding split_range_def Let_def 1 2 pieces_def low_piece_def high_piece_def
    by (simp add: seqE_returnE seqE_assoc)
qed

definition in_order :: "range_t list \<Rightarrow> nat \<Rightarrow> bool" where
  "in_order ys n \<longleftrightarrow> (\<forall>j < n. j + 1 < length ys \<longrightarrow> rend (ys ! j) \<le> rlow (ys ! (j + 1)))"

lemma in_order_chain:
  assumes "in_order ys n" "\<forall>r \<in> set ys. range_ok r" "i \<le> n" "i < length ys" "j < i"
  shows "rend (ys ! j) \<le> rlow (ys ! i)"
  using assms(3-5)
proof (induction i)
  case (Suc i)
  have s: "rend (ys ! i) \<le> rlow (ys ! Suc i)" using assms(1) Suc.prems by (simp add: in_order_def)
  show ?case
  proof (cases "j = i")
    case True
    then show ?thesis using s by simp
  next
    case False
    have "rlow (ys ! i) < rend (ys ! i)" using assms(2) Suc.prems by (intro range_ok_less) simp
    then show ?thesis using Suc.IH Suc.prems False s by simp
  qed
qed simp

text \<open>The array in the order in which a round leaves it.\<close>

definition arranged :: "mtrrs \<Rightarrow> range_t list \<Rightarrow> bool" where
  "arranged m ys \<longleftrightarrow> m_num m = length ys \<and> m_ranges m = ys @ replicate (256 - length ys) invalid_range \<and>
     0 < length ys \<and> length ys < 256 \<and> sorted_wrt not_before ys \<and> (\<forall>r \<in> set ys. range_ok r)"

lemma arranged_holds: "arranged m ys \<Longrightarrow> holds_ranges m (mset ys) \<and> packed m \<and> all_ok (mset ys)"
  by (auto simp: arranged_def holds_ranges_def packed_def slots_def all_ok_def nth_append)

definition scan_result :: "range_t list \<Rightarrow> mtrrs \<Rightarrow> (error + bool) \<times> mtrrs \<Rightarrow> bool" where
  "scan_result ys m x \<longleftrightarrow>
     (case x of
        (Inr True, m') \<Rightarrow> m' = m \<and> in_order ys (length ys)
      | (Inr False, m') \<Rightarrow> \<exists>r1 r2 Q V. split_of (mset ys) r1 r2 Q V \<and> holds_ranges m' V \<and> size V < 256 \<and> all_ok V
      | (Inl e, m') \<Rightarrow> e = Runtime_error \<and> (\<exists>r q. {#r, q#} \<subseteq># mset ys \<and> \<not> (separate r q \<or> inside r q \<or> inside q r)) \<or>
          e = Expects_failed \<and> (\<exists>r1 r2 Q V. split_of (mset ys) r1 r2 Q V \<and> (255 < size V + 1 \<or> (\<exists>p \<in> set (pieces r1 r2). unat (rsize p) < 4096))))"

lemma list_split2: "i + 1 < length ys \<Longrightarrow> ys = take i ys @ ys ! i # ys ! (i + 1) # drop (i + 2) ys"
  by (simp add: Cons_nth_drop_Suc)

lemma split_at:
  assumes "arranged m ys" "in_order ys i" "i + 1 < length ys" "within (ys ! (i + 1)) (ys ! i)"
  shows "split_of (mset ys) (ys ! i) (ys ! (i + 1)) (mset (take i ys @ drop (i + 2) ys))
    (mset (pieces (ys ! i) (ys ! (i + 1))) + add_mset (ys ! (i + 1)) (mset (take i ys @ drop (i + 2) ys)))"
proof -
  have ok: "\<forall>r \<in> set ys. range_ok r" and so: "sorted_wrt not_before ys" using assms(1) by (simp_all add: arranged_def)
  have "mset ys = add_mset (ys ! i) (add_mset (ys ! (i + 1)) (mset (take i ys @ drop (i + 2) ys)))"
    using arg_cong[OF list_split2[OF assms(3)], of mset] by simp
  moreover have "rend q \<le> rlow (ys ! i)" if "q \<in> set (take i ys)" for q
  proof -
    obtain j where "j < i" "q = ys ! j" using \<open>q \<in> set (take i ys)\<close> assms(3) by (auto simp: in_set_conv_nth)
    then show ?thesis using in_order_chain[OF assms(2) ok] assms(3) by simp
  qed
  moreover have "not_before (ys ! (i + 1)) q" if d: "q \<in> set (drop (i + 2) ys)" for q
  proof -
    obtain j where "j < length (drop (i + 2) ys)" "q = drop (i + 2) ys ! j" using d unfolding in_set_conv_nth by blast
    then show ?thesis using so by (simp add: sorted_wrt_iff_nth_less)
  qed
  ultimately show ?thesis using assms(4) by (auto simp: split_of_def)
qed

lemma split_range_result:
  assumes "arranged m ys" "in_order ys i" "i + 1 < length ys" "within (ys ! (i + 1)) (ys ! i)"
  shows "scan_result ys m (split_range i (ys ! i) (ys ! (i + 1)) m)"
proof -
  let ?r1 = "ys ! i" and ?r2 = "ys ! (i + 1)"
  let ?Q = "mset (take i ys @ drop (i + 2) ys)"
  let ?V = "mset (pieces ?r1 ?r2) + add_mset ?r2 ?Q"
  note sp = split_at[OF assms] and h = arranged_holds[OF assms(1)]
  have ok: "range_ok ?r1" "range_ok ?r2" using assms(1,3) by (simp_all add: arranged_def)
  have ys: "mset ys = add_mset ?r1 (add_mset ?r2 ?Q)" using sp by (simp add: split_of_def)
  have n: "m_ranges m ! i = ?r1" using assms(1,3) by (simp add: arranged_def nth_append)
  have len: "size ?V + 1 = length ys + length (pieces ?r1 ?r2)" using arg_cong[OF ys, of size] by simp
  have le: "length (pieces ?r1 ?r2) \<le> 2" by (simp add: pieces_def)
  note R = split_range_pieces[OF ok assms(4), of i] and A = add_ranges_run[of m "mset ys" "pieces ?r1 ?r2"]
  show ?thesis
  proof (cases "length ys + length (pieces ?r1 ?r2) \<le> 255 \<and> (\<forall>r \<in> set (pieces ?r1 ?r2). 4096 \<le> unat (rsize r))")
    case True
    then obtain m1 where m1: "forE (pieces ?r1 ?r2) add_range m = (Inr (), m1)" "holds_ranges m1 (mset (pieces ?r1 ?r2) + mset ys)"
        "\<forall>j < length ys. m_ranges m1 ! j = m_ranges m ! j"
      using A h by (auto simp: size_mset)
    have "slots ((m_ranges m1)[i := invalid_range]) ?V"
      using m1(2,3) assms(3) n by (intro slots_drop[where r = ?r1]) (auto simp: holds_ranges_def ys slots_def)
    moreover have "(m_num m1 + 255) mod 256 = size ?V"
    proof -
      have n1: "m_num m1 = size ?V + 1" using m1(2) by (simp add: holds_ranges_def ys)
      have "size ?V < 256" using True len by linarith
      moreover have "m_num m1 + 255 = size ?V + 256" using n1 by linarith
      ultimately show ?thesis by (metis mod_add_self2 mod_less)
    qed
    moreover have "all_ok ?V"
    proof -
      have "range_ok p" if "p \<in> set (pieces ?r1 ?r2)" for p
        using pieces_cases[OF ok assms(4) that] True that ok assms(4) range_ok_less[OF ok(2)]
        by cases (auto simp: range_ok_def within_def)
      then show ?thesis using h ys by (auto simp: all_ok_def)
    qed
    ultimately show ?thesis using sp m1(1) True len unfolding R scan_result_def
      by (fastforce simp: seqE_Inr holds_ranges_def)
  next
    case False
    moreover have "pieces ?r1 ?r2 \<noteq> []" using False assms(1) by (auto simp: arranged_def)
    ultimately obtain m1 where "forE (pieces ?r1 ?r2) add_range m = (Inl Expects_failed, m1)"
      using A[OF conjunct1[OF h] conjunct1[OF conjunct2[OF h]], unfolded size_mset if_not_P[OF False]] by blast
    moreover have "255 < size ?V + 1 \<or> (\<exists>p \<in> set (pieces ?r1 ?r2). unat (rsize p) < 4096)" using False len by (auto simp: not_le)
    ultimately show ?thesis using sp unfolding R scan_result_def by (fastforce simp: seqE_Inl)
  qed
qed

lemma scan_ranges_result:
  assumes "arranged m ys" "in_order ys i"
  shows "scan_result ys m (scan_ranges i m)"
  using assms
proof (induction i m rule: scan_ranges.induct)
  case (1 i m)
  have m: "m_num m = length ys" "0 < length ys" "length (m_ranges m) = 256" "length ys < 256" and ok: "\<forall>r \<in> set ys. range_ok r"
    using "1.prems"(1) by (auto simp: arranged_def)
  show ?case
  proof (cases "i + 1 < length ys")
    case False
    then have "in_order ys (length ys)" using "1.prems"(2) by (auto simp: in_order_def)
    moreover have "\<not> i < last_index m" using False m by (auto simp: last_index_def)
    ultimately show ?thesis by (simp add: scan_ranges.simps[of i m] scan_result_def)
  next
    case True
    then have n: "m_ranges m ! i = ys ! i" "m_ranges m ! (i + 1) = ys ! (i + 1)" using "1.prems"(1) by (simp_all add: arranged_def nth_append)
    have o: "range_ok (ys ! i)" "range_ok (ys ! (i + 1))" using ok True by simp_all
    have g: "i < last_index m" "i + 1 < length (m_ranges m)" using True m by (simp_all add: last_index_def)
    have nb: "not_before (ys ! i) (ys ! (i + 1))" using "1.prems"(1) True by (simp add: arranged_def sorted_wrt_iff_nth_less)
    consider (sub) "within (ys ! (i + 1)) (ys ! i)"
      | (clash) "\<not> within (ys ! (i + 1)) (ys ! i)" "rlow (ys ! i) < rlow (ys ! (i + 1))" "rlow (ys ! (i + 1)) < rend (ys ! i)"
      | (apart) "\<not> within (ys ! (i + 1)) (ys ! i)" "rend (ys ! i) \<le> rlow (ys ! (i + 1))"
      using nb unfolding within_def not_before_def by linarith
    then show ?thesis
    proof cases
      case sub
      then show ?thesis using split_range_result[OF "1.prems" True sub] g n o by (simp add: scan_ranges.simps[of i m] is_subset_iff)
    next
      case clash
      have "{#ys ! i, ys ! (i + 1)#} \<subseteq># mset ys" using arg_cong[OF list_split2[OF True], of mset] by simp
      moreover have "\<not> (separate (ys ! i) (ys ! (i + 1)) \<or> inside (ys ! i) (ys ! (i + 1)) \<or> inside (ys ! (i + 1)) (ys ! i))"
        using clash o[THEN range_ok_less] by (auto simp: separate_def inside_def within_def)
      moreover have "scan_ranges i m = (Inl Runtime_error, m)"
        using clash g n o by (simp add: scan_ranges.simps[of i m] is_subset_iff is_intersecting_iff)
      ultimately show ?thesis by (auto simp: scan_result_def)
    next
      case apart
      have "in_order ys (i + 1)" using "1.prems"(2) apart(2) by (auto simp: in_order_def less_Suc_eq)
      moreover have "scan_ranges i m = scan_ranges (i + 1) m"
        using apart g n o by (simp add: scan_ranges.simps[of i m] is_subset_iff is_intersecting_iff)
      ultimately show ?thesis using "1.IH" g apart n o "1.prems"(1) by (simp add: is_subset_iff is_intersecting_iff)
    qed
  qed
qed

section \<open>The loop\<close>

text \<open>Why flattening may stop with an error.\<close>

definition split_fails :: "range_t multiset \<Rightarrow> error \<Rightarrow> bool" where
  "split_fails V e \<longleftrightarrow>
     e = Runtime_error \<and> \<not> nested V \<or>
     e = Expects_failed \<and> (\<exists>r1 r2 Q V'. split_of V r1 r2 Q V' \<and> (255 \<le> size V' \<or> (\<exists>p \<in> set (pieces r1 r2). unat (rsize p) < 4096)))"

text \<open>A property of the ranges that no split destroys.\<close>

definition split_closed :: "(range_t multiset \<Rightarrow> bool) \<Rightarrow> bool" where
  "split_closed P \<longleftrightarrow> (\<forall>V r1 r2 Q V'. P V \<and> split_of V r1 r2 Q V' \<and> all_ok V \<and> all_ok V' \<longrightarrow> P V')"

context std_sort
begin

lemma make_continuous_cases:
  assumes "holds_ranges m V" "all_ok V" "0 < size V" "size V < 256"
  obtains (stop) m' ys where "make_continuous srt m = (Inr True, m')" "mset ys = V" "arranged m' ys" "in_order ys (length ys)"
  | (split) m' r1 r2 Q V' where "make_continuous srt m = (Inr False, m')" "split_of V r1 r2 Q V'" "holds_ranges m' V'" "size V' < 256" "all_ok V'"
  | (fail) e m' where "make_continuous srt m = (Inl e, m')" "split_fails V e"
proof -
  let ?m = "m\<lparr>m_ranges := srt (m_ranges m)\<rparr>"
  have "slots (srt (m_ranges m)) V" using assms(1) by (simp add: holds_ranges_def slots_def srt_perm)
  from sorted_slots[OF srt_sorted this assms(2)] obtain ys where
    ys: "srt (m_ranges m) = ys @ replicate (256 - size V) invalid_range" "mset ys = V" "sorted_wrt not_before ys" by blast
  have len: "length ys = size V" using ys(2) by (metis size_mset)
  have ok: "\<forall>r \<in> set ys. range_ok r" using assms(2) ys(2) by (auto simp: all_ok_def)
  have a: "arranged ?m ys" using assms ys(1,3) len ok by (simp add: arranged_def holds_ranges_def)
  have "make_continuous srt m = scan_ranges 0 ?m" by (simp add: make_continuous_def)
  moreover obtain r m' where x: "scan_ranges 0 ?m = (r, m')" by (rule prod.exhaust)
  ultimately have mc: "make_continuous srt m = (r, m')" by simp
  have R: "scan_result ys ?m (r, m')" using scan_ranges_result[OF a, of 0] by (simp add: in_order_def x)
  consider "r = Inr True" | "r = Inr False" | e where "r = Inl e" by (cases r) auto
  then show ?thesis
  proof cases
    case 1
    then show ?thesis using R a mc ys(2) by (auto simp: scan_result_def intro: stop)
  next
    case 2
    then show ?thesis using R mc ys(2) split by (auto simp: scan_result_def)
  next
    case 3
    have "\<not> nested V" if "{#r, q#} \<subseteq># V" "\<not> (separate r q \<or> inside r q \<or> inside q r)" for r q
      using that unfolding nested_def by blast
    then have "split_fails V e" using R ys(2) unfolding split_fails_def scan_result_def 3 by (auto simp: less_eq_Suc_le)
    then show ?thesis using mc 3 by (intro fail) simp_all
  qed
qed

theorem flatten_result:
  assumes "holds_ranges m V" "all_ok V" "0 < size V" "size V < 256" "P V" and step: "split_closed P"
  shows "\<exists>r m'. flatten srt m = Some (r, m') \<and>
    (case r of Inr u \<Rightarrow> \<exists>ys. arranged m' ys \<and> in_order ys (length ys) \<and> P (mset ys)
     | Inl e \<Rightarrow> \<exists>V'. P V' \<and> all_ok V' \<and> split_fails V' e)"
  using assms(1-5)
proof (induction "total_size V" arbitrary: m V rule: less_induct)
  case less
  from less.prems(1-4) show ?case
  proof (cases rule: make_continuous_cases)
    case (stop m' ys)
    then show ?thesis using less.prems(5) by (auto simp: flatten.simps[of srt m])
  next
    case (split m' r1 r2 Q V')
    have "0 < size V'" using split(2) by (simp add: split_of_def)
    moreover have "P V'" using step less.prems(2,5) split(2,5) unfolding split_closed_def by blast
    ultimately show ?thesis
      using less.hyps[OF split_total_size[OF split(2) less.prems(2)] split(3,5) _ split(4)] split(1)
      by (simp add: flatten.simps[of srt m])
  next
    case (fail e m')
    then show ?thesis using less.prems(2,5) by (auto simp: flatten.simps[of srt m])
  qed
qed

end

section \<open>Flat ranges\<close>

lemma in_order_pairwise:
  assumes "arranged m ys" "in_order ys (length ys)" "i < length ys" "j < i"
  shows "rend (ys ! j) \<le> rlow (ys ! i)"
  using in_order_chain[OF assms(2) _ _ assms(3,4)] assms(1,3) by (simp add: arranged_def)

text \<open>Ranges in order that cover everything below \<open>n\<close> leave no gap.\<close>

lemma covering_contiguous:
  assumes a: "arranged m ys" and o: "in_order ys (length ys)" and c: "\<And>x. covers (mset ys) x \<longleftrightarrow> x < n" and n: "0 < n"
  shows "rlow (ys ! 0) = 0" "i + 1 < length ys \<Longrightarrow> rend (ys ! i) = rlow (ys ! (i + 1))" "rend (ys ! (length ys - 1)) = n"
proof -
  have ne: "0 < length ys" and pos: "\<And>k. k < length ys \<Longrightarrow> rlow (ys ! k) < rend (ys ! k)"
    using a by (auto simp: arranged_def range_ok_less)
  have cov: "(\<exists>k < length ys. in_range x (ys ! k)) \<longleftrightarrow> x < n" for x using c[of x] by (auto simp: covers_def set_conv_nth)
  have le: "rend (ys ! k) \<le> n" if "k < length ys" for k
  proof -
    have "in_range (rend (ys ! k) - 1) (ys ! k)" using pos[OF that] by auto
    then show ?thesis using cov[of "rend (ys ! k) - 1"] pos[OF that] that by auto
  qed
  note pw = in_order_pairwise[OF a o]
  show "rlow (ys ! 0) = 0"
  proof -
    obtain k where k: "k < length ys" "in_range 0 (ys ! k)" using cov[of 0] n by blast
    then show ?thesis using pw[of k 0] pos[of 0] ne by (cases "k = 0") auto
  qed
  show "rend (ys ! i) = rlow (ys ! (i + 1))" if i: "i + 1 < length ys"
  proof -
    have l: "rend (ys ! i) \<le> rlow (ys ! (i + 1))" using pw[OF i, of i] by simp
    have "rend (ys ! i) < n" using l pos[OF i] le[OF i] by simp
    then obtain k where k: "k < length ys" "in_range (rend (ys ! i)) (ys ! k)" using cov by blast
    have "i < k"
    proof (rule ccontr)
      assume "\<not> i < k"
      then show False using pw[of i k] pos[of i] k i by (cases "k = i") auto
    qed
    then have "rlow (ys ! (i + 1)) \<le> rlow (ys ! k)" using pw[of k "i + 1"] pos[OF i] k(1) by (cases "k = i + 1") auto
    then show ?thesis using l k(2) by simp
  qed
  show "rend (ys ! (length ys - 1)) = n"
  proof (rule ccontr)
    let ?z = "length ys - 1"
    assume "rend (ys ! ?z) \<noteq> n"
    then have "rend (ys ! ?z) < n" using le[of ?z] ne by simp
    then obtain k where k: "k < length ys" "in_range (rend (ys ! ?z)) (ys ! k)" using cov by blast
    then have "k = ?z \<or> k < ?z" using ne by linarith
    then show False using pw[of ?z k] pos[of ?z] ne k by auto
  qed
qed

lemma decides_flat:
  assumes "arranged m ys" "in_order ys (length ys)" "decides (mset ys) a t" "i < length ys" "in_range a (ys ! i)"
  shows "rtype (ys ! i) = t"
proof -
  obtain k where k: "k < length ys" "in_range a (ys ! k)" "rtype (ys ! k) = t"
    using assms(3) by (auto simp: decides_def in_set_conv_nth)
  have "k = i" using in_order_pairwise[OF assms(1,2), of i k] in_order_pairwise[OF assms(1,2), of k i] k assms(4,5) by (cases k i rule: linorder_cases) auto
  then show ?thesis using k(3) by simp
qed

end
