(* ===== verification/Mtrrs_Properties.thy ===== *)
theory Mtrrs_Properties
  imports Mtrrs_Spec
begin

text \<open>
  The properties of the memory type ranges: the constructor ends, its ranges cover the address space
  in order, and the type of an address is that of the innermost range around it.
\<close>

section \<open>The ranges of the registers\<close>

definition fixed_range :: range_t where
  "fixed_range = \<lparr>rtype = uncacheable, rbase = 0, rsize = 0x100000\<rparr>"

definition msr_ranges :: "(u32 \<Rightarrow> u64) \<Rightarrow> nat \<Rightarrow> range_t list" where
  "msr_ranges rdmsr addr_size =
     fixed_range #
     map (\<lambda>k. variable_range addr_size (rdmsr (ia32_mtrr_physbase_addr + 2 * k)) (rdmsr (ia32_mtrr_physmask_addr + 2 * k)))
       (filter (\<lambda>k. \<not> flag_is_disabled physmask_valid (rdmsr (ia32_mtrr_physmask_addr + 2 * k)))
         (map of_nat [0 ..< unat (field_get mtrrcap_vcnt (rdmsr ia32_mtrrcap_addr))]))"

lemma forE_guard: "forE xs (\<lambda>k. if c k then returnE () else f k) = forE (filter (\<lambda>k. \<not> c k) xs) f"
  by (induction xs) simp_all

lemma read_msr_ranges: "seqE get_fixed_ranges (get_variable_ranges rdmsr addr_size) = forE (msr_ranges rdmsr addr_size) add_range"
  unfolding get_variable_ranges_def Let_def forE_guard
  by (simp add: msr_ranges_def get_fixed_ranges_def fixed_range_def add_variable_range_def forE_map comp_def)

text \<open>A range on page boundaries below the top of the address space, or up to it.\<close>

definition on_pages :: "range_t \<Rightarrow> bool" where
  "on_pages r \<longleftrightarrow> 4096 dvd rlow r \<and> rlow r \<le> 2 ^ 53 \<and> (4096 dvd rend r \<and> rend r \<le> 2 ^ 53 \<or> rend r = 2 ^ 64 - 1)"

lemma bit_mtrr_mask: "bit (0x000FFFFFFFFFF000 :: u64) n \<longleftrightarrow> 12 \<le> n \<and> n < 52"
proof -
  have "(0x000FFFFFFFFFF000 :: u64) = push_bit 12 (mask 40)" by (simp add: mask_eq_exp_minus_1 push_bit_eq_mult)
  then show ?thesis by (simp only: bit_push_bit_iff bit_mask_iff) auto
qed

lemma unat_mod_take_bit: "unat (w :: u64) mod 2 ^ n = unat (take_bit n w)"
  unfolding unsigned_take_bit_eq by (simp add: take_bit_eq_mod)

lemma base_bounds:
  fixes x :: u64
  defines "b \<equiv> physbase_to_base (field_get physbase_physbase x)"
  shows "4096 dvd unat b" "unat b < 2 ^ 52"
proof -
  have bit: "bit b n \<longleftrightarrow> 12 \<le> n \<and> n < 52 \<and> bit x n" for n
    by (auto simp: b_def physbase_to_base_def field_get_def physbase_physbase_def bit_push_bit_iff bit_drop_bit_eq bit_mtrr_mask
        simp del: bit_numeral_word_iff)
  have "take_bit 12 b = 0" by (rule u64_eqI) (simp add: bit_take_bit_iff bit)
  then show "4096 dvd unat b" using unat_mod_take_bit[of b 12] by (simp add: dvd_eq_mod_eq_0)
  have "take_bit 52 b = b" by (rule u64_eqI) (auto simp: bit_take_bit_iff bit)
  then show "unat b < 2 ^ 52" by (rule take_bit_unat_less)
qed

lemma dvd_succ: "(n :: nat) mod 4096 = 4095 \<Longrightarrow> 4096 dvd n + 1"
  by (simp add: dvd_eq_mod_eq_0 mod_Suc)

lemma size_bounds:
  assumes "addr_size \<le> 52"
  shows "0 < unat (physmask_to_size addr_size x)" "unat (physmask_to_size addr_size x) \<le> 2 ^ 52"
    "12 \<le> addr_size \<Longrightarrow> 4096 dvd unat (physmask_to_size addr_size x)"
proof -
  let ?y = "NOT (push_bit 12 x) AND (push_bit addr_size 1 - 1)"
  have y: "?y = take_bit addr_size (NOT (push_bit 12 x))" by (simp add: take_bit_eq_mask mask_eq_exp_minus_1 push_bit_eq_mult)
  then have "take_bit addr_size ?y = ?y" by simp
  then have "unat ?y < 2 ^ addr_size" by (rule take_bit_unat_less)
  also have "(2::nat) ^ addr_size \<le> 2 ^ 52" using assms by (intro power_increasing) simp_all
  finally have l: "unat ?y < 2 ^ 52" .
  have s: "unat (physmask_to_size addr_size x) = unat ?y + 1"
    using l unfolding physmask_to_size_def by (subst unat_word_ariths) simp
  show "0 < unat (physmask_to_size addr_size x)" "unat (physmask_to_size addr_size x) \<le> 2 ^ 52" using s l by simp_all
  show "4096 dvd unat (physmask_to_size addr_size x)" if "12 \<le> addr_size"
  proof -
    have "take_bit 12 ?y = mask 12" unfolding y using that by (intro u64_eqI) (auto simp: bit_take_bit_iff bit_mask_iff bit_not_iff bit_push_bit_iff)
    then have "unat ?y mod 2 ^ 12 = 4095" unfolding unat_mod_take_bit by (simp add: mask_eq_exp_minus_1)
    then have "unat ?y mod 4096 = 4095" by simp
    then show ?thesis unfolding s by (rule dvd_succ)
  qed
qed

lemma msr_ranges_bounds:
  assumes "addr_size \<le> 52" "r \<in> set (msr_ranges rdmsr addr_size)"
  shows "rend r \<le> 2 ^ 53" "12 \<le> addr_size \<Longrightarrow> on_pages r \<and> 4096 \<le> unat (rsize r)"
proof -
  consider "r = fixed_range" | x y where "r = variable_range addr_size x y" using assms(2) by (auto simp: msr_ranges_def)
  then have "rend r \<le> 2 ^ 53 \<and> (12 \<le> addr_size \<longrightarrow> on_pages r \<and> 4096 \<le> unat (rsize r))"
  proof cases
    case 1
    then show ?thesis by (simp add: fixed_range_def on_pages_def rlow_def rend_def)
  next
    case 2
    note b = base_bounds[of x] and s = size_bounds[OF assms(1), of "field_get physmask_physmask y"]
    have r: "rbase r = physbase_to_base (field_get physbase_physbase x)" "rsize r = physmask_to_size addr_size (field_get physmask_physmask y)"
      by (simp_all add: 2 variable_range_def)
    show ?thesis unfolding on_pages_def rlow_def rend_def r using b s dvd_imp_le[of 4096 "unat (rsize r)"] unfolding r by auto
  qed
  then show "rend r \<le> 2 ^ 53" "12 \<le> addr_size \<Longrightarrow> on_pages r \<and> 4096 \<le> unat (rsize r)" by blast+
qed

lemma no_ranges_holds: "holds_ranges no_ranges {#} \<and> packed no_ranges"
  by (simp add: holds_ranges_def packed_def slots_def no_ranges_def)

lemma read_ranges_holds:
  assumes "seqE get_fixed_ranges (get_variable_ranges rdmsr addr_size) no_ranges = (Inr u, m)" "addr_size \<le> 52"
  shows "holds_ranges m (mset (msr_ranges rdmsr addr_size))" "all_ok (mset (msr_ranges rdmsr addr_size))"
    "length (msr_ranges rdmsr addr_size) < 256"
proof -
  let ?L = "msr_ranges rdmsr addr_size"
  have ne: "?L \<noteq> []" by (simp add: msr_ranges_def)
  have run: "forE ?L add_range no_ranges = (Inr u, m)" using assms(1) unfolding read_msr_ranges .
  note A = add_ranges_run[of no_ranges "{#}" ?L, OF conjunct1[OF no_ranges_holds] conjunct2[OF no_ranges_holds]]
  have c: "length ?L \<le> 255 \<and> (\<forall>r \<in> set ?L. 4096 \<le> unat (rsize r))"
  proof (rule ccontr)
    assume n: "\<not> ?thesis"
    then show False using A run ne by (auto split: if_splits)
  qed
  then show "holds_ranges m (mset ?L)" using A run by (auto split: if_splits)
  show "length ?L < 256" using c by linarith
  have "range_ok r" if "r \<in> set ?L" for r using msr_ranges_bounds(1)[OF assms(2) that] c that by (auto simp: range_ok_def)
  then show "all_ok (mset ?L)" by (simp add: all_ok_def)
qed

section \<open>The constructor\<close>

text \<open>The ranges of the array adjoin from address zero to the top of the address space.\<close>

definition continuous :: "mtrrs \<Rightarrow> bool" where
  "continuous m \<longleftrightarrow>
     0 < m_num m \<and> m_num m < 256 \<and> length (m_ranges m) = 256 \<and>
     rlow (m_ranges m ! 0) = 0 \<and> rend (m_ranges m ! (m_num m - 1)) = 2 ^ 64 - 1 \<and>
     (\<forall>i < m_num m. range_ok (m_ranges m ! i)) \<and>
     (\<forall>i. i + 1 < m_num m \<longrightarrow> rend (m_ranges m ! i) = rlow (m_ranges m ! (i + 1)))"

lemma arranged_nth: "arranged m ys \<Longrightarrow> i < m_num m \<Longrightarrow> m_ranges m ! i = ys ! i"
  by (simp add: arranged_def nth_append)

lemma continuousI:
  assumes "arranged m ys" "in_order ys (length ys)" "\<And>x. covers (mset ys) x \<longleftrightarrow> x < 2 ^ 64 - 1"
  shows "continuous m"
  using covering_contiguous[OF assms] assms(1) arranged_nth[OF assms(1)]
  by (auto simp: continuous_def arranged_def)

lemma default_range_bounds:
  "rlow (default_range t) = 0" "rend (default_range t) = 2 ^ 64 - 1" "range_ok (default_range t)" "rtype (default_range t) = t" "4096 \<le> unat (rsize (default_range t))"
  by (simp_all add: default_range_def rlow_def rend_def range_ok_def)

lemma flat_default:
  assumes a: "arranged m ys" and r: "add_range (default_range t) m = (Inr u, m')"
  shows "holds_ranges m' (add_mset (default_range t) (mset ys))" "all_ok (add_mset (default_range t) (mset ys))" "size (add_mset (default_range t) (mset ys)) < 256"
proof -
  note h = arranged_holds[OF a]
  have s: "length ys < 255" using add_range_run(2)[OF conjunct1[OF h] conjunct1[OF conjunct2[OF h]], of "default_range t"] r by (fastforce simp: size_mset)
  then show "holds_ranges m' (add_mset (default_range t) (mset ys))" "size (add_mset (default_range t) (mset ys)) < 256"
    using add_range_run(1)[OF conjunct1[OF h] conjunct1[OF conjunct2[OF h]], of "default_range t"] r default_range_bounds(5)[of t] by auto
  show "all_ok (add_mset (default_range t) (mset ys))" using h default_range_bounds(3) by (simp add: all_ok_def)
qed

text \<open>The whole constructor, for any property of the ranges that splitting keeps.\<close>

definition disabled :: "(u32 \<Rightarrow> u64) \<Rightarrow> bool" where
  "disabled rdmsr \<longleftrightarrow> flag_is_disabled def_type_mtrr_enable (rdmsr ia32_mtrr_def_type_addr)"

definition default_type :: "(u32 \<Rightarrow> u64) \<Rightarrow> memory_type_t" where
  "default_type rdmsr = mtrr_type (field_get def_type_type (rdmsr ia32_mtrr_def_type_addr))"

lemma read_ranges_result:
  assumes srt: "std_sort srt" and n: "addr_size \<le> 52" "\<not> disabled rdmsr" and P: "P (mset (msr_ranges rdmsr addr_size))"
    and Pstep: "split_closed P"
    and PR: "\<forall>m ys. P (mset ys) \<and> arranged m ys \<and> in_order ys (length ys) \<longrightarrow> R (add_mset (default_range (default_type rdmsr)) (mset ys))"
    and Rstep: "split_closed R"
  shows "\<exists>r m. read_ranges srt rdmsr addr_size no_ranges = Some (r, m) \<and>
    (case r of Inr u \<Rightarrow> \<exists>ys. arranged m ys \<and> in_order ys (length ys) \<and> R (mset ys)
     | Inl e \<Rightarrow> 255 < length (msr_ranges rdmsr addr_size) \<or> (\<exists>q \<in> set (msr_ranges rdmsr addr_size). unat (rsize q) < 4096) \<or>
         (\<exists>V. P V \<and> (255 \<le> size V \<or> all_ok V \<and> split_fails V e)) \<or> (\<exists>V. R V \<and> all_ok V \<and> split_fails V e))"
proof -
  let ?L = "msr_ranges rdmsr addr_size" and ?d = "default_range (default_type rdmsr)"
  note u = read_ranges_def[of srt rdmsr addr_size no_ranges, folded disabled_def default_type_def, unfolded if_not_P[OF n(2)]]
  obtain r1 m1 where 1: "seqE get_fixed_ranges (get_variable_ranges rdmsr addr_size) no_ranges = (r1, m1)" by (rule prod.exhaust)
  show ?thesis
  proof (cases r1)
    case (Inl e)
    have "255 < length ?L \<or> (\<exists>q \<in> set ?L. unat (rsize q) < 4096)"
      using add_ranges_run[of no_ranges "{#}" ?L] no_ranges_holds 1 Inl unfolding read_msr_ranges by (auto simp: not_le split: if_splits)
    then show ?thesis using 1 Inl by (auto simp: u)
  next
    case (Inr x)
    note h = read_ranges_holds[OF 1[unfolded Inr] n(1)]
    have "0 < size (mset ?L)" by (simp add: msr_ranges_def)
    from std_sort.flatten_result[where P = P, OF srt h(1,2) this _ P Pstep] h(3)
    obtain r2 m2 where 2: "flatten srt m1 = Some (r2, m2)"
      "case r2 of Inr u \<Rightarrow> \<exists>ys. arranged m2 ys \<and> in_order ys (length ys) \<and> P (mset ys) | Inl e \<Rightarrow> \<exists>V'. P V' \<and> all_ok V' \<and> split_fails V' e"
      by (auto simp: size_mset)
    show ?thesis
    proof (cases r2)
      case (Inl e)
      then show ?thesis using 1 Inr 2 by (auto simp: u)
    next
      case r2: (Inr y)
      then obtain ys where ys: "arranged m2 ys" "in_order ys (length ys)" "P (mset ys)" using 2(2) by auto
      obtain r3 m3 where 3: "add_range ?d m2 = (r3, m3)" by (rule prod.exhaust)
      show ?thesis
      proof (cases r3)
        case (Inl e)
        have "255 \<le> size (mset ys)"
          using add_range_run(1)[of m2 "mset ys" ?d] arranged_holds[OF ys(1)] 3 Inl default_range_bounds(5)[of "default_type rdmsr"] by (force simp: size_mset)
        then show ?thesis using 1 Inr 2(1) r2 3 Inl ys(3) by (auto simp: u)
      next
        case r3: (Inr z)
        note f = flat_default[OF ys(1) 3[unfolded r3]]
        have p: "0 < size (add_mset ?d (mset ys))" by simp
        have "R (add_mset ?d (mset ys))" using PR ys by blast
        from std_sort.flatten_result[where P = R, OF srt f(1,2) p f(3) this Rstep]
        obtain r4 m4 where 4: "flatten srt m3 = Some (r4, m4)"
          "case r4 of Inr u \<Rightarrow> \<exists>ys. arranged m4 ys \<and> in_order ys (length ys) \<and> R (mset ys) | Inl e \<Rightarrow> \<exists>V'. R V' \<and> all_ok V' \<and> split_fails V' e"
          by blast
        have e: "read_ranges srt rdmsr addr_size no_ranges = Some (r4, m4)" using 1 Inr 2(1) r2 3 r3 4(1) by (simp add: u)
        show ?thesis unfolding e using 4(2) by (cases r4) auto
      qed
    qed
  qed
qed

lemma disabled_ranges:
  assumes "disabled rdmsr"
  shows "read_ranges srt rdmsr addr_size no_ranges =
    Some (Inr (), \<lparr>m_num = 1, m_ranges = (replicate 256 invalid_range)[0 := default_range write_back]\<rparr>)"
proof -
  have "pt_page_size \<le> rsize (default_range write_back)" by (simp add: pt_page_size_def default_range_def)
  then show ?thesis using assms by (simp add: read_ranges_def disabled_def add_range_def no_ranges_def)
qed

lemma covers_default:
  assumes "arranged m ys"
  shows "covers (add_mset (default_range t) (mset ys)) x \<longleftrightarrow> x < 2 ^ 64 - 1"
proof -
  have "rend r \<le> 2 ^ 64 - 1" if "r \<in> set ys" for r using assms that by (auto simp: arranged_def range_ok_def)
  then show ?thesis using default_range_bounds(1,2)[of t] by (fastforce simp: covers_def)
qed

text \<open>
  C33. The constructor of the memory type ranges ends, for every content of the registers and whatever
  order \<open>std::sort\<close> gives to equivalent ranges.  It leaves no range if an error occurred,
  and otherwise ranges of at least one page that adjoin from address zero to the top of the address space.
\<close>

theorem make_mtrrs_ends:
  assumes "std_sort srt" "addr_size \<le> 52"
  shows "\<exists>m. make_mtrrs srt rdmsr addr_size = Some m \<and> (m_num m = 0 \<or> continuous m)"
proof (cases "disabled rdmsr")
  case True
  have "(replicate 256 invalid_range)[0 := r] ! 0 = r" for r by (rule nth_list_update_eq) simp
  then have "continuous \<lparr>m_num = 1, m_ranges = (replicate 256 invalid_range)[0 := default_range write_back]\<rparr>"
    using default_range_bounds[of write_back] by (simp add: continuous_def)
  then show ?thesis using disabled_ranges[OF True] by (simp add: make_mtrrs_def)
next
  case False
  let ?R = "\<lambda>V. \<forall>x. covers V x \<longleftrightarrow> x < 2 ^ 64 - 1"
  have R0: "\<forall>m ys. True \<and> arranged m ys \<and> in_order ys (length ys) \<longrightarrow> ?R (add_mset (default_range (default_type rdmsr)) (mset ys))"
    using covers_default by blast
  have R1: "split_closed ?R" unfolding split_closed_def using split_covers by blast
  have T: "split_closed (\<lambda>V. True)" by (simp add: split_closed_def)
  obtain r m where r: "read_ranges srt rdmsr addr_size no_ranges = Some (r, m)"
    "case r of Inr u \<Rightarrow> \<exists>ys. arranged m ys \<and> in_order ys (length ys) \<and> ?R (mset ys) | Inl e \<Rightarrow> True"
    using read_ranges_result[where P = "\<lambda>V. True" and R = ?R, OF assms False TrueI T R0 R1] by (fastforce split: sum.splits)
  show ?thesis
  proof (cases r)
    case (Inl e)
    then show ?thesis using r(1) by (simp add: make_mtrrs_def)
  next
    case (Inr u)
    then obtain ys where "arranged m ys" "in_order ys (length ys)" "?R (mset ys)" using r(2) by auto
    then have "continuous m" by (intro continuousI) blast+
    then show ?thesis using r(1) Inr by (simp add: make_mtrrs_def)
  qed
qed

section \<open>Types\<close>

text \<open>The reference: the type of the smallest range around the address, or the default type.\<close>

fun innermost :: "range_t list \<Rightarrow> nat \<Rightarrow> range_t option" where
  "innermost [] a = None"
| "innermost (r # rs) a =
     (case innermost rs a of
        None \<Rightarrow> if in_range a r then Some r else None
      | Some q \<Rightarrow> if in_range a r \<and> rsize r < rsize q then Some r else Some q)"

definition reference_type :: "(u32 \<Rightarrow> u64) \<Rightarrow> nat \<Rightarrow> nat \<Rightarrow> memory_type_t" where
  "reference_type rdmsr addr_size a =
     (case innermost (msr_ranges rdmsr addr_size) a of Some r \<Rightarrow> rtype r | None \<Rightarrow> default_type rdmsr)"

lemma innermost_None: "innermost rs a = None \<longleftrightarrow> \<not> covers (mset rs) a"
  by (induction rs) (auto simp: covers_def split: option.splits)

lemma innermost_Some:
  "innermost rs a = Some r \<Longrightarrow> r \<in> set rs \<and> in_range a r \<and> (\<forall>q \<in> set rs. in_range a q \<longrightarrow> rsize r \<le> rsize q)"
proof (induction rs arbitrary: r)
  case (Cons x rs)
  show ?case
  proof (cases "innermost rs a")
    case None
    then have "\<forall>q \<in> set rs. \<not> in_range a q" using innermost_None[of rs a] by (auto simp: covers_def)
    then show ?thesis using Cons.prems None by (auto split: if_splits)
  next
    case (Some q)
    then show ?thesis using Cons.prems Cons.IH[OF Some] by (fastforce split: if_splits)
  qed
qed simp

lemma innermost_decides:
  assumes "nested (mset rs)" "innermost rs a = Some r"
  shows "decides (mset rs) a (rtype r)"
proof -
  note I = innermost_Some[OF assms(2)]
  have "within r q" if q: "q \<in> set rs" "in_range a q" for q
  proof (cases "q = r")
    case True
    then show ?thesis by (simp add: within_def)
  next
    case False
    have "separate r q \<or> inside r q \<or> inside q r" by (rule nestedD[OF assms(1)]) (use I q False in \<open>simp_all add: in_diff_count\<close>)
    moreover have "\<not> separate r q" using I q(2) by (auto simp: separate_def)
    moreover have "\<not> inside q r" using I q by (fastforce simp: inside_def within_def rlow_def rend_def word_le_nat_alt)
    ultimately show ?thesis unfolding inside_def by blast
  qed
  then show ?thesis using I by (auto simp: decides_def)
qed

text \<open>Ranges that flatten without an error.\<close>

definition flattens :: "nat \<Rightarrow> range_t multiset \<Rightarrow> bool" where
  "flattens B V \<longleftrightarrow> nested V \<and> untiled V \<and> (\<forall>r \<in># V. on_pages r) \<and> size V + parts V \<le> B"

lemma split_size: "split_of V r1 r2 Q V' \<Longrightarrow> size V' \<le> size V + 1"
  by (simp add: split_of_def pieces_def)

lemma on_pages_piece:
  assumes "range_ok r1" "range_ok r2" "within r2 r1" "on_pages r1" "on_pages r2" "p \<in> set (pieces r1 r2)"
  shows "on_pages p \<and> 4096 \<le> unat (rsize p)"
proof -
  have sz: "unat (rsize p) = rend p - rlow p" by (simp add: rend_def rlow_def)
  have d: "4096 \<le> y - x" if "4096 dvd x" "4096 dvd y" "x < y" for x y :: nat
    using that dvd_imp_le[of 4096 "y - x"] by (simp add: dvd_diff_nat)
  from assms(1-3,6) show ?thesis
  proof (cases rule: pieces_cases)
    case low
    have "4096 dvd rlow r1" "4096 dvd rlow r2" "rlow r2 \<le> 2 ^ 53" using assms(4,5) by (simp_all add: on_pages_def)
    then show ?thesis using low d[of "rlow r1" "rlow r2"] unfolding sz on_pages_def by simp
  next
    case high
    have e: "4096 dvd rend r2 \<and> rend r2 \<le> 2 ^ 53" using assms(4,5) high(4) range_ok_less[OF assms(1)] by (auto simp: on_pages_def)
    show ?thesis
    proof (cases "rend r1 = 2 ^ 64 - 1")
      case True
      moreover have "(4096 :: nat) \<le> 2 ^ 64 - 1 - 2 ^ 53" by simp
      ultimately have "4096 \<le> rend r1 - rend r2" using e by linarith
      then show ?thesis using e high True unfolding sz on_pages_def by simp
    next
      case False
      then have "4096 dvd rend r1 \<and> rend r1 \<le> 2 ^ 53" using assms(4) by (simp add: on_pages_def)
      then show ?thesis using e high d[of "rend r2" "rend r1"] unfolding sz on_pages_def by simp
    qed
  qed
qed

lemma split_flattens:
  assumes "flattens B V" "split_of V r1 r2 Q V'" "all_ok V"
  shows "flattens B V'"
proof -
  note f = assms(1)[unfolded flattens_def] and S = split_facts[OF assms(2,3)]
  have "on_pages r" if r: "r \<in># V'" for r
  proof (cases "r \<in> set (pieces r1 r2)")
    case True
    have "on_pages r1" "on_pages r2" using f unfolding S(1) by auto
    then show ?thesis using on_pages_piece[OF S(4,5,3) _ _ True] by blast
  next
    case False
    then show ?thesis using r f unfolding S(1,2) by auto
  qed
  moreover have "size V' + parts V' \<le> B" using f split_size[OF assms(2)] split_parts[OF assms(2,3)] by linarith
  ultimately show ?thesis
    using f split_nested[OF assms(2,3)] split_untiled[OF assms(2,3)] by (simp add: flattens_def)
qed

lemma flattens_no_error:
  assumes "flattens B V" "all_ok V" "B \<le> 254"
  shows "\<not> split_fails V e"
proof
  note f = assms(1)[unfolded flattens_def]
  assume "split_fails V e"
  then obtain r1 r2 Q V' where s: "split_of V r1 r2 Q V'" "255 \<le> size V' \<or> (\<exists>p \<in> set (pieces r1 r2). unat (rsize p) < 4096)"
    using f unfolding split_fails_def by blast
  note S = split_facts[OF s(1) assms(2)]
  have "on_pages r1" "on_pages r2" using f unfolding S(1) by auto
  then have "4096 \<le> unat (rsize p)" if "p \<in> set (pieces r1 r2)" for p using on_pages_piece[OF S(4,5,3) _ _ that] by blast
  then have "255 \<le> size V'" using s(2) by fastforce
  moreover have "parts V' < parts V" using f split_parts[OF s(1) assms(2)] by blast
  ultimately show False using f split_size[OF s(1)] assms(3) by linarith
qed

lemma parts_le: "parts V \<le> size V"
  by (simp add: parts_def size_mset_mono)

text \<open>Adding the range of the default type around flat ranges.\<close>

lemma flattens_default:
  assumes "arranged m ys" "in_order ys (length ys)" "\<forall>r \<in> set ys. on_pages r \<and> rend r \<le> 2 ^ 53" "length ys \<le> 126"
  shows "flattens 254 (add_mset (default_range t) (mset ys))"
proof -
  let ?d = "default_range t"
  note db = default_range_bounds[of t]
  have pos: "rlow r < rend r" if "r \<in> set ys" for r using assms(1) that by (auto simp: arranged_def range_ok_less)
  have pw: "sorted_wrt (\<lambda>a b. rend a \<le> rlow b) ys"
    unfolding sorted_wrt_iff_nth_less using in_order_pairwise[OF assms(1,2)] by blast
  have "sorted_wrt (\<lambda>a b. separate a b \<or> inside a b \<or> inside b a) ys"
    by (rule sorted_wrt_mono_rel[OF _ pw]) (simp add: separate_def)
  then have "nested (mset ys + {#})" by (rule nested_append[rotated]) (simp_all add: nested_def)
  moreover have "separate ?d q \<or> inside ?d q \<or> inside q ?d" if "q \<in> set ys" for q
    using db assms(3) that pos[OF that] by (auto simp: inside_def within_def)
  ultimately have n: "nested (add_mset ?d (mset ys))" by (simp add: nested_add)
  have flat: "rlow a = rlow b \<and> rend a = rend b \<or> rend a \<le> rlow b \<or> rend b \<le> rlow a" if "a \<in> set ys" "b \<in> set ys" for a b
  proof -
    obtain i j where "i < length ys" "a = ys ! i" "j < length ys" "b = ys ! j" using \<open>a \<in> set ys\<close> \<open>b \<in> set ys\<close> unfolding in_set_conv_nth by blast
    then show ?thesis using in_order_pairwise[OF assms(1,2), of i j] in_order_pairwise[OF assms(1,2), of j i] by (cases i j rule: linorder_cases) auto
  qed
  have "untiled (add_mset ?d (mset ys))"
    unfolding untiled_def
  proof (intro ballI notI)
    fix r q p assume m: "r \<in># add_mset ?d (mset ys)" "q \<in># add_mset ?d (mset ys)" "p \<in># add_mset ?d (mset ys)"
      and t: "within q r \<and> within p r \<and> rend q = rlow p \<and> rend p = rend r"
    have ps: "rlow x < rend x" if "x \<in># add_mset ?d (mset ys)" for x using that pos db by auto
    show False
    proof (cases "p = ?d")
      case True
      then show False using t db ps[OF m(2)] by simp
    next
      case False
      then have p: "p \<in> set ys" "rend p \<le> 2 ^ 53" using m(3) assms(3) by auto
      then have "r \<in> set ys" using m(1) t db by auto
      then have "rlow p = rlow r" using flat[OF p(1), of r] t pos[OF p(1)] pos[of r] by (auto simp: within_def)
      then show False using t ps[OF m(2)] by (auto simp: within_def)
    qed
  qed
  moreover have "on_pages ?d" using db by (simp add: on_pages_def)
  moreover have "size (add_mset ?d (mset ys)) + parts (add_mset ?d (mset ys)) \<le> 254"
    using parts_le[of "add_mset ?d (mset ys)"] assms(4) by simp
  ultimately show ?thesis using n assms(3) by (simp add: flattens_def)
qed

lemma decides_default:
  assumes "arranged m ys" "decides (mset ys) a t"
  shows "decides (add_mset (default_range t') (mset ys)) a t"
proof -
  have "within r (default_range t')" if "r \<in> set ys" for r
    using assms(1) that default_range_bounds[of t'] by (auto simp: arranged_def within_def range_ok_def)
  then show ?thesis using assms(2) by (auto simp: decides_def)
qed

lemma decides_uncovered:
  assumes "\<not> covers (mset ys) a" "a < 2 ^ 64 - 1"
  shows "decides (add_mset (default_range t) (mset ys)) a t"
  using assms default_range_bounds[of t] by (auto simp: decides_def covers_def within_def)

text \<open>
  C32. The flattened ranges give every address its type: when the ranges of the registers are apart or
  properly nested, and none of them ends with two adjoining parts, the constructor succeeds, and
  the range that it has for an address has the type of the smallest range of the registers around the
  address, or the default type if there is none.
\<close>

theorem make_mtrrs_types:
  assumes "std_sort srt" "12 \<le> addr_size" "addr_size \<le> 52" "\<not> disabled rdmsr"
    and "nested (mset (msr_ranges rdmsr addr_size))" "untiled (mset (msr_ranges rdmsr addr_size))" "length (msr_ranges rdmsr addr_size) \<le> 63"
  shows "\<exists>m. make_mtrrs srt rdmsr addr_size = Some m \<and> continuous m \<and>
    (\<forall>i a. i < m_num m \<longrightarrow> in_range a (m_ranges m ! i) \<longrightarrow> rtype (m_ranges m ! i) = reference_type rdmsr addr_size a)"
proof -
  let ?L = "mset (msr_ranges rdmsr addr_size)" and ?d = "default_range (default_type rdmsr)"
  let ?P = "\<lambda>V. flattens 126 V \<and> (\<forall>r \<in># V. rend r \<le> 2 ^ 53) \<and> (\<forall>a t. decides ?L a t \<longrightarrow> decides V a t) \<and> (\<forall>a. covers V a \<longleftrightarrow> covers ?L a)"
  let ?R = "\<lambda>V. flattens 254 V \<and> (\<forall>a < 2 ^ 64 - 1. decides V a (reference_type rdmsr addr_size a)) \<and> (\<forall>a. covers V a \<longleftrightarrow> a < 2 ^ 64 - 1)"
  note b = msr_ranges_bounds[OF assms(3)]
  have P0: "?P ?L" using assms(2,5-7) b parts_le[of ?L] by (auto simp: flattens_def size_mset)
  have le: "rend p \<le> 2 ^ 53" if "split_of V r1 r2 Q V'" "all_ok V" "\<forall>r \<in># V. rend r \<le> 2 ^ 53" "p \<in># V'" for V r1 r2 Q V' p
  proof (cases "p \<in> set (pieces r1 r2)")
    case True
    have "rend r1 \<le> 2 ^ 53" "rlow r2 < rend r2" "rend r2 \<le> 2 ^ 53" using split_facts(1,6)[OF that(1,2)] that(3) by auto
    then show ?thesis using split_facts(9)[OF that(1,2) True] by auto
  next
    case False
    then show ?thesis using that(3,4) split_facts(1,2)[OF that(1,2)] by auto
  qed
  have P1: "split_closed ?P"
    unfolding split_closed_def
  proof (intro allI impI, elim conjE)
    fix V r1 r2 Q V' assume s: "split_of V r1 r2 Q V'" and ok: "all_ok V" and f: "flattens 126 V" and e: "\<forall>r \<in># V. rend r \<le> 2 ^ 53"
      and d: "\<forall>a t. decides ?L a t \<longrightarrow> decides V a t" and c: "\<forall>a. covers V a \<longleftrightarrow> covers ?L a"
    have "nested V" using f by (simp add: flattens_def)
    then show "?P V'" using split_flattens[OF f s ok] le[OF s ok e] d split_decides[OF s ok] split_covers[OF s ok] c by blast
  qed
  have R0: "\<forall>m ys. ?P (mset ys) \<and> arranged m ys \<and> in_order ys (length ys) \<longrightarrow> ?R (add_mset ?d (mset ys))"
  proof (intro allI impI, elim conjE)
    fix m ys assume a: "arranged m ys" "in_order ys (length ys)" and f: "flattens 126 (mset ys)" and e: "\<forall>r \<in># mset ys. rend r \<le> 2 ^ 53"
      and d: "\<forall>a t. decides ?L a t \<longrightarrow> decides (mset ys) a t" and c: "\<forall>a. covers (mset ys) a \<longleftrightarrow> covers ?L a"
    have "flattens 254 (add_mset ?d (mset ys))" by (rule flattens_default[OF a]) (use f e in \<open>auto simp: flattens_def\<close>)
    moreover have "decides (add_mset ?d (mset ys)) x (reference_type rdmsr addr_size x)" if "x < 2 ^ 64 - 1" for x
    proof (cases "innermost (msr_ranges rdmsr addr_size) x")
      case None
      then have nc: "\<not> covers (mset ys) x" unfolding innermost_None using c by simp
      show ?thesis unfolding reference_type_def None option.case by (rule decides_uncovered[OF nc that])
    next
      case (Some r)
      then show ?thesis using decides_default[OF a(1)] d innermost_decides[OF assms(5) Some] by (simp add: reference_type_def)
    qed
    ultimately show "?R (add_mset ?d (mset ys))" using covers_default[OF a(1)] by blast
  qed
  have R1: "split_closed ?R"
    unfolding split_closed_def
  proof (intro allI impI, elim conjE)
    fix V r1 r2 Q V' assume s: "split_of V r1 r2 Q V'" and ok: "all_ok V" and f: "flattens 254 V"
      and d: "\<forall>a < 2 ^ 64 - 1. decides V a (reference_type rdmsr addr_size a)" and c: "\<forall>a. covers V a \<longleftrightarrow> a < 2 ^ 64 - 1"
    have "nested V" using f by (simp add: flattens_def)
    then show "?R V'" using split_flattens[OF f s ok] d split_decides[OF s ok] split_covers[OF s ok] c by blast
  qed
  from read_ranges_result[where P = ?P and R = ?R, OF assms(1,3,4) P0 P1 R0 R1]
  obtain r m where r: "read_ranges srt rdmsr addr_size no_ranges = Some (r, m)"
    "case r of Inr u \<Rightarrow> \<exists>ys. arranged m ys \<and> in_order ys (length ys) \<and> ?R (mset ys)
     | Inl e \<Rightarrow> 255 < length (msr_ranges rdmsr addr_size) \<or> (\<exists>q \<in> set (msr_ranges rdmsr addr_size). unat (rsize q) < 4096) \<or>
         (\<exists>V. ?P V \<and> (255 \<le> size V \<or> all_ok V \<and> split_fails V e)) \<or> (\<exists>V. ?R V \<and> all_ok V \<and> split_fails V e)"
    by blast
  obtain u where u: "r = Inr u"
  proof (cases r)
    case (Inl e)
    have "\<not> 255 \<le> size V" if "flattens 126 V" for V using that by (simp add: flattens_def)
    moreover have "\<not> split_fails V e" if "flattens B V" "B \<in> {126, 254}" "all_ok V" for V B using flattens_no_error[OF that(1,3)] that(2) by auto
    moreover have "\<not> unat (rsize q) < 4096" if "q \<in> set (msr_ranges rdmsr addr_size)" for q using b(2)[OF that assms(2)] by simp
    ultimately show ?thesis using r(2) assms(7) unfolding Inl by fastforce
  qed
  obtain ys where ys: "arranged m ys" "in_order ys (length ys)" "?R (mset ys)" using r(2) u by auto
  have "continuous m" using ys by (intro continuousI) blast+
  moreover have "rtype (m_ranges m ! i) = reference_type rdmsr addr_size a" if "i < m_num m" "in_range a (m_ranges m ! i)" for i a
  proof -
    have i: "i < length ys" "m_ranges m ! i = ys ! i" using ys(1) that(1) arranged_nth by (auto simp: arranged_def)
    then have "covers (mset ys) a" using that(2) by (auto simp: covers_def)
    then show ?thesis using decides_flat[OF ys(1,2) _ i(1)] ys(3) that(2) i(2) by auto
  qed
  ultimately show ?thesis using r(1) u by (simp add: make_mtrrs_def)
qed

section \<open>Concrete registers\<close>

lemma continuous_covers:
  assumes "continuous m" "a < 2 ^ 64 - 1"
  obtains i where "i < m_num m" "in_range a (m_ranges m ! i)"
proof -
  have ex: "\<exists>i. i < m_num m \<and> a < rend (m_ranges m ! i)"
    using assms by (intro exI[of _ "m_num m - 1"]) (auto simp: continuous_def)
  define k where "k = (LEAST i. i < m_num m \<and> a < rend (m_ranges m ! i))"
  have k: "k < m_num m" "a < rend (m_ranges m ! k)" using LeastI_ex[OF ex] by (simp_all add: k_def)
  have "rlow (m_ranges m ! k) \<le> a"
  proof (cases k)
    case 0
    then show ?thesis using assms(1) by (simp add: continuous_def)
  next
    case (Suc j)
    have "\<not> (j < m_num m \<and> a < rend (m_ranges m ! j))" using not_less_Least[of j "\<lambda>i. i < m_num m \<and> a < rend (m_ranges m ! i)"] Suc unfolding k_def by simp
    then show ?thesis using assms(1) k(1) Suc by (simp add: continuous_def)
  qed
  then show ?thesis using that k by blast
qed

lemmas msr_eval = msr_ranges_def field_get_def get_bits_def mtrrcap_vcnt_def ia32_mtrrcap_addr_def ia32_mtrr_physbase_addr_def
  ia32_mtrr_physmask_addr_def flag_is_disabled_def is_bit_cleared_def physmask_valid_def variable_range_def physbase_type_def
  physbase_physbase_def physmask_physmask_def physbase_to_base_def physmask_to_size_def mtrr_type_def

text \<open>Four gigabytes of write-back memory whose last gigabyte is uncacheable; the default is write-back.\<close>

definition rdmsr0 :: "u32 \<Rightarrow> u64" where
  "rdmsr0 a =
     (if a = 0xFE then 2 else if a = 0x2FF then 0x806 else if a = 0x200 then 6 else if a = 0x201 then 0xF00000800
      else if a = 0x202 then 0xC0000000 else if a = 0x203 then 0xFC0000800 else 0)"

lemma nested_empty: "nested {#}"
  by (simp add: nested_def)

lemma rdmsr0_ranges:
  "msr_ranges rdmsr0 36 =
     [fixed_range, \<lparr>rtype = write_back, rbase = 0, rsize = 0x100000000\<rparr>, \<lparr>rtype = uncacheable, rbase = 0xC0000000, rsize = 0x40000000\<rparr>]"
proof -
  have "[0 ..< 2] = [0, 1 :: nat]" by (simp add: upt_rec)
  then show ?thesis by (simp add: msr_eval rdmsr0_def)
qed

lemma rdmsr0_enabled: "\<not> disabled rdmsr0"
  by (simp add: disabled_def rdmsr0_def flag_is_disabled_def is_bit_cleared_def def_type_mtrr_enable_def ia32_mtrr_def_type_addr_def)

theorem make_mtrrs_ends_witness: "\<exists>m. make_mtrrs sort_ranges rdmsr0 36 = Some m \<and> (m_num m = 0 \<or> continuous m)"
  by (rule make_mtrrs_ends[OF insertion.std_sort_axioms]) simp

theorem make_mtrrs_types_witness:
  "\<exists>m i. make_mtrrs sort_ranges rdmsr0 36 = Some m \<and> i < m_num m \<and> in_range 0xD0000000 (m_ranges m ! i) \<and> rtype (m_ranges m ! i) = uncacheable"
proof -
  have n: "nested (mset (msr_ranges rdmsr0 36))" "untiled (mset (msr_ranges rdmsr0 36))" "length (msr_ranges rdmsr0 36) \<le> 63"
    unfolding rdmsr0_ranges
    by (simp_all add: nested_add nested_empty untiled_def fixed_range_def separate_def inside_def within_def rlow_def rend_def)
  obtain m where m: "make_mtrrs sort_ranges rdmsr0 36 = Some m" "continuous m"
    "\<forall>i a. i < m_num m \<longrightarrow> in_range a (m_ranges m ! i) \<longrightarrow> rtype (m_ranges m ! i) = reference_type rdmsr0 36 a"
    using make_mtrrs_types[OF insertion.std_sort_axioms _ _ rdmsr0_enabled n] by auto
  obtain i where i: "i < m_num m" "in_range 0xD0000000 (m_ranges m ! i)" using continuous_covers[OF m(2), of "0xD0000000"] by auto
  have "reference_type rdmsr0 36 0xD0000000 = uncacheable"
    by (simp add: reference_type_def rdmsr0_ranges fixed_range_def rlow_def rend_def)
  then show ?thesis using m i by metis
qed

end
