(* ===== verification/Ept_Identity.thy ===== *)
theory Ept_Identity
  imports Ept_Helpers Mtrrs_Properties
begin

text \<open>
  The identity map of all of memory with the memory types of the machine, \<open>identity_map\<close> of
  \<open>src/extended_apis/bfvmm/include/hve/arch/intel_x64/ept/helpers.h\<close>: the flattened ranges of
  \<open>Mtrrs\<close> decide the size and the type of each page of the extended page tables.
\<close>

section \<open>Operations\<close>

text \<open>\<open>while (!range->contains(saddr)) range++\<close>; running off the array is not checked.\<close>

function find_range :: "range_t list \<Rightarrow> nat \<Rightarrow> u64 \<Rightarrow> error + nat" where
  "find_range rs i addr =
     (if i < length rs then if range_contains (rs ! i) addr then Inr i else find_range rs (i + 1) addr else Inl Out_of_bounds)"
  by pat_completeness auto
termination by (relation "measure (\<lambda>(rs, i, addr). length rs - i)") auto

declare find_range.simps [simp del]

function identity_map_loop :: "range_t list \<Rightarrow> attr_type \<Rightarrow> u64 \<Rightarrow> nat \<Rightarrow> u64 \<Rightarrow> (memory_manager tables, unit) op" where
  "identity_map_loop rs attr eaddr i saddr =
     (if saddr < eaddr
      then case find_range rs i saddr of
          Inl e \<Rightarrow> throwE e
        | Inr j \<Rightarrow>
            if lower_from saddr pd_from = 0 \<and> pd_page_size \<le> min (distance (rs ! j) saddr) (eaddr - saddr)
            then seqE (ignoreE (ept_map_2m saddr saddr attr (rtype (rs ! j))))
                   (if saddr < saddr + pd_page_size then identity_map_loop rs attr eaddr j (saddr + pd_page_size) else throwE Out_of_fuel)
            else seqE (ignoreE (ept_map_4k saddr saddr attr (rtype (rs ! j))))
                   (if saddr < saddr + pt_page_size then identity_map_loop rs attr eaddr j (saddr + pt_page_size) else throwE Out_of_fuel)
      else returnE ())"
  by pat_completeness auto
termination
proof (relation "measure (\<lambda>(rs, attr, eaddr, i, saddr). 2 ^ 64 - unat saddr)")
  have "2 ^ 64 - unat y < 2 ^ 64 - unat x" if "x < y" for x y :: u64
    using that unat_u64_less[of x] unat_u64_less[of y] by (simp add: word_less_nat_alt diff_less_mono2)
  then show "saddr < eaddr \<Longrightarrow> find_range rs i saddr = Inr j \<Longrightarrow> P \<Longrightarrow> saddr < saddr + pd_page_size \<Longrightarrow>
      ((rs, attr, eaddr, j, saddr + pd_page_size), rs, attr, eaddr, i, saddr) \<in> measure (\<lambda>(rs, attr, eaddr, i, saddr). 2 ^ 64 - unat saddr)"
    and "saddr < eaddr \<Longrightarrow> find_range rs i saddr = Inr j \<Longrightarrow> Q \<Longrightarrow> saddr < saddr + pt_page_size \<Longrightarrow>
      ((rs, attr, eaddr, j, saddr + pt_page_size), rs, attr, eaddr, i, saddr) \<in> measure (\<lambda>(rs, attr, eaddr, i, saddr). 2 ^ 64 - unat saddr)"
    for rs attr eaddr i saddr j P Q by simp_all
qed simp

declare identity_map_loop.simps [simp del]

definition identity_map :: "mtrrs \<Rightarrow> u64 \<Rightarrow> u64 \<Rightarrow> attr_type \<Rightarrow> (memory_manager tables, unit) op" where
  "identity_map m saddr eaddr attr =
     seqE (expectsE (m_num m \<noteq> 0))
    (seqE (expectsE (lower_from saddr pd_from = 0))
    (seqE (expectsE (lower_from eaddr pd_from = 0))
    (identity_map_loop (m_ranges m) attr eaddr 0 saddr)))"

definition identity_map_all :: "mtrrs \<Rightarrow> u64 \<Rightarrow> attr_type \<Rightarrow> (memory_manager tables, unit) op" where
  "identity_map_all m eaddr attr = identity_map m 0 eaddr attr"

section \<open>Pages\<close>

text \<open>A page: whether it is large, its address and its type.\<close>

type_synonym page = "bool \<times> u64 \<times> memory_type_t"

definition page_bytes :: "bool \<Rightarrow> u64" where
  "page_bytes large = (if large then pd_page_size else pt_page_size)"

definition map_page :: "attr_type \<Rightarrow> page \<Rightarrow> (memory_manager tables, unit) op" where
  "map_page attr p =
     (case p of (large, a, t) \<Rightarrow> ignoreE (if large then ept_map_2m a a attr t else ept_map_4k a a attr t))"

text \<open>The pages follow each other from \<open>a\<close> to \<open>b\<close>.\<close>

fun tile :: "page list \<Rightarrow> u64 \<Rightarrow> u64 \<Rightarrow> bool" where
  "tile [] a b \<longleftrightarrow> a = b"
| "tile ((large, x, t) # pgs) a b \<longleftrightarrow> x = a \<and> a < a + page_bytes large \<and> tile pgs (a + page_bytes large) b"

text \<open>The range whose type a page takes: the first one that does not end before it.\<close>

definition reaches :: "mtrrs \<Rightarrow> nat \<Rightarrow> u64 \<Rightarrow> bool" where
  "reaches m i a \<longleftrightarrow> i < m_num m \<and> unat a \<le> rend (m_ranges m ! i) \<and> (\<forall>j < i. rend (m_ranges m ! j) < unat a)"

definition page_ok :: "mtrrs \<Rightarrow> page \<Rightarrow> bool" where
  "page_ok m p \<longleftrightarrow>
     (case p of (large, a, t) \<Rightarrow> \<exists>i. reaches m i a \<and> t = rtype (m_ranges m ! i) \<and> rlow (m_ranges m ! i) \<le> unat a \<and>
        (large \<longrightarrow> unat a + unat pd_page_size \<le> rend (m_ranges m ! i)))"

lemma reaches_found:
  assumes c: "continuous m" and i: "i < m_num m" "\<forall>j < i. rend (m_ranges m ! j) < unat a" and a: "unat a < 2 ^ 64 - 1"
  shows "\<exists>j. find_range (m_ranges m) i a = Inr j \<and> reaches m j a \<and> rlow (m_ranges m ! j) \<le> unat a"
  using i
proof (induction "m_num m - i" arbitrary: i rule: less_induct)
  case less
  let ?r = "m_ranges m ! i"
  have len: "m_num m < 256" "length (m_ranges m) = 256" and ok: "range_ok ?r" using c less.prems by (simp_all add: continuous_def)
  have low: "rlow ?r \<le> unat a"
  proof (cases i)
    case 0
    then show ?thesis using c by (simp add: continuous_def)
  next
    case (Suc j)
    then have "rlow ?r = rend (m_ranges m ! j)" using c less.prems(1) by (simp add: continuous_def)
    then show ?thesis using less.prems(2) Suc by (simp add: less_imp_le)
  qed
  have ct: "range_contains ?r a \<longleftrightarrow> unat a \<le> rend ?r"
    using low ok by (simp add: range_contains_def word_le_nat_alt unat_rend rlow_def)
  show ?case
  proof (cases "unat a \<le> rend ?r")
    case True
    then show ?thesis using less.prems low ct len by (simp add: find_range.simps[of _ i] reaches_def)
  next
    case False
    have "i + 1 < m_num m"
    proof (rule ccontr)
      assume "\<not> ?thesis"
      then have "i = m_num m - 1" using less.prems(1) by simp
      then show False using c False a by (simp add: continuous_def)
    qed
    moreover have "\<forall>j < i + 1. rend (m_ranges m ! j) < unat a" using False less.prems(2) by (auto simp: less_Suc_eq)
    ultimately show ?thesis using less.hyps[of "i + 1"] False ct len less.prems(1) by (simp add: find_range.simps[of _ i])
  qed
qed

section \<open>The loop\<close>

definition on_page_ends :: "mtrrs \<Rightarrow> bool" where
  "on_page_ends m \<longleftrightarrow> (\<forall>k < m_num m. 4096 dvd rend (m_ranges m ! k) \<or> k + 1 = m_num m)"

lemma continuous_mono:
  assumes "continuous m" "j \<le> k" "k < m_num m"
  shows "rend (m_ranges m ! j) \<le> rend (m_ranges m ! k)"
  using assms(2,3)
proof (induction k)
  case (Suc k)
  have "rend (m_ranges m ! k) = rlow (m_ranges m ! Suc k)" "range_ok (m_ranges m ! Suc k)" using assms(1) Suc.prems by (simp_all add: continuous_def)
  then have "rend (m_ranges m ! k) \<le> rend (m_ranges m ! Suc k)" using range_ok_less[of "m_ranges m ! Suc k"] by simp
  then show ?case using Suc by (cases "j = Suc k") auto
qed simp

lemma reaches_end:
  assumes "continuous m" "reaches m j a" "k < m_num m" "unat a = rend (m_ranges m ! k)"
  shows "j = k"
proof (rule ccontr)
  assume "j \<noteq> k"
  moreover have "\<not> k < j" using assms(2,4) by (auto simp: reaches_def)
  ultimately have "j < k" by simp
  then have j1: "j + 1 \<le> k" "j + 1 < m_num m" using assms(3) by simp_all
  have "rend (m_ranges m ! j) = rlow (m_ranges m ! (j + 1))" "range_ok (m_ranges m ! (j + 1))" using assms(1) j1(2) by (simp_all add: continuous_def)
  then have "rend (m_ranges m ! j) < rend (m_ranges m ! k)"
    using continuous_mono[OF assms(1) j1(1) assms(3)] range_ok_less[of "m_ranges m ! (j + 1)"] by simp
  then show False using assms(2,4) by (simp add: reaches_def)
qed

lemma dvd_step: "(n :: nat) dvd x \<Longrightarrow> n dvd y \<Longrightarrow> x < y \<Longrightarrow> x + n \<le> y"
  by (metis add_le_imp_le_diff add.commute dvd_diff_nat dvd_imp_le le_add_diff_inverse less_imp_le nat_add_left_cancel_le zero_less_diff)

lemma unat_distance:
  assumes "range_ok r" "rlow r \<le> unat a" "unat a \<le> rend r"
  shows "unat (distance r a) = rend r - unat a"
proof -
  have "unat (a - rbase r) = unat a - rlow r" using assms(2) by (simp add: rlow_def unat_sub word_le_nat_alt)
  moreover have "a - rbase r \<le> rsize r" using calculation assms(2,3) by (simp add: word_le_nat_alt rend_def rlow_def)
  ultimately show ?thesis using assms by (simp add: distance_def unat_sub rend_def rlow_def)
qed

definition pages_to :: "mtrrs \<Rightarrow> u64 \<Rightarrow> u64 \<Rightarrow> page list \<Rightarrow> bool" where
  "pages_to m a b pgs \<longleftrightarrow> tile pgs a b \<and> (\<forall>p \<in> set pgs. page_ok m p) \<and>
     (\<forall>k < m_num m. unat a \<le> rend (m_ranges m ! k) \<and> rend (m_ranges m ! k) < unat b \<longrightarrow>
        (False, of_nat (rend (m_ranges m ! k)), rtype (m_ranges m ! k)) \<in> set pgs)"

lemma identity_map_loop_step:
  assumes "saddr < eaddr" "find_range rs i saddr = Inr j"
    and "(lower_from saddr pd_from = 0 \<and> pd_page_size \<le> min (distance (rs ! j) saddr) (eaddr - saddr)) = B" "saddr < saddr + page_bytes B"
  shows "identity_map_loop rs attr eaddr i saddr =
    seqE (map_page attr (B, saddr, rtype (rs ! j))) (identity_map_loop rs attr eaddr j (saddr + page_bytes B))"
  unfolding identity_map_loop.simps[of rs attr eaddr i saddr] assms(2) sum.case assms(3)
  using assms(1,4) by (cases B) (simp_all add: map_page_def page_bytes_def)

lemma identity_map_loop_pages:
  assumes c: "continuous m" and pe: "on_page_ends m" and e: "4096 dvd unat eaddr"
    and i: "i < m_num m" "\<forall>j < i. rend (m_ranges m ! j) < unat saddr" and s: "4096 dvd unat saddr" "saddr \<le> eaddr"
  shows "\<exists>pgs. identity_map_loop (m_ranges m) attr eaddr i saddr = forE pgs (map_page attr) \<and> pages_to m saddr eaddr pgs"
  using i s
proof (induction "unat eaddr - unat saddr" arbitrary: i saddr rule: less_induct)
  case less
  show ?case
  proof (cases "saddr < eaddr")
    case False
    then have "saddr = eaddr" using less.prems(4) by simp
    then show ?thesis by (intro exI[of _ "[]"]) (simp add: identity_map_loop.simps[of _ _ _ i] pages_to_def)
  next
    case True
    then have lt: "unat saddr < unat eaddr" by (simp add: word_less_nat_alt)
    have top: "unat saddr < 2 ^ 64 - 1" using lt unat_u64_less[of eaddr] by simp
    obtain j where j: "find_range (m_ranges m) i saddr = Inr j" "reaches m j saddr" "rlow (m_ranges m ! j) \<le> unat saddr"
      using reaches_found[OF c less.prems(1,2) top] by blast
    let ?r = "m_ranges m ! j" and ?L = "lower_from saddr pd_from = 0 \<and> pd_page_size \<le> min (distance (m_ranges m ! j) saddr) (eaddr - saddr)"
    have jn: "j < m_num m" "unat saddr \<le> rend ?r" "\<forall>k < j. rend (m_ranges m ! k) < unat saddr" using j(2) by (simp_all add: reaches_def)
    have d: "unat (distance ?r saddr) = rend ?r - unat saddr" using c jn j(3) by (intro unat_distance) (simp_all add: continuous_def)
    have es: "unat (eaddr - saddr) = unat eaddr - unat saddr" using True by (simp add: unat_sub less_imp_le)
    define z where "z = page_bytes ?L"
    have zv: "unat z = (if ?L then 0x200000 else 4096)" by (simp add: z_def page_bytes_def pd_page_size_def pt_page_size_def)
    have "0x200000 \<le> unat (distance ?r saddr)" "0x200000 \<le> unat (eaddr - saddr)" if ?L
      using that unfolding pd_page_size_def min.bounded_iff by (simp_all add: word_le_nat_alt)
    then have L: "unat saddr + 0x200000 \<le> rend ?r" "unat saddr + 0x200000 \<le> unat eaddr" if ?L
      using that lt jn(2) unfolding d es by linarith+
    have le: "unat saddr + unat z \<le> unat eaddr" using L(2) dvd_step[OF less.prems(3) e lt] unfolding zv by simp
    have u: "unat (saddr + z) = unat saddr + unat z" using unat_step[of saddr 1 z] le unat_u64_less[of eaddr] by simp
    have zp: "0 < unat z" "4096 dvd unat z" by (simp_all add: zv)
    then have wrap: "saddr < saddr + z" using u by (simp add: word_less_nat_alt)
    have "unat eaddr - unat (saddr + z) < unat eaddr - unat saddr" using u zp(1) lt by simp
    moreover have "\<forall>k < j. rend (m_ranges m ! k) < unat (saddr + z)" using jn(3) u by auto
    moreover have "4096 dvd unat (saddr + z)" using u zp(2) less.prems(3) by simp
    moreover have "saddr + z \<le> eaddr" using le u by (simp add: word_le_nat_alt)
    ultimately obtain pgs where pgs: "identity_map_loop (m_ranges m) attr eaddr j (saddr + z) = forE pgs (map_page attr)" "pages_to m (saddr + z) eaddr pgs"
      using less.hyps[of "saddr + z" j] jn(1) by blast
    let ?p = "(?L, saddr, rtype ?r)"
    have "identity_map_loop (m_ranges m) attr eaddr i saddr = forE (?p # pgs) (map_page attr)"
      using identity_map_loop_step[OF True j(1) refl wrap[unfolded z_def], of attr] pgs(1) unfolding z_def forE.simps by (simp only:)
    moreover have "pages_to m saddr eaddr (?p # pgs)"
    proof -
      have "page_ok m ?p" using j(2,3) L(1) by (auto simp: page_ok_def pd_page_size_def)
      moreover have "(False, of_nat (rend (m_ranges m ! k)), rtype (m_ranges m ! k)) \<in> set (?p # pgs)"
        if k: "k < m_num m" "unat saddr \<le> rend (m_ranges m ! k)" "rend (m_ranges m ! k) < unat eaddr" for k
      proof (cases "unat saddr = rend (m_ranges m ! k)")
        case True
        then have "j = k" by (rule reaches_end[OF c j(2) k(1)])
        moreover have "\<not> ?L" using L(1) True calculation by auto
        moreover have "of_nat (rend (m_ranges m ! k)) = saddr" by (simp flip: True)
        ultimately show ?thesis by simp
      next
        case False
        have "\<not> k < j" using jn(3) k(2) by auto
        then have jk: "rend ?r \<le> rend (m_ranges m ! k)" using continuous_mono[OF c _ k(1), of j] by simp
        have "k + 1 \<noteq> m_num m"
        proof
          assume "k + 1 = m_num m"
          then have "k = m_num m - 1" by simp
          then have "rend (m_ranges m ! k) = 2 ^ 64 - 1" using c by (simp only: continuous_def)
          then show False using k(3) unat_u64_less[of eaddr] by simp
        qed
        then have "4096 dvd rend (m_ranges m ! k)" using pe k(1) by (auto simp: on_page_ends_def)
        then have "unat saddr + 4096 \<le> rend (m_ranges m ! k)" using dvd_step[OF less.prems(3)] False k(2) by simp
        moreover have "unat z = 4096 \<or> unat z = 0x200000 \<and> unat saddr + 0x200000 \<le> rend ?r" using zv L(1) by presburger
        ultimately have "unat (saddr + z) \<le> rend (m_ranges m ! k)" using u jk by linarith
        then show ?thesis using pgs(2) k unfolding pages_to_def by simp
      qed
      ultimately show ?thesis using pgs(2) wrap unfolding pages_to_def z_def by auto
    qed
    ultimately show ?thesis by blast
  qed
qed

section \<open>Properties\<close>

lemma aligned_4k: "lower_from a pd_from = 0 \<Longrightarrow> 4096 dvd unat a"
  using lower_from_dvd[of pd_from a] dvd_trans[of 4096 "2 ^ 21" "unat a"] by (simp add: pd_from_def)

lemma identity_map_pages_ex:
  assumes "continuous m" "on_page_ends m" "lower_from saddr pd_from = 0" "lower_from eaddr pd_from = 0" "saddr \<le> eaddr"
  shows "\<exists>pgs. identity_map m saddr eaddr attr = forE pgs (map_page attr) \<and> pages_to m saddr eaddr pgs"
proof -
  have "m_num m \<noteq> 0" using assms(1) by (simp add: continuous_def)
  then show ?thesis
    using identity_map_loop_pages[OF assms(1,2) aligned_4k[OF assms(4)], of 0 saddr attr] aligned_4k[OF assms(3)] assms
    by (simp add: identity_map_def)
qed

text \<open>
  C34. With flattened ranges on page boundaries the identity map of all memory ends and never runs off the
  ranges.  It maps pages that follow each other from the first address to the last; each page takes the
  type of the first range that does not end before it, a range that starts no later than the page, and a page of two
  megabytes lies within that range.
\<close>

theorem identity_map_pages:
  assumes "continuous m" "on_page_ends m" "lower_from saddr pd_from = 0" "lower_from eaddr pd_from = 0" "saddr \<le> eaddr"
  shows "\<exists>pgs. identity_map m saddr eaddr attr = forE pgs (map_page attr) \<and> tile pgs saddr eaddr \<and> (\<forall>p \<in> set pgs. page_ok m p)"
  using identity_map_pages_ex[OF assms] unfolding pages_to_def by blast

text \<open>
  C35. The first page of every range but the first is mapped with the type of the range before it: it is
  a small page, whatever its alignment, since \<open>contains\<close> counts the end of a range as part of the range.
\<close>

theorem identity_map_boundary:
  assumes "continuous m" "on_page_ends m" "lower_from saddr pd_from = 0" "lower_from eaddr pd_from = 0" "saddr \<le> eaddr"
    and "k + 1 < m_num m" "unat saddr \<le> rend (m_ranges m ! k)" "rend (m_ranges m ! k) < unat eaddr"
  shows "\<exists>pgs. identity_map m saddr eaddr attr = forE pgs (map_page attr) \<and>
    (False, rbase (m_ranges m ! (k + 1)), rtype (m_ranges m ! k)) \<in> set pgs"
proof -
  obtain pgs where pgs: "identity_map m saddr eaddr attr = forE pgs (map_page attr)" "pages_to m saddr eaddr pgs"
    using identity_map_pages_ex[OF assms(1-5)] by blast
  have "rend (m_ranges m ! k) = unat (rbase (m_ranges m ! (k + 1)))" using assms(1,6) by (simp add: continuous_def rlow_def)
  then have "of_nat (rend (m_ranges m ! k)) = rbase (m_ranges m ! (k + 1))" by simp
  moreover have "k < m_num m" using assms(6) by simp
  ultimately show ?thesis using pgs assms(7,8) unfolding pages_to_def by metis
qed

section \<open>Concrete ranges\<close>

text \<open>Write-back memory up to four gigabytes, uncacheable above.\<close>

definition two_ranges :: mtrrs where
  "two_ranges = \<lparr>m_num = 2, m_ranges =
     \<lparr>rtype = write_back, rbase = 0, rsize = 0x100000000\<rparr> # \<lparr>rtype = uncacheable, rbase = 0x100000000, rsize = 0xFFFFFFFEFFFFFFFF\<rparr> #
     replicate 254 invalid_range\<rparr>"

lemma two_ranges_ok: "continuous two_ranges" "on_page_ends two_ranges"
proof -
  have two: "i < 2 \<longleftrightarrow> i = 0 \<or> i = 1" "i + 1 < 2 \<longleftrightarrow> i = 0" for i :: nat by auto
  have n: "m_num two_ranges = 2" "length (m_ranges two_ranges) = 256" by (simp_all add: two_ranges_def)
  have b: "rlow (m_ranges two_ranges ! 0) = 0" "rend (m_ranges two_ranges ! 0) = 0x100000000" "rlow (m_ranges two_ranges ! 1) = 0x100000000"
    "rend (m_ranges two_ranges ! 1) = 2 ^ 64 - 1" "range_ok (m_ranges two_ranges ! 0)" "range_ok (m_ranges two_ranges ! 1)"
    by (simp_all add: two_ranges_def rlow_def rend_def range_ok_def)
  show "continuous two_ranges" using b unfolding continuous_def n two by simp
  show "on_page_ends two_ranges" using b unfolding on_page_ends_def n two by auto
qed

lemma lower_from_6g: "lower_from 0 pd_from = 0" "lower_from 0x180000000 pd_from = 0"
  by code_simp+

theorem identity_map_pages_witness:
  "\<exists>pgs. identity_map two_ranges 0 0x180000000 read_write_execute = forE pgs (map_page read_write_execute) \<and> tile pgs 0 0x180000000"
  using identity_map_pages[OF two_ranges_ok lower_from_6g, of read_write_execute] by auto

theorem identity_map_boundary_witness:
  "\<exists>pgs. identity_map two_ranges 0 0x180000000 read_write_execute = forE pgs (map_page read_write_execute) \<and>
     (False, 0x100000000, write_back) \<in> set pgs"
  using identity_map_boundary[OF two_ranges_ok lower_from_6g, of 0 read_write_execute] by (simp add: two_ranges_def rend_def)

end
