(* ===== verification/X64_Paging.thy ===== *)
theory X64_Paging
  imports Ept_Entry
begin

text \<open>
  The entries of the processor's own page tables,
  \<open>src/bareflank/bfintrinsics/include/arch/x64/paging.h\<close>: the field layout of each level, read
  and written with the accessors of \<open>Ept_Entry\<close>, and the index into the page attribute table
  that three of the fields encode together.  The level constants and the index functions are those
  of \<open>Ept_Entry\<close>, which this header repeats.
\<close>

section \<open>Field layouts\<close>

record x64_entry =
  x_present :: nat
  x_rw :: nat
  x_us :: nat
  x_pwt :: nat
  x_pcd :: nat
  x_accessed :: nat
  x_phys_addr :: bit_field
  x_xd :: nat

text \<open>The levels that can map a page, and those of them that can also point to a table.\<close>

record x64_leaf = x64_entry +
  x_dirty :: nat
  x_pat :: nat
  x_g :: nat
  x_protection_key :: bit_field

record x64_large = x64_leaf +
  x_ps :: nat

definition x64_pml4_entry :: x64_entry where
  "x64_pml4_entry = \<lparr>x_present = 0, x_rw = 1, x_us = 2, x_pwt = 3, x_pcd = 4, x_accessed = 5,
     x_phys_addr = \<lparr>bf_mask = 0x000FFFFFFFFFF000, bf_from = 0\<rparr>, x_xd = 63\<rparr>"

definition x64_pml4_ps :: nat where
  "x64_pml4_ps = 7"

definition x64_pdpt_entry :: x64_large where
  "x64_pdpt_entry = \<lparr>x_present = 0, x_rw = 1, x_us = 2, x_pwt = 3, x_pcd = 4, x_accessed = 5,
     x_phys_addr = \<lparr>bf_mask = 0x000FFFFFFFFFF000, bf_from = 0\<rparr>, x_xd = 63,
     x_dirty = 6, x_pat = 12, x_g = 8, x_protection_key = \<lparr>bf_mask = 0x7800000000000000, bf_from = 59\<rparr>, x_ps = 7\<rparr>"

definition x64_pd_entry :: x64_large where
  "x64_pd_entry = \<lparr>x_present = 0, x_rw = 1, x_us = 2, x_pwt = 3, x_pcd = 4, x_accessed = 5,
     x_phys_addr = \<lparr>bf_mask = 0x000FFFFFFFFFF000, bf_from = 0\<rparr>, x_xd = 63,
     x_dirty = 6, x_pat = 12, x_g = 8, x_protection_key = \<lparr>bf_mask = 0x7800000000000000, bf_from = 59\<rparr>, x_ps = 7\<rparr>"

definition x64_pt_entry :: x64_leaf where
  "x64_pt_entry = \<lparr>x_present = 0, x_rw = 1, x_us = 2, x_pwt = 3, x_pcd = 4, x_accessed = 5,
     x_phys_addr = \<lparr>bf_mask = 0x000FFFFFFFFFF000, bf_from = 0\<rparr>, x_xd = 63,
     x_dirty = 6, x_pat = 7, x_g = 8, x_protection_key = \<lparr>bf_mask = 0x7800000000000000, bf_from = 59\<rparr>\<rparr>"

lemmas x64_layouts [simp] = x64_pml4_entry_def x64_pdpt_entry_def x64_pd_entry_def x64_pt_entry_def

text \<open>The reserved bits of an entry of the second level, given the width of physical addresses.\<close>

definition pdpt_reserved_mask :: "nat \<Rightarrow> u64" where
  "pdpt_reserved_mask phys_bits = push_bit phys_bits 0xFFFFFFFFFFFFFFFF OR 0x1E6"

section \<open>The index into the page attribute table\<close>

definition pml4_pat_index_get :: "'a x64_entry_scheme \<Rightarrow> u64 \<Rightarrow> u64" where
  "pml4_pat_index_get L e =
     (let index = (if flag_is_enabled (x_pwt L) e then 1 else 0) in
      if flag_is_enabled (x_pcd L) e then index + 2 else index)"

definition pml4_pat_index_set :: "'a x64_entry_scheme \<Rightarrow> u64 \<Rightarrow> u64 \<Rightarrow> u64" where
  "pml4_pat_index_set L index e =
     (if index = 0 then flag_disable (x_pcd L) (flag_disable (x_pwt L) e)
      else if index = 1 then flag_disable (x_pcd L) (flag_enable (x_pwt L) e)
      else if index = 2 then flag_enable (x_pcd L) (flag_disable (x_pwt L) e)
      else flag_enable (x_pcd L) (flag_enable (x_pwt L) e))"

definition pt_pat_index_get :: "'a x64_leaf_scheme \<Rightarrow> u64 \<Rightarrow> u64" where
  "pt_pat_index_get L e =
     (let index = (if flag_is_enabled (x_pwt L) e then 1 else 0);
          index = (if flag_is_enabled (x_pcd L) e then index + 2 else index) in
      if flag_is_enabled (x_pat L) e then index + 4 else index)"

definition pt_pat_index_set :: "'a x64_leaf_scheme \<Rightarrow> u64 \<Rightarrow> u64 \<Rightarrow> u64" where
  "pt_pat_index_set L index e =
     (if index = 0 then flag_disable (x_pat L) (flag_disable (x_pcd L) (flag_disable (x_pwt L) e))
      else if index = 1 then flag_disable (x_pat L) (flag_disable (x_pcd L) (flag_enable (x_pwt L) e))
      else if index = 2 then flag_disable (x_pat L) (flag_enable (x_pcd L) (flag_disable (x_pwt L) e))
      else if index = 3 then flag_disable (x_pat L) (flag_enable (x_pcd L) (flag_enable (x_pwt L) e))
      else if index = 4 then flag_enable (x_pat L) (flag_disable (x_pcd L) (flag_disable (x_pwt L) e))
      else if index = 5 then flag_enable (x_pat L) (flag_disable (x_pcd L) (flag_enable (x_pwt L) e))
      else if index = 6 then flag_enable (x_pat L) (flag_enable (x_pcd L) (flag_disable (x_pwt L) e))
      else flag_enable (x_pat L) (flag_enable (x_pcd L) (flag_enable (x_pwt L) e)))"

text \<open>At the two levels with large pages the third bit counts only in an entry that maps one.\<close>

definition pdpt_pat_index_get :: "u64 \<Rightarrow> u64" where
  "pdpt_pat_index_get e =
     (let L = x64_pdpt_entry;
          index = (if flag_is_enabled (x_pwt L) e then 1 else 0);
          index = (if flag_is_enabled (x_pcd L) e then index + 2 else index) in
      if flag_is_enabled (x_ps L) e then (if flag_is_enabled (x_pat L) e then index + 4 else index) else index)"

definition pdpt_pat_index_set :: "u64 \<Rightarrow> u64 \<Rightarrow> u64" where
  "pdpt_pat_index_set index e =
     (if flag_is_enabled (x_ps x64_pdpt_entry) e then pt_pat_index_set x64_pdpt_entry index e
      else pml4_pat_index_set x64_pdpt_entry index e)"

definition pd_pat_index_get :: "u64 \<Rightarrow> u64" where
  "pd_pat_index_get e =
     (let L = x64_pd_entry;
          index = (if flag_is_enabled (x_pwt L) e then 1 else 0);
          index = (if flag_is_enabled (x_pcd L) e then index + 2 else index) in
      if flag_is_enabled (x_ps L) e then (if flag_is_enabled (x_pat L) e then index + 4 else index) else index)"

definition pd_pat_index_set :: "u64 \<Rightarrow> u64 \<Rightarrow> u64" where
  "pd_pat_index_set index e =
     (if flag_is_enabled (x_ps x64_pd_entry) e then pt_pat_index_set x64_pd_entry index e
      else pml4_pat_index_set x64_pd_entry index e)"

section \<open>Reading back an index\<close>

lemmas flag_defs = flag_is_enabled_def flag_is_disabled_def flag_enable_def flag_disable_def

lemma pml4_pat_index:
  assumes "x_pwt L = 3" "x_pcd L = 4"
  shows "pml4_pat_index_get L (pml4_pat_index_set L i e) = min i 3"
proof -
  have "i \<noteq> 0 \<Longrightarrow> i \<noteq> 1 \<Longrightarrow> i \<noteq> 2 \<Longrightarrow> 3 \<le> i" by unat_arith
  then show ?thesis using assms by (auto simp: pml4_pat_index_get_def pml4_pat_index_set_def flag_defs Let_def min_def)
qed

lemma pt_pat_index:
  assumes "x_pwt L = 3" "x_pcd L = 4" "x_pat L \<in> {7, 12}"
  shows "pt_pat_index_get L (pt_pat_index_set L i e) = min i 7"
proof -
  consider "i = 0" | "i = 1" | "i = 2" | "i = 3" | "i = 4" | "i = 5" | "i = 6" | "7 \<le> i" "i \<notin> {0, 1, 2, 3, 4, 5, 6}"
    by (cases "i \<in> {0, 1, 2, 3, 4, 5, 6}") (auto, unat_arith)
  then show ?thesis
    by cases (use assms in \<open>auto simp: pt_pat_index_get_def pt_pat_index_set_def flag_defs Let_def min_def\<close>)
qed

text \<open>Setting the index changes the three bits of the index only.\<close>

lemma bit_pat_index_set:
  "n \<notin> {x_pwt L, x_pcd L} \<Longrightarrow> bit (pml4_pat_index_set L i e) n \<longleftrightarrow> bit e n"
  "n \<notin> {x_pwt M, x_pcd M, x_pat M} \<Longrightarrow> bit (pt_pat_index_set M i e) n \<longleftrightarrow> bit e n"
  by (auto simp: pml4_pat_index_set_def pt_pat_index_set_def flag_defs dest: bit_imp_le_length)

lemma large_pat_index:
  "pdpt_pat_index_get (pdpt_pat_index_set i e) = (if bit e 7 then min i 7 else min i 3)"
  "pd_pat_index_get (pd_pat_index_set i e) = (if bit e 7 then min i 7 else min i 3)"
proof -
  have g: "pdpt_pat_index_get e = (if bit e 7 then pt_pat_index_get x64_pdpt_entry e else pml4_pat_index_get x64_pdpt_entry e)"
    "pd_pat_index_get e = (if bit e 7 then pt_pat_index_get x64_pd_entry e else pml4_pat_index_get x64_pd_entry e)" for e
    by (simp_all add: pdpt_pat_index_get_def pd_pat_index_get_def pt_pat_index_get_def pml4_pat_index_get_def flag_defs Let_def)
  show "pdpt_pat_index_get (pdpt_pat_index_set i e) = (if bit e 7 then min i 7 else min i 3)"
    unfolding g using pt_pat_index[of x64_pdpt_entry i e] pml4_pat_index[of x64_pdpt_entry i e]
      bit_pat_index_set[of 7 x64_pdpt_entry i e] by (simp add: pdpt_pat_index_set_def flag_defs)
  show "pd_pat_index_get (pd_pat_index_set i e) = (if bit e 7 then min i 7 else min i 3)"
    unfolding g using pt_pat_index[of x64_pd_entry i e] pml4_pat_index[of x64_pd_entry i e]
      bit_pat_index_set[of 7 x64_pd_entry i e] by (simp add: pd_pat_index_set_def flag_defs)
qed

text \<open>
  C15. The attribute-table index of an entry reads back as it was set, saturated at the largest
  value the entry can hold: three bits in an entry of the last level and in one that maps a large
  page, two bits in one that points to a table.
\<close>

theorem pat_index_roundtrip:
  "pml4_pat_index_get x64_pml4_entry (pml4_pat_index_set x64_pml4_entry i e) = min i 3 \<and>
   pdpt_pat_index_get (pdpt_pat_index_set i e) = (if bit e 7 then min i 7 else min i 3) \<and>
   pd_pat_index_get (pd_pat_index_set i e) = (if bit e 7 then min i 7 else min i 3) \<and>
   pt_pat_index_get x64_pt_entry (pt_pat_index_set x64_pt_entry i e) = min i 7"
  using large_pat_index pml4_pat_index[of x64_pml4_entry i e] pt_pat_index[of x64_pt_entry i e] by simp

end
