(* ===== verification/Cr3_Map.thy ===== *)
theory Cr3_Map
  imports Paging_Memory X64_Paging
begin

text \<open>
  The page tables of the hypervisor,
  \<open>src/bareflank/bfvmm/include/memory_manager/arch/x64/cr3/mmap.h\<close>: the entry format over the
  layouts of \<open>X64_Paging\<close>, and the operations of \<open>Page_Table\<close> at this format.
\<close>

datatype cr3_attr_type = cr3_read_write | cr3_read_execute

datatype cr3_memory_type = cr3_uncacheable | cr3_write_back

section \<open>Building entries\<close>

definition cr3_set_attr :: "'a x64_entry_scheme \<Rightarrow> cr3_attr_type \<Rightarrow> u64 \<Rightarrow> u64" where
  "cr3_set_attr L attr e =
     (case attr of
        cr3_read_write \<Rightarrow> flag_enable (x_xd L) (flag_enable (x_rw L) e)
      | cr3_read_execute \<Rightarrow> flag_disable (x_xd L) (flag_disable (x_rw L) e))"

definition cr3_pat_index :: "cr3_memory_type \<Rightarrow> u64" where
  "cr3_pat_index cache = (case cache of cr3_uncacheable \<Rightarrow> 0 | cr3_write_back \<Rightarrow> 1)"

definition cr3_pdpte :: "u64 \<Rightarrow> cr3_attr_type \<Rightarrow> cr3_memory_type \<Rightarrow> u64 \<Rightarrow> u64" where
  "cr3_pdpte pa attr cache e =
     (let L = x64_pdpt_entry;
          e = field_set (x_phys_addr L) pa e;
          e = flag_enable (x_present L) e;
          e = cr3_set_attr L attr e;
          e = pdpt_pat_index_set (cr3_pat_index cache) e in
      flag_enable (x_ps L) e)"

definition cr3_pde :: "u64 \<Rightarrow> cr3_attr_type \<Rightarrow> cr3_memory_type \<Rightarrow> u64 \<Rightarrow> u64" where
  "cr3_pde pa attr cache e =
     (let L = x64_pd_entry;
          e = field_set (x_phys_addr L) pa e;
          e = flag_enable (x_present L) e;
          e = cr3_set_attr L attr e;
          e = pd_pat_index_set (cr3_pat_index cache) e in
      flag_enable (x_ps L) e)"

definition cr3_pte :: "u64 \<Rightarrow> cr3_attr_type \<Rightarrow> cr3_memory_type \<Rightarrow> u64 \<Rightarrow> u64" where
  "cr3_pte pa attr cache e =
     (let L = x64_pt_entry;
          e = field_set (x_phys_addr L) pa e;
          e = flag_enable (x_present L) e;
          e = cr3_set_attr L attr e in
      pt_pat_index_set L (cr3_pat_index cache) e)"

definition cr3_link :: "level \<Rightarrow> u64 \<Rightarrow> u64 \<Rightarrow> u64" where
  "cr3_link l pa e =
     (case l of
        PML4 \<Rightarrow>
          flag_enable (x_rw x64_pml4_entry) (flag_enable (x_present x64_pml4_entry)
            (pml4_pat_index_set x64_pml4_entry 1 (field_set (x_phys_addr x64_pml4_entry) pa e)))
      | PDPT \<Rightarrow>
          flag_enable (x_rw x64_pdpt_entry) (flag_enable (x_present x64_pdpt_entry)
            (pdpt_pat_index_set 1 (field_set (x_phys_addr x64_pdpt_entry) pa e)))
      | PD \<Rightarrow>
          flag_enable (x_rw x64_pd_entry) (flag_enable (x_present x64_pd_entry)
            (pd_pat_index_set 1 (field_set (x_phys_addr x64_pd_entry) pa e)))
      | PT \<Rightarrow> e)"

definition cr3_phys :: "level \<Rightarrow> u64 \<Rightarrow> u64" where
  "cr3_phys l e =
     (case l of PML4 \<Rightarrow> field_get (x_phys_addr x64_pml4_entry) e | PDPT \<Rightarrow> field_get (x_phys_addr x64_pdpt_entry) e
      | PD \<Rightarrow> field_get (x_phys_addr x64_pd_entry) e | PT \<Rightarrow> field_get (x_phys_addr x64_pt_entry) e)"

text \<open>Only the second and third level are asked whether an entry maps a large page.\<close>

definition cr3_ps :: "level \<Rightarrow> u64 \<Rightarrow> bool" where
  "cr3_ps l e =
     (case l of PML4 \<Rightarrow> False | PDPT \<Rightarrow> flag_is_enabled (x_ps x64_pdpt_entry) e
      | PD \<Rightarrow> flag_is_enabled (x_ps x64_pd_entry) e | PT \<Rightarrow> False)"

definition cr3_paging :: "memory_manager paging" where
  "cr3_paging =
     \<lparr>op_alloc = op_alloc mm_page_ops, op_free = op_free mm_page_ops, op_v2p = op_v2p mm_page_ops, op_p2v = op_p2v mm_page_ops,
      tf_phys = cr3_phys, tf_ps = cr3_ps, tf_link = cr3_link\<rparr>"

section \<open>Operations\<close>

text \<open>The members of the class, at this format.\<close>

definition cr3_mmap :: "(memory_manager tables, unit) op" where
  "cr3_mmap = make_mmap cr3_paging"

definition cr3_destroy :: "(memory_manager tables, unit) op" where
  "cr3_destroy = destroy_mmap cr3_paging"

definition cr3_value :: "(memory_manager tables, u64) op" where
  "cr3_value = root_phys cr3_paging"

definition cr3_pat :: u64 where
  "cr3_pat = 0x0606060606060600"

definition cr3_map_1g :: "u64 \<Rightarrow> u64 \<Rightarrow> cr3_attr_type \<Rightarrow> cr3_memory_type \<Rightarrow> (memory_manager tables, eref) op" where
  "cr3_map_1g va pa attr cache = map_1g cr3_paging va (cr3_pdpte pa attr cache)"

definition cr3_map_2m :: "u64 \<Rightarrow> u64 \<Rightarrow> cr3_attr_type \<Rightarrow> cr3_memory_type \<Rightarrow> (memory_manager tables, eref) op" where
  "cr3_map_2m va pa attr cache = map_2m cr3_paging va (cr3_pde pa attr cache)"

definition cr3_map_4k :: "u64 \<Rightarrow> u64 \<Rightarrow> cr3_attr_type \<Rightarrow> cr3_memory_type \<Rightarrow> (memory_manager tables, eref) op" where
  "cr3_map_4k va pa attr cache = map_4k cr3_paging va (cr3_pte pa attr cache)"

definition cr3_unmap :: "u64 \<Rightarrow> (memory_manager tables, unit) op" where
  "cr3_unmap va = unmap cr3_paging va"

definition cr3_release :: "u64 \<Rightarrow> (memory_manager tables, unit) op" where
  "cr3_release va = release cr3_paging va"

definition cr3_entry :: "u64 \<Rightarrow> (memory_manager tables, eref) op" where
  "cr3_entry va = entry cr3_paging va"

definition cr3_virt_to_phys :: "u64 \<Rightarrow> (memory_manager tables, u64) op" where
  "cr3_virt_to_phys va = virt_to_phys cr3_paging va"

definition cr3_from :: "u64 \<Rightarrow> (memory_manager tables, nat) op" where
  "cr3_from va = map_from cr3_paging va"

definition cr3_is_1g :: "u64 \<Rightarrow> (memory_manager tables, bool) op" where
  "cr3_is_1g va = is_1g cr3_paging va"

definition cr3_is_2m :: "u64 \<Rightarrow> (memory_manager tables, bool) op" where
  "cr3_is_2m va = is_2m cr3_paging va"

definition cr3_is_4k :: "u64 \<Rightarrow> (memory_manager tables, bool) op" where
  "cr3_is_4k va = is_4k cr3_paging va"

definition cr3_map_pdpt :: "nat \<Rightarrow> (memory_manager tables, unit) op" where
  "cr3_map_pdpt pml4i = map_pdpt cr3_paging pml4i"

definition cr3_map_pd :: "nat \<Rightarrow> (memory_manager tables, unit) op" where
  "cr3_map_pd pdpti = map_pd cr3_paging pdpti"

definition cr3_map_pt :: "nat \<Rightarrow> (memory_manager tables, unit) op" where
  "cr3_map_pt pdi = map_pt cr3_paging pdi"

definition cr3_clear_pdpt :: "nat \<Rightarrow> (memory_manager tables, unit) op" where
  "cr3_clear_pdpt pml4i = clear_pdpt cr3_paging pml4i"

definition cr3_clear_pd :: "nat \<Rightarrow> (memory_manager tables, unit) op" where
  "cr3_clear_pd pdpti = clear_pd cr3_paging pdpti"

definition cr3_clear_pt :: "nat \<Rightarrow> (memory_manager tables, unit) op" where
  "cr3_clear_pt pdi = clear_pt cr3_paging pdi"

definition cr3_release_pdpte :: "u64 \<Rightarrow> (memory_manager tables, bool) op" where
  "cr3_release_pdpte va = release_pdpte cr3_paging va"

definition cr3_release_pde :: "u64 \<Rightarrow> (memory_manager tables, bool) op" where
  "cr3_release_pde va = release_pde cr3_paging va"

definition cr3_release_pte :: "u64 \<Rightarrow> (memory_manager tables, bool) op" where
  "cr3_release_pte va = release_pte cr3_paging va"

section \<open>The bits of an entry\<close>

lemma bit_x64_phys_mask: "bit (0x000FFFFFFFFFF000 :: u64) n \<longleftrightarrow> 12 \<le> n \<and> n < 52"
proof -
  have "(0x000FFFFFFFFFF000 :: u64) = push_bit 12 (mask 40)" by (simp add: mask_eq_exp_minus_1 push_bit_eq_mult)
  then show ?thesis by (simp only: bit_push_bit_iff bit_mask_iff) auto
qed

lemma bit_x64_phys_set:
  "bit (field_set \<lparr>bf_mask = 0x000FFFFFFFFFF000, bf_from = 0\<rparr> pa 0) n \<longleftrightarrow> 12 \<le> n \<and> n < 52 \<and> bit pa n"
  by (auto simp: field_set_def bit_x64_phys_mask simp del: bit_numeral_word_iff)

lemma bit_cr3_phys [simp]: "bit (cr3_phys l e) n \<longleftrightarrow> 12 \<le> n \<and> n < 52 \<and> bit e n"
  by (cases l) (auto simp: cr3_phys_def field_get_def bit_x64_phys_mask simp del: bit_numeral_word_iff)

lemma cr3_ps_iff [simp]: "cr3_ps l e \<longleftrightarrow> l \<in> {PDPT, PD} \<and> bit e 7"
  by (cases l) (simp_all add: cr3_ps_def flag_is_enabled_def)

lemma bit_cr3_link:
  "l \<noteq> PT \<Longrightarrow> bit (cr3_link l pa 0) n \<longleftrightarrow> n \<in> {0, 1, 3} \<or> (12 \<le> n \<and> n < 52 \<and> bit pa n)"
  by (cases l) (auto simp: cr3_link_def flag_defs pdpt_pat_index_set_def pd_pat_index_set_def pml4_pat_index_set_def
      bit_x64_phys_set dest: bit_imp_le_length)

definition cr3_leaf_bit :: "u64 \<Rightarrow> cr3_attr_type \<Rightarrow> cr3_memory_type \<Rightarrow> nat \<Rightarrow> bool" where
  "cr3_leaf_bit pa attr c n \<longleftrightarrow>
     n = 0 \<or> (n \<in> {1, 63} \<and> attr = cr3_read_write) \<or> (n = 3 \<and> c = cr3_write_back) \<or> (12 \<le> n \<and> n < 52 \<and> bit pa n)"

lemma bit_cr3_leaf:
  "bit (cr3_pdpte pa attr c 0) n \<longleftrightarrow> cr3_leaf_bit pa attr c n \<or> n = 7"
  "bit (cr3_pde pa attr c 0) n \<longleftrightarrow> cr3_leaf_bit pa attr c n \<or> n = 7"
  "bit (cr3_pte pa attr c 0) n \<longleftrightarrow> cr3_leaf_bit pa attr c n"
  by (cases attr; cases c; auto simp: cr3_pdpte_def cr3_pde_def cr3_pte_def cr3_leaf_bit_def cr3_set_attr_def cr3_pat_index_def
      Let_def flag_defs pdpt_pat_index_set_def pd_pat_index_set_def pml4_pat_index_set_def pt_pat_index_set_def bit_x64_phys_set
      dest: bit_imp_le_length)+

section \<open>The tables on the memory manager\<close>

interpretation cr3: page_tables "paging_inv k base V" page_live cr3_paging "{Null_deref}" "frame_of V" "set (pool_pages k base)"
proof (rule mm_page_tables)
  fix d pa assume d: "d < (3 :: nat)" and pa: "\<And>n. bit (pa :: u64) n \<Longrightarrow> 12 \<le> n \<and> n < 48"
  have l: "level_at d \<noteq> PT" using d by (auto simp: numeral_eq_Suc less_Suc_eq)
  let ?e = "cr3_link (level_at d) pa 0"
  have "bit ?e 0" using l by (simp add: bit_cr3_link)
  then have "?e \<noteq> 0" by auto
  then show "is_table cr3_paging d (tf_link cr3_paging (level_at d) pa 0)"
    using d l by (simp add: is_table_def cr3_paging_def bit_cr3_link)
  show "tf_phys cr3_paging (level_at d) (tf_link cr3_paging (level_at d) pa 0) = pa"
    by (rule u64_eqI) (use l pa in \<open>fastforce simp: cr3_paging_def bit_cr3_link\<close>)
qed (simp_all add: cr3_paging_def)

end
