(* ===== verification/Cr3_Properties.thy ===== *)
theory Cr3_Properties
  imports Cr3_Map
begin

text \<open>
  The properties of the hypervisor's own page tables: the same refinement of a partial map as the
  extended tables, and what an entry lets the processor do with a page.
\<close>

definition cr3_leaf :: "level \<Rightarrow> u64 \<times> cr3_attr_type \<times> cr3_memory_type \<Rightarrow> u64 \<Rightarrow> u64" where
  "cr3_leaf l x e =
     (case x of (pa, attr, cache) \<Rightarrow>
      case l of PDPT \<Rightarrow> cr3_pdpte pa attr cache e | PD \<Rightarrow> cr3_pde pa attr cache e | _ \<Rightarrow> cr3_pte pa attr cache e)"

lemma cr3_leaf_ok: "\<not> is_table cr3_paging 1 (cr3_leaf PDPT x 0)" "\<not> is_table cr3_paging 2 (cr3_leaf PD x 0)"
  by (cases x; simp add: is_table_def cr3_leaf_def cr3_paging_def bit_cr3_leaf)+

lemma cr3_run_inv:
  assumes "paging_inv k base V p" "cr3_mmap (m, p) = (Inr (), s0)" "table_run cr3_paging cr3_leaf s0 A s"
  shows "\<exists>T. pt_inv (paging_inv k base V) page_live cr3_paging (frame_of V) (set (pool_pages k base)) (page_live p) {} T A s"
proof -
  obtain q where q: "pt_inv (paging_inv k base V) page_live cr3_paging (frame_of V) (set (pool_pages k base))
      (page_live p) {} [[] \<mapsto> q] (\<lambda>\<pi>. None) s0"
    using cr3.make_mmap_result[of k base V "(m, p)"] assms(1,2) by (auto simp: cr3_mmap_def)
  show ?thesis by (rule cr3.run_inv[OF assms(3) q cr3_leaf_ok])
qed


section \<open>What an entry allows\<close>

definition write_xor_execute :: "'a x64_entry_scheme \<Rightarrow> u64 \<Rightarrow> cr3_attr_type \<Rightarrow> bool" where
  "write_xor_execute L e attr \<longleftrightarrow>
     flag_is_enabled (x_present L) e \<and> flag_is_disabled (x_us L) e \<and>
     (flag_is_enabled (x_rw L) e \<longleftrightarrow> attr = cr3_read_write) \<and> (flag_is_enabled (x_xd L) e \<longleftrightarrow> attr = cr3_read_write)"

text \<open>
  C27. No page of the hypervisor is both writable and executable, and none is open to user mode,
  whatever its size, attribute and memory type.
\<close>

theorem cr3_write_xor_execute:
  "write_xor_execute x64_pdpt_entry (cr3_pdpte pa attr c 0) attr \<and> write_xor_execute x64_pd_entry (cr3_pde pa attr c 0) attr \<and>
   write_xor_execute x64_pt_entry (cr3_pte pa attr c 0) attr"
  by (simp add: write_xor_execute_def flag_defs bit_cr3_leaf cr3_leaf_bit_def)

text \<open>The memory type that an index selects in the attribute table: 0 is uncacheable, 6 write-back.\<close>

definition pat_type :: "u64 \<Rightarrow> u64" where
  "pat_type i = drop_bit (8 * unat i) cr3_pat AND 0xFF"

text \<open>
  C28. With the attribute table of \<open>pat()\<close>, an entry of the last level has the memory
  type it was made with.  A large page is uncacheable only if bit 12 of its physical address, which
  the mask of the address field lets through to the attribute bit, is clear; otherwise it becomes
  write-back.
\<close>

theorem cr3_memory_type_selected:
  "pat_type (pt_pat_index_get x64_pt_entry (cr3_pte pa attr c 0)) = (if c = cr3_uncacheable then 0 else 6) \<and>
   pat_type (pd_pat_index_get (cr3_pde pa attr c 0)) = (if c = cr3_uncacheable \<and> \<not> bit pa 12 then 0 else 6) \<and>
   pat_type (pdpt_pat_index_get (cr3_pdpte pa attr c 0)) = (if c = cr3_uncacheable \<and> \<not> bit pa 12 then 0 else 6)"
proof -
  have t: "pat_type 0 = 0" "pat_type 1 = 6" "pat_type 4 = 6" "pat_type 5 = 6"
    by (simp_all add: pat_type_def cr3_pat_def)
  show ?thesis
    by (cases c) (auto simp: pt_pat_index_get_def pd_pat_index_get_def pdpt_pat_index_get_def Let_def flag_defs bit_cr3_leaf
        cr3_leaf_bit_def t)
qed

section \<open>Concrete runs\<close>

definition cr30 :: "memory_manager tables" where
  "cr30 = snd (cr3_mmap (no_tables, mm4))"

definition cr31 :: "memory_manager tables" where
  "cr31 = snd (cr3_map_1g 0x40000000 0x80000000 cr3_read_write cr3_write_back cr30)"

lemmas cr3_ops = cr3_paging_def mm4_ops

lemma cr30_eq: "cr3_mmap (no_tables, mm4) =
    (Inr (), (\<lparr>m_tab = (\<lambda>l. null_pair)(PML4 := \<lparr>pr_virt = 0x100000, pr_phys = 0\<rparr>), mem = (\<lambda>q i. 0)\<rparr>, mm4a))"
  by (simp add: cr3_mmap_def make_mmap_def allocate_span_def table_steps cr3_ops no_tables_def fun_upd_idem)

lemma cr30_run: "cr3_mmap (no_tables, mm4) = (Inr (), cr30)"
  by (simp add: cr30_def cr30_eq)

lemma cr31_run: "cr3_map_1g 0x40000000 0x80000000 cr3_read_write cr3_write_back cr30 = (Inr (0x101000, 1), cr31)"
proof -
  have s: "cr30 = (\<lparr>m_tab = (\<lambda>l. null_pair)(PML4 := \<lparr>pr_virt = 0x100000, pr_phys = 0\<rparr>), mem = (\<lambda>q i. 0)\<rparr>, mm4a)"
    by (simp add: cr30_def cr30_eq)
  show ?thesis unfolding cr31_def prod_eq_iff fst_conv snd_conv
    by (simp add: cr3_map_1g_def map_1g_def map_leaf_def map_pdpt_def table_steps s cr3_ops) (simp add: index_defs)
qed


end
