(* ===== verification/Cr3_Helpers.thy ===== *)
theory Cr3_Helpers
  imports Cr3_Properties
begin

text \<open>
  The identity maps of the host page tables,
  \<open>src/bareflank/bfvmm/include/memory_manager/arch/x64/cr3/helpers.h\<close>: the helpers of
  \<open>Page_Table_Helpers\<close> on the tables of \<open>Cr3_Map\<close>.
\<close>

definition cr3_identity_map_1g :: "u64 \<Rightarrow> u64 \<Rightarrow> cr3_attr_type \<Rightarrow> cr3_memory_type \<Rightarrow> (memory_manager tables, unit) op" where
  "cr3_identity_map_1g saddr eaddr attr cache = identity_map_1g cr3_paging (\<lambda>l gpa. cr3_leaf l (gpa, attr, cache)) saddr eaddr"

definition cr3_identity_map_2m :: "u64 \<Rightarrow> u64 \<Rightarrow> cr3_attr_type \<Rightarrow> cr3_memory_type \<Rightarrow> (memory_manager tables, unit) op" where
  "cr3_identity_map_2m saddr eaddr attr cache = identity_map_2m cr3_paging (\<lambda>l gpa. cr3_leaf l (gpa, attr, cache)) saddr eaddr"

definition cr3_identity_map_4k :: "u64 \<Rightarrow> u64 \<Rightarrow> cr3_attr_type \<Rightarrow> cr3_memory_type \<Rightarrow> (memory_manager tables, unit) op" where
  "cr3_identity_map_4k saddr eaddr attr cache = identity_map_4k cr3_paging (\<lambda>l gpa. cr3_leaf l (gpa, attr, cache)) saddr eaddr"

definition cr3_identity_unmap_1g :: "u64 \<Rightarrow> u64 \<Rightarrow> (memory_manager tables, unit) op" where
  "cr3_identity_unmap_1g = identity_unmap_1g cr3_paging"

definition cr3_identity_unmap_2m :: "u64 \<Rightarrow> u64 \<Rightarrow> (memory_manager tables, unit) op" where
  "cr3_identity_unmap_2m = identity_unmap_2m cr3_paging"

definition cr3_identity_unmap_4k :: "u64 \<Rightarrow> u64 \<Rightarrow> (memory_manager tables, unit) op" where
  "cr3_identity_unmap_4k = identity_unmap_4k cr3_paging"

definition cr3_identity_release_1g :: "u64 \<Rightarrow> u64 \<Rightarrow> (memory_manager tables, unit) op" where
  "cr3_identity_release_1g = identity_release_1g cr3_paging"

definition cr3_identity_release_2m :: "u64 \<Rightarrow> u64 \<Rightarrow> (memory_manager tables, unit) op" where
  "cr3_identity_release_2m = identity_release_2m cr3_paging"

definition cr3_identity_release_4k :: "u64 \<Rightarrow> u64 \<Rightarrow> (memory_manager tables, unit) op" where
  "cr3_identity_release_4k = identity_release_4k cr3_paging"

definition cr3_identity_map_convert_1g_to_2m :: "u64 \<Rightarrow> cr3_attr_type \<Rightarrow> cr3_memory_type \<Rightarrow> (memory_manager tables, unit) op" where
  "cr3_identity_map_convert_1g_to_2m addr attr cache = identity_map_convert_1g_to_2m cr3_paging (\<lambda>l gpa. cr3_leaf l (gpa, attr, cache)) addr"

definition cr3_identity_map_convert_1g_to_4k :: "u64 \<Rightarrow> cr3_attr_type \<Rightarrow> cr3_memory_type \<Rightarrow> (memory_manager tables, unit) op" where
  "cr3_identity_map_convert_1g_to_4k addr attr cache = identity_map_convert_1g_to_4k cr3_paging (\<lambda>l gpa. cr3_leaf l (gpa, attr, cache)) addr"

definition cr3_identity_map_convert_2m_to_1g :: "u64 \<Rightarrow> cr3_attr_type \<Rightarrow> cr3_memory_type \<Rightarrow> (memory_manager tables, unit) op" where
  "cr3_identity_map_convert_2m_to_1g addr attr cache = identity_map_convert_2m_to_1g cr3_paging (\<lambda>l gpa. cr3_leaf l (gpa, attr, cache)) addr"

definition cr3_identity_map_convert_4k_to_1g :: "u64 \<Rightarrow> cr3_attr_type \<Rightarrow> cr3_memory_type \<Rightarrow> (memory_manager tables, unit) op" where
  "cr3_identity_map_convert_4k_to_1g addr attr cache = identity_map_convert_4k_to_1g cr3_paging (\<lambda>l gpa. cr3_leaf l (gpa, attr, cache)) addr"

definition cr3_identity_map_convert_2m_to_4k :: "u64 \<Rightarrow> cr3_attr_type \<Rightarrow> cr3_memory_type \<Rightarrow> (memory_manager tables, unit) op" where
  "cr3_identity_map_convert_2m_to_4k addr attr cache = identity_map_convert_2m_to_4k cr3_paging (\<lambda>l gpa. cr3_leaf l (gpa, attr, cache)) addr"

definition cr3_identity_map_convert_4k_to_2m :: "u64 \<Rightarrow> cr3_attr_type \<Rightarrow> cr3_memory_type \<Rightarrow> (memory_manager tables, unit) op" where
  "cr3_identity_map_convert_4k_to_2m addr attr cache = identity_map_convert_4k_to_2m cr3_paging (\<lambda>l gpa. cr3_leaf l (gpa, attr, cache)) addr"

end
