(* ===== verification/Spec2Isabelle.thy ===== *)
theory Spec2Isabelle
  imports Memory_Properties Ept_Identity Cr3_Helpers
begin

text \<open>
  Verification development for GEVisor.
\<close>

end
